(* ===== verification/Tundra_Prelude.thy ===== *)
theory Tundra_Prelude
  imports Main "HOL-Library.Char_ord" "HOL-Library.List_Lexorder" "HOL-Library.Product_Lexorder"
begin

text \<open>
  Shared vocabulary of the development: the result type that makes every failed
  \<^verbatim>\<open>assert\<close>, every undefined behaviour and every overflow of the C++ code a value,
  its sequencing operator, memory as a list of bytes with the block operations of the
  standard library (\<^verbatim>\<open>memcpy\<close>, \<^verbatim>\<open>std::find\<close>, \<^verbatim>\<open>memmem\<close>, \<^verbatim>\<open>memchr\<close>), and the
  two collections of rewrite rules the component theories use.
\<close>

named_theorems result_simps \<open>unfolding of the sequencing operators of results\<close>
named_theorems mem_simps \<open>rewriting of memory blocks\<close>

section \<open>Faults and results\<close>

text \<open>
  A fault is a way in which the compiled debug build stops being described by its source:
  a failed \<^verbatim>\<open>assert\<close>, an access outside an object, an access to a dead object, a
  signed overflow, a function that ends without returning its value, an allocation that
  fails, or a call of \<^verbatim>\<open>std::terminate\<close> or \<^verbatim>\<open>abort\<close>. An operation that can do so returns a \<open>result\<close>.
\<close>

datatype fault = AssertFail | OutOfBounds | UseAfterFree | SignedOverflow | MissingReturn | OutOfMemory | Terminated

type_synonym 'a result = "fault + 'a"
type_synonym bytes = "char list"

definition bind_r :: "'a result \<Rightarrow> ('a \<Rightarrow> 'b result) \<Rightarrow> 'b result" where
  "bind_r m k = (case m of Inl e \<Rightarrow> Inl e | Inr x \<Rightarrow> k x)"

definition asserting :: "bool \<Rightarrow> 'a result \<Rightarrow> 'a result" where
  "asserting b k = (if b then k else Inl AssertFail)"

text \<open>Arithmetic on \<^verbatim>\<open>int\<close>: a value that does not fit is a signed overflow.\<close>

definition int32 :: "int \<Rightarrow> int result" where
  "int32 x = (if - (2 ^ 31) \<le> x \<and> x < 2 ^ 31 then Inr x else Inl SignedOverflow)"

text \<open>The range-based \<^verbatim>\<open>for\<close> loop of the source: a body run on each element in order.\<close>

fun for_r :: "'a list \<Rightarrow> ('a \<Rightarrow> 's \<Rightarrow> 's result) \<Rightarrow> 's \<Rightarrow> 's result" where
  "for_r [] f s = Inr s"
| "for_r (x # xs) f s = bind_r (f x s) (for_r xs f)"

lemma bind_r_simps [simp]:
  "bind_r (Inl e) k = Inl e"
  "bind_r (Inr x) k = k x"
  by (simp_all add: bind_r_def)

lemma bind_r_Inr_iff [result_simps]:
  "bind_r m k = Inr y \<longleftrightarrow> (\<exists>x. m = Inr x \<and> k x = Inr y)"
  by (cases m) auto

lemma bind_r_assoc: "bind_r (bind_r m f) g = bind_r m (\<lambda>x. bind_r (f x) g)"
  by (cases m) auto

lemma asserting_simps [simp]:
  "asserting True k = k"
  "asserting False k = Inl AssertFail"
  by (simp_all add: asserting_def)

lemma asserting_Inr_iff [result_simps]: "asserting b k = Inr y \<longleftrightarrow> b \<and> k = Inr y"
  by (simp add: asserting_def)

lemma for_r_append: "for_r (xs @ ys) f s = bind_r (for_r xs f s) (for_r ys f)"
  by (induction xs arbitrary: s) (auto simp: bind_r_def split: sum.splits)

lemma for_r_invariant:
  assumes "P s" and "\<And>x s. x \<in> set xs \<Longrightarrow> P s \<Longrightarrow> \<exists>s'. f x s = Inr s' \<and> P s'"
  shows "\<exists>s'. for_r xs f s = Inr s' \<and> P s'"
  using assms
proof (induction xs arbitrary: s)
  case Nil
  then show ?case by simp
next
  case (Cons x xs)
  from Cons.prems obtain s1 where s1: "f x s = Inr s1" "P s1" by force
  have "\<exists>s'. for_r xs f s1 = Inr s' \<and> P s'"
    using s1(2) Cons.prems(2) by (intro Cons.IH) auto
  with s1(1) show ?case by simp
qed

subsection \<open>Reasoning about results\<close>

text \<open>
  \<open>safe E P r\<close>: the computation \<open>r\<close> ends with a value that satisfies \<open>P\<close>, or with one of the
  faults in \<open>E\<close>. The rules follow the structure of the program; the rule for loops keeps the
  elements already processed.
\<close>

definition safe :: "fault set \<Rightarrow> ('a \<Rightarrow> bool) \<Rightarrow> 'a result \<Rightarrow> bool" where
  "safe E P r \<longleftrightarrow> (case r of Inl e \<Rightarrow> e \<in> E | Inr x \<Rightarrow> P x)"

lemma safe_simps [simp]:
  "safe E P (Inl e) \<longleftrightarrow> e \<in> E"
  "safe E P (Inr x) \<longleftrightarrow> P x"
  by (simp_all add: safe_def)

lemma safe_weaken: "safe E P r \<Longrightarrow> (\<And>x. P x \<Longrightarrow> Q x) \<Longrightarrow> safe E Q r"
  by (cases r) auto

lemma safe_faults: "safe E P r \<Longrightarrow> E \<subseteq> F \<Longrightarrow> safe F P r"
  by (cases r) auto

lemma safe_bind: "safe E P m \<Longrightarrow> (\<And>x. P x \<Longrightarrow> safe E Q (k x)) \<Longrightarrow> safe E Q (bind_r m k)"
  by (cases m) auto

lemma safe_conj: "safe E P r \<Longrightarrow> safe E Q r \<Longrightarrow> safe E (\<lambda>x. P x \<and> Q x) r"
  by (cases r) auto

lemma safe_Inr: "safe E P r \<Longrightarrow> r = Inr x \<Longrightarrow> P x"
  by simp

lemma safe_asserting: "b \<Longrightarrow> safe E P r \<Longrightarrow> safe E P (asserting b r)"
  by simp

lemma safe_for:
  assumes "P [] s" and "\<And>ys x zs s. xs = ys @ x # zs \<Longrightarrow> P ys s \<Longrightarrow> safe E (P (ys @ [x])) (f x s)"
  shows "safe E (P xs) (for_r xs f s)"
proof -
  have "us @ vs = xs \<Longrightarrow> P us s \<Longrightarrow> safe E (P xs) (for_r vs f s)" for us vs s
  proof (induction vs arbitrary: us s)
    case (Cons x vs)
    have "safe E (P (us @ [x])) (f x s)" using Cons.prems assms(2) by blast
    moreover have "P (us @ [x]) s' \<Longrightarrow> safe E (P xs) (for_r vs f s')" for s'
      using Cons.prems(1) by (intro Cons.IH) auto
    ultimately show ?case by (auto intro: safe_bind)
  qed simp
  with assms(1) show ?thesis by fastforce
qed

section \<open>Memory blocks\<close>

text \<open>
  \<open>block m i j\<close> is the block \<^verbatim>\<open>[i, j)\<close> of a memory area, what \<^verbatim>\<open>std::string(m + i, m + j)\<close>
  holds; \<open>blit m i d\<close> is the area after \<^verbatim>\<open>memcpy(m + i, d, |d|)\<close>, \<^verbatim>\<open>std::copy\<close> to the same
  place, for a block that fits.
\<close>

definition block :: "'a list \<Rightarrow> nat \<Rightarrow> nat \<Rightarrow> 'a list" where
  "block m i j = take (j - i) (drop i m)"

definition blit :: "'a list \<Rightarrow> nat \<Rightarrow> 'a list \<Rightarrow> 'a list" where
  "blit m i d = take i m @ d @ drop (i + length d) m"

lemma length_block [mem_simps]: "j \<le> length m \<Longrightarrow> length (block m i j) = j - i"
  by (simp add: block_def)

lemma block_empty [simp]: "block m i i = []"
  by (simp add: block_def)

lemma block_append [mem_simps]: "i \<le> j \<Longrightarrow> j \<le> k \<Longrightarrow> block m i j @ block m j k = block m i k"
proof -
  assume ij: "i \<le> j" and jk: "j \<le> k"
  have "take ((j - i) + (k - j)) (drop i m) = take (j - i) (drop i m) @ take (k - j) (drop (j - i) (drop i m))"
    by (simp only: take_add)
  with ij jk show ?thesis by (simp add: block_def)
qed

lemma nth_block [mem_simps]: "i + n < j \<Longrightarrow> j \<le> length m \<Longrightarrow> block m i j ! n = m ! (i + n)"
  by (simp add: block_def)

lemma block_Cons: "i < j \<Longrightarrow> j \<le> length m \<Longrightarrow> block m i j = m ! i # block m (Suc i) j"
  by (simp add: block_def Cons_nth_drop_Suc [symmetric] Suc_diff_Suc [symmetric])

lemma block_drop: "block m (i + n) j = drop n (block m i j)"
  by (simp add: block_def drop_take add.commute)

lemma block_take: "j \<le> k \<Longrightarrow> block m i j = take (j - i) (block m i k)"
  by (simp add: block_def min_def)

lemma block_block [mem_simps]: "i + k \<le> j \<Longrightarrow> block (block m i j) h k = block m (i + h) (i + k)"
  by (simp add: block_def drop_take min_def add.commute)

lemma block_0 [simp]: "block m 0 j = take j m"
  by (simp add: block_def)

lemma block_append_left: "j \<le> length m \<Longrightarrow> block (m @ n) i j = block m i j"
  by (simp add: block_def)

lemma length_blit [mem_simps]: "i + length d \<le> length m \<Longrightarrow> length (blit m i d) = length m"
  by (simp add: blit_def)

lemma block_blit_before [mem_simps]:
  "j \<le> k \<Longrightarrow> k \<le> length m \<Longrightarrow> block (blit m k d) i j = block m i j"
  by (cases "i \<le> j") (simp_all add: block_def blit_def drop_take)

lemma block_blit_at [mem_simps]:
  "i \<le> length m \<Longrightarrow> block (blit m i d) i (i + length d) = d"
  by (simp add: block_def blit_def)

lemma block_blit_span:
  "i \<le> k \<Longrightarrow> k \<le> length m \<Longrightarrow> block (blit m k d) i (k + length d) = block m i k @ d"
  using block_append [of i k "k + length d" "blit m k d"]
  by (simp add: block_blit_before block_blit_at)

section \<open>Searching memory\<close>

text \<open>
  \<^verbatim>\<open>std::find(first, last, c)\<close> on pointers into the area \<open>m\<close>: the first position that
  holds \<open>c\<close>, or \<open>last\<close>. \<^verbatim>\<open>memchr\<close> and \<^verbatim>\<open>memmem\<close> return the offset of the first match, or
  no pointer at all.
\<close>

function std_find :: "bytes \<Rightarrow> nat \<Rightarrow> nat \<Rightarrow> char \<Rightarrow> nat" where
  "std_find m lo hi c =
     (if lo < hi then if m ! lo = c then lo else std_find m (Suc lo) hi c
      else hi)"
  by pat_completeness auto
termination
  by (relation "measure (\<lambda>(m, lo, hi, c). hi - lo)") auto

declare std_find.simps [simp del]

fun memchr :: "bytes \<Rightarrow> char \<Rightarrow> nat option" where
  "memchr [] c = None"
| "memchr (x # xs) c = (if x = c then Some 0 else map_option Suc (memchr xs c))"

fun memmem :: "bytes \<Rightarrow> bytes \<Rightarrow> nat option" where
  "memmem [] needle = (if needle = [] then Some 0 else None)"
| "memmem (x # xs) needle =
     (if take (length needle) (x # xs) = needle then Some 0
      else map_option Suc (memmem xs needle))"

lemma std_find_stop [simp]: "hi \<le> lo \<Longrightarrow> std_find m lo hi c = hi"
  by (simp add: std_find.simps)

lemma std_find_bounds: "lo \<le> hi \<Longrightarrow> lo \<le> std_find m lo hi c \<and> std_find m lo hi c \<le> hi"
proof (induction m lo hi c rule: std_find.induct)
  case (1 m lo hi c)
  then show ?case by (auto simp: std_find.simps [of m lo hi c])
qed

text \<open>What a search over a block of memory finds, in terms of the block alone.\<close>

lemma std_find_takeWhile:
  "lo \<le> hi \<Longrightarrow> hi \<le> length m \<Longrightarrow>
    std_find m lo hi c = lo + length (takeWhile (\<lambda>x. x \<noteq> c) (block m lo hi))"
proof (induction m lo hi c rule: std_find.induct)
  case (1 m lo hi c)
  then show ?case
    by (cases "lo < hi") (auto simp: block_Cons [of lo hi m] std_find.simps [of m lo hi c])
qed

lemma std_find_blocks:
  assumes "lo \<le> hi" and "hi \<le> length m"
  shows "block m lo (std_find m lo hi c) = takeWhile (\<lambda>x. x \<noteq> c) (block m lo hi)"
    and "block m (std_find m lo hi c) hi = dropWhile (\<lambda>x. x \<noteq> c) (block m lo hi)"
    and "std_find m lo hi c = hi \<longleftrightarrow> c \<notin> set (block m lo hi)"
proof -
  let ?n = "length (takeWhile (\<lambda>x. x \<noteq> c) (block m lo hi))"
  have f: "std_find m lo hi c = lo + ?n" by (rule std_find_takeWhile [OF assms])
  have n: "?n \<le> hi - lo"
    using length_takeWhile_le [of "\<lambda>x. x \<noteq> c" "block m lo hi"] assms by (simp add: length_block)
  have "block m lo (lo + ?n) = take ?n (block m lo hi)"
    using n assms block_take [of "lo + ?n" hi m lo] by simp
  then show "block m lo (std_find m lo hi c) = takeWhile (\<lambda>x. x \<noteq> c) (block m lo hi)"
    by (simp only: f takeWhile_eq_take [symmetric])
  show "block m (std_find m lo hi c) hi = dropWhile (\<lambda>x. x \<noteq> c) (block m lo hi)"
    by (simp add: f block_drop dropWhile_eq_drop)
  have "?n = hi - lo \<longleftrightarrow> c \<notin> set (block m lo hi)"
    using assms takeWhile_eq_all_conv [of "\<lambda>x. x \<noteq> c" "block m lo hi"]
      takeWhile_eq_take [of "\<lambda>x. x \<noteq> c" "block m lo hi"] length_block [of hi m lo]
    by (metis take_all order.refl)
  with assms show "std_find m lo hi c = hi \<longleftrightarrow> c \<notin> set (block m lo hi)"
    by (auto simp: f)
qed

lemma memmem_Some_iff:
  assumes "needle \<noteq> []"
  shows "memmem hay needle = Some i \<longleftrightarrow>
    take (length needle) (drop i hay) = needle \<and>
    (\<forall>k<i. take (length needle) (drop k hay) \<noteq> needle)"
proof (induction hay arbitrary: i)
  case Nil
  with assms show ?case by auto
next
  case (Cons x xs)
  show ?case
  proof (cases i)
    case 0
    then show ?thesis by auto
  next
    case (Suc i')
    have all: "(\<forall>k<Suc i'. P k) \<longleftrightarrow> P 0 \<and> (\<forall>k<i'. P (Suc k))" for P
      by (metis less_Suc_eq_0_disj not0_implies_Suc zero_less_Suc Suc_less_eq)
    show ?thesis by (auto simp: Suc all Cons.IH)
  qed
qed

lemma memmem_None_iff:
  assumes "needle \<noteq> []"
  shows "memmem hay needle = None \<longleftrightarrow> (\<forall>k. take (length needle) (drop k hay) \<noteq> needle)"
proof (induction hay)
  case Nil
  with assms show ?case by auto
next
  case (Cons x xs)
  have all: "(\<forall>k. P k) \<longleftrightarrow> P 0 \<and> (\<forall>k. P (Suc k))" for P :: "nat \<Rightarrow> bool"
    by (metis not0_implies_Suc)
  show ?case by (subst all) (auto simp: Cons.IH)
qed

lemma memmem_bound: "memmem hay needle = Some i \<Longrightarrow> i + length needle \<le> length hay"
proof (induction hay arbitrary: i)
  case Nil
  then show ?case by (auto split: if_splits)
next
  case (Cons x xs)
  then show ?case
    by (auto split: if_splits dest: arg_cong [where f = length])
qed

lemma memchr_Some_iff: "memchr m c = Some i \<longleftrightarrow> i < length m \<and> m ! i = c \<and> (\<forall>k<i. m ! k \<noteq> c)"
proof (induction m arbitrary: i)
  case Nil
  then show ?case by simp
next
  case (Cons x xs)
  then show ?case by (cases i) (auto simp: less_Suc_eq_0_disj)
qed

lemma memchr_None_iff: "memchr m c = None \<longleftrightarrow> c \<notin> set m"
  by (induction m) auto

end
