(* ===== verification/Log_Level.thy ===== *)
theory Log_Level
  imports Tundra_Prelude
begin

text \<open>
  The levels of log messages, the enumeration \<^verbatim>\<open>AsyncLogger::Level\<close> of \<^verbatim>\<open>base/AsyncLogger.h\<close> with its order and its names.
\<close>

section \<open>Levels\<close>

datatype Level = TRACE | DEBUG | INFO | WARN | ERROR | FATAL | LEVEL_COUNT

fun level_num :: "Level \<Rightarrow> nat" where
  "level_num TRACE = 0"
| "level_num DEBUG = 1"
| "level_num INFO = 2"
| "level_num WARN = 3"
| "level_num ERROR = 4"
| "level_num FATAL = 5"
| "level_num LEVEL_COUNT = 6"

lemma level_num_inj: "level_num a = level_num b \<Longrightarrow> a = b"
  by (cases a; cases b) simp_all

instantiation Level :: linorder
begin

definition less_eq_Level :: "Level \<Rightarrow> Level \<Rightarrow> bool" where
  "less_eq_Level a b \<longleftrightarrow> level_num a \<le> level_num b"

definition less_Level :: "Level \<Rightarrow> Level \<Rightarrow> bool" where
  "less_Level a b \<longleftrightarrow> level_num a < level_num b"

instance
  by standard (auto simp: less_eq_Level_def less_Level_def dest: level_num_inj)

end

definition levelName :: "string list" where
  "levelName = [''TRACE'', ''DEBUG'', ''INFO'', ''WARN'', ''ERROR'', ''FATAL'']"

definition level_text :: "Level \<Rightarrow> string result" where
  "level_text l = (if level_num l < length levelName then Inr (levelName ! level_num l) else Inl OutOfBounds)"

end
