(* ===== verification/Text_Format.thy ===== *)
theory Text_Format
  imports Tundra_Prelude
begin

text \<open>
  The formatting of the C library that the program uses: decimal conversion (\<^verbatim>\<open>%d\<close>, \<^verbatim>\<open>%zd\<close>,
  \<^verbatim>\<open>%0wd\<close>) and the truncation of \<^verbatim>\<open>snprintf\<close>, with the facts its callers need: what a conversion
  can produce, how long it is, and that it determines the number.
\<close>

fun digits :: "nat \<Rightarrow> string" where
  "digits n = (if n < 10 then [char_of (48 + n)] else digits (n div 10) @ [char_of (48 + n mod 10)])"

declare digits.simps [simp del]

definition show_int :: "int \<Rightarrow> string" where
  "show_int i = (if i < 0 then CHR ''-'' # digits (nat (- i)) else digits (nat i))"

definition pad :: "char \<Rightarrow> nat \<Rightarrow> string \<Rightarrow> string" where
  "pad c w s = replicate (w - length s) c @ s"

text \<open>\<^verbatim>\<open>%0wd\<close> puts the sign before the zeros.\<close>

definition show_int0 :: "nat \<Rightarrow> int \<Rightarrow> string" where
  "show_int0 w i =
     (if i < 0 then CHR ''-'' # pad (CHR ''0'') (w - 1) (digits (nat (- i)))
      else pad (CHR ''0'') w (digits (nat i)))"

text \<open>\<^verbatim>\<open>snprintf\<close> into a buffer of \<open>n\<close> bytes keeps at most \<open>n - 1\<close> characters.\<close>

definition snprintf :: "nat \<Rightarrow> string \<Rightarrow> string" where
  "snprintf n s = take (n - 1) s"

definition digit_chars :: string where
  "digit_chars = ''0123456789''"

lemma digit_in: "(d::nat) < 10 \<Longrightarrow> char_of (48 + d) \<in> set digit_chars"
proof -
  assume "d < (10::nat)"
  then have "d \<in> {0, 1, 2, 3, 4, 5, 6, 7, 8, 9}" by auto
  then show ?thesis by (elim insertE emptyE) (simp_all add: digit_chars_def char_of_def bit_0)
qed

lemma digits_set: "set (digits n) \<subseteq> set digit_chars"
proof (induction n rule: digits.induct)
  case (1 n)
  then show ?case by (subst digits.simps) (auto simp: digit_in)
qed

lemma digits_nonempty: "digits n \<noteq> []"
  by (subst digits.simps) simp

lemma of_char_digit: "(d::nat) < 10 \<Longrightarrow> (of_char (char_of (48 + d)) :: nat) = 48 + d"
  by simp

lemma digits_inj: "digits m = digits n \<Longrightarrow> m = n"
proof (induction m arbitrary: n rule: digits.induct)
  case (1 m)
  have last: "last (digits k) = char_of (48 + k mod 10)" for k
    by (subst digits.simps) simp
  have but: "butlast (digits k) = (if k < 10 then [] else digits (k div 10))" for k
    by (subst digits.simps) simp
  have "(of_char (last (digits m)) :: nat) = of_char (last (digits n))" using 1(2) by simp
  then have r: "m mod 10 = n mod 10" by (simp add: last)
  have d: "(if m < 10 then [] else digits (m div 10)) = (if n < 10 then [] else digits (n div 10))"
    using 1(2) but by metis
  show ?case
  proof (cases "m < 10")
    case True
    with d digits_nonempty [of "n div 10"] have "n < 10" by (auto split: if_splits)
    with True r show ?thesis by simp
  next
    case False
    with d digits_nonempty [of "m div 10"] have "digits (m div 10) = digits (n div 10)" and "\<not> n < 10"
      by (auto split: if_splits)
    with 1(1) [OF False] r show ?thesis by (metis div_mult_mod_eq)
  qed
qed

lemma length_digits: "n < 10 ^ k \<Longrightarrow> 0 < k \<Longrightarrow> length (digits n) \<le> k"
proof (induction n arbitrary: k rule: digits.induct)
  case (1 n)
  show ?case
  proof (cases "n < 10")
    case True
    with 1 show ?thesis by (subst digits.simps) simp
  next
    case False
    with "1.prems" obtain j where j: "k = Suc j" "0 < j"
      by (cases k; cases "k - 1") auto
    with "1.prems" have "n div 10 < 10 ^ j" by (simp add: div_less_iff_less_mult mult.commute)
    with 1 False j show ?thesis by (subst digits.simps) simp
  qed
qed

lemma length_show_int: "\<bar>i\<bar> < 10 ^ k \<Longrightarrow> 0 < k \<Longrightarrow> length (show_int i) \<le> Suc k"
  using length_digits [of "nat \<bar>i\<bar>" k]
  by (auto simp: show_int_def nat_less_iff abs_if nat_power_eq split: if_splits)

lemma show_int_nat: "show_int (int n) = digits n"
  by (simp add: show_int_def)

lemma snprintf_fits: "length s < n \<Longrightarrow> snprintf n s = s"
  by (simp add: snprintf_def)

end
