(* ===== verification/Tundra_String.thy ===== *)
theory Tundra_String
  imports Tundra_Prelude "HOL-Library.Word"
begin

text \<open>
  \<^verbatim>\<open>util/String.h\<close> and \<^verbatim>\<open>util/String.cpp\<close>: a read-only view, a pointer and a length, that owns
  nothing. A pointer is null, dangles (the object it pointed into is gone) or points to the
  bytes that follow it in its object. The comparison operators are shown to be the
  lexicographic order of the viewed bytes.
\<close>

section \<open>Pointers and the C string functions\<close>

datatype cptr = Null | Dangling | Ptr bytes

definition deref :: "cptr \<Rightarrow> bytes result" where
  "deref p = (case p of Ptr bs \<Rightarrow> Inr bs | _ \<Rightarrow> Inl UseAfterFree)"

text \<open>Reading \<open>n\<close> bytes through a pointer.\<close>

definition read_bytes :: "cptr \<Rightarrow> nat \<Rightarrow> bytes result" where
  "read_bytes p n =
     (if n = 0 then Inr []
      else bind_r (deref p) (\<lambda>bs. if n \<le> length bs then Inr (take n bs) else Inl OutOfBounds))"

definition strlen :: "cptr \<Rightarrow> nat result" where
  "strlen p = bind_r (deref p) (\<lambda>bs.
     case memchr bs (CHR 0x00) of Some n \<Rightarrow> Inr n | None \<Rightarrow> Inl OutOfBounds)"

text \<open>The sign \<^verbatim>\<open>memcmp\<close> returns on two blocks of the same length: the first byte that differs,
  compared unsigned, decides.\<close>

fun cmp_bytes :: "bytes \<Rightarrow> bytes \<Rightarrow> int" where
  "cmp_bytes (x # xs) (y # ys) = (if x < y then -1 else if y < x then 1 else cmp_bytes xs ys)"
| "cmp_bytes _ _ = 0"

definition memcmp :: "cptr \<Rightarrow> cptr \<Rightarrow> nat \<Rightarrow> int result" where
  "memcmp p q n = bind_r (read_bytes p n) (\<lambda>xs. bind_r (read_bytes q n) (\<lambda>ys. Inr (cmp_bytes xs ys)))"

section \<open>The class\<close>

record String =
  data :: cptr
  len :: nat

definition String_empty :: String where
  "String_empty = \<lparr>data = Ptr [CHR 0x00], len = 0\<rparr>"

definition String_of_cstr :: "cptr \<Rightarrow> String result" where
  "String_of_cstr p = bind_r (strlen p) (\<lambda>n. Inr \<lparr>data = p, len = n\<rparr>)"

text \<open>The views of a \<^verbatim>\<open>std::string\<close>: \<^verbatim>\<open>c_str()\<close> is its bytes and a terminating zero.\<close>

definition String_of_std :: "bytes \<Rightarrow> String" where
  "String_of_std s = \<lparr>data = Ptr (s @ [CHR 0x00]), len = length s\<rparr>"

text \<open>The \<^verbatim>\<open>int\<close> length of a range becomes a \<^verbatim>\<open>size_t\<close>.\<close>

definition String_of_range :: "cptr \<Rightarrow> int \<Rightarrow> String" where
  "String_of_range p n = \<lparr>data = p, len = nat (n mod 2 ^ 64)\<rparr>"

definition String_copy :: "String \<Rightarrow> String" where
  "String_copy rhs = \<lparr>data = data rhs, len = len rhs\<rparr>"

text \<open>Moving out of a view nulls the source's pointer and keeps its length.\<close>

definition String_move :: "String \<Rightarrow> String \<times> String" where
  "String_move rhs = (\<lparr>data = data rhs, len = len rhs\<rparr>, rhs\<lparr>data := Null\<rparr>)"

text \<open>Copy assignment is declared to return a \<^verbatim>\<open>String\<close> and returns nothing.\<close>

definition String_copy_assign :: "String \<Rightarrow> String \<Rightarrow> String result" where
  "String_copy_assign self rhs = Inl MissingReturn"

definition String_move_assign :: "String \<Rightarrow> String \<Rightarrow> String \<times> String" where
  "String_move_assign self rhs = (self\<lparr>data := data rhs, len := len rhs\<rparr>, rhs\<lparr>data := Null\<rparr>)"

text \<open>\<^verbatim>\<open>std::swap\<close>: one move construction and two move assignments.\<close>

definition String_swap :: "String \<Rightarrow> String \<Rightarrow> String \<times> String" where
  "String_swap self rhs =
     (let (tmp, self1) = String_move self;
          (self2, rhs1) = String_move_assign self1 rhs;
          (rhs2, tmp1) = String_move_assign rhs1 tmp
      in (self2, rhs2))"

text \<open>\<^verbatim>\<open>size()\<close> narrows the \<^verbatim>\<open>size_t\<close> to \<^verbatim>\<open>int\<close>.\<close>

definition String_size :: "String \<Rightarrow> int" where
  "String_size s = sint (of_nat (len s) :: 32 word)"

definition String_is_empty :: "String \<Rightarrow> bool" where
  "String_is_empty s \<longleftrightarrow> len s = 0"

definition starts_with :: "String \<Rightarrow> String \<Rightarrow> bool result" where
  "starts_with self pattern =
     (if len self \<ge> len pattern
      then bind_r (memcmp (data self) (data pattern) (len pattern)) (\<lambda>r. Inr (r = 0))
      else Inr False)"

definition String_clear :: "String \<Rightarrow> String" where
  "String_clear s = s\<lparr>data := Ptr [CHR 0x00], len := 0\<rparr>"

definition String_set :: "cptr \<Rightarrow> nat \<Rightarrow> String \<Rightarrow> String" where
  "String_set str n s = s\<lparr>data := str, len := n\<rparr>"

definition String_set_cstr :: "cptr \<Rightarrow> String \<Rightarrow> String result" where
  "String_set_cstr str s = bind_r (strlen str) (\<lambda>n. Inr (String_set str n s))"

definition String_nth :: "nat \<Rightarrow> String \<Rightarrow> char result" where
  "String_nth i s = asserting (i < len s) (bind_r (deref (data s)) (\<lambda>bs.
     if i < length bs then Inr (bs ! i) else Inl OutOfBounds))"

text \<open>\<^verbatim>\<open>compare\<close> is \<^verbatim>\<open>strcmp\<close>: it runs to the terminating zeros and ignores the lengths.\<close>

definition String_compare :: "String \<Rightarrow> String \<Rightarrow> int result" where
  "String_compare self rhs =
     bind_r (strlen (data self)) (\<lambda>n. bind_r (strlen (data rhs)) (\<lambda>m.
     memcmp (data self) (data rhs) (Suc (min n m))))"

definition to_string :: "String \<Rightarrow> bytes result" where
  "to_string s = read_bytes (data s) (len s)"

section \<open>The comparison operators\<close>

text \<open>A negative \<^verbatim>\<open>int\<close> passed to \<^verbatim>\<open>memcmp\<close> becomes a huge \<^verbatim>\<open>size_t\<close>.\<close>

definition size_arg :: "int \<Rightarrow> nat" where
  "size_arg n = nat (n mod 2 ^ 64)"

definition String_eq :: "String \<Rightarrow> String \<Rightarrow> bool result" where
  "String_eq lhs rhs =
     (if String_size lhs = String_size rhs
      then bind_r (memcmp (data lhs) (data rhs) (size_arg (String_size lhs))) (\<lambda>r. Inr (r = 0))
      else Inr False)"

definition String_neq :: "String \<Rightarrow> String \<Rightarrow> bool result" where
  "String_neq lhs rhs = bind_r (String_eq lhs rhs) (\<lambda>b. Inr (\<not> b))"

definition String_less :: "String \<Rightarrow> String \<Rightarrow> bool result" where
  "String_less lhs rhs =
     bind_r (memcmp (data lhs) (data rhs) (size_arg (min (String_size lhs) (String_size rhs)))) (\<lambda>ret.
       Inr (ret < 0 \<or> (ret = 0 \<and> String_size lhs < String_size rhs)))"

definition String_le :: "String \<Rightarrow> String \<Rightarrow> bool result" where
  "String_le lhs rhs = bind_r (String_less lhs rhs) (\<lambda>b. if b then Inr True else String_eq lhs rhs)"

definition String_gt :: "String \<Rightarrow> String \<Rightarrow> bool result" where
  "String_gt lhs rhs = bind_r (String_le lhs rhs) (\<lambda>b. Inr (\<not> b))"

definition String_ge :: "String \<Rightarrow> String \<Rightarrow> bool result" where
  "String_ge lhs rhs = bind_r (String_less lhs rhs) (\<lambda>b. Inr (\<not> b))"

section \<open>Properties\<close>

text \<open>A view is sound when its bytes are there and its length fits an \<^verbatim>\<open>int\<close>.\<close>

definition view_ok :: "String \<Rightarrow> bool" where
  "view_ok s \<longleftrightarrow> (\<exists>bs. data s = Ptr bs \<and> len s \<le> length bs) \<and> len s < 2 ^ 31"

definition view :: "String \<Rightarrow> bytes" where
  "view s = (case data s of Ptr bs \<Rightarrow> take (len s) bs | _ \<Rightarrow> [])"

lemma String_size_ok: "view_ok s \<Longrightarrow> String_size s = int (length (view s)) \<and> length (view s) = len s \<and> len s < 2 ^ 31"
proof -
  assume ok: "view_ok s"
  then have "sint (of_nat (len s) :: 32 word) = int (len s)"
    by (simp add: view_ok_def signed_of_nat signed_take_bit_int_eq_self)
  with ok show ?thesis by (auto simp: String_size_def view_ok_def view_def)
qed

lemma cmp_bytes_less: "length xs = length ys \<Longrightarrow> cmp_bytes xs ys < 0 \<longleftrightarrow> xs < ys"
  by (induction xs ys rule: list_induct2) auto

lemma cmp_bytes_eq: "length xs = length ys \<Longrightarrow> cmp_bytes xs ys = 0 \<longleftrightarrow> xs = ys"
  by (induction xs ys rule: list_induct2) auto

lemma memcmp_view:
  assumes "view_ok a" and "view_ok b" and "n \<le> len a" and "n \<le> len b"
  shows "memcmp (data a) (data b) n = Inr (cmp_bytes (take n (view a)) (take n (view b)))"
  using assms by (auto simp: memcmp_def read_bytes_def deref_def view_ok_def view_def min_def)

lemma lex_take:
  fixes xs ys :: bytes
  defines "n \<equiv> min (length xs) (length ys)"
  shows "xs < ys \<longleftrightarrow> take n xs < take n ys \<or> (take n xs = take n ys \<and> length xs < length ys)"
  unfolding n_def
proof (induction xs arbitrary: ys)
  case Nil
  then show ?case by (cases ys) auto
next
  case (Cons x xs)
  then show ?case by (cases ys) auto
qed

lemma String_less_view: "view_ok a \<Longrightarrow> view_ok b \<Longrightarrow> String_less a b = Inr (view a < view b)"
proof -
  assume ok: "view_ok a" "view_ok b"
  let ?n = "min (len a) (len b)"
  have "size_arg (min (String_size a) (String_size b)) = ?n"
    using String_size_ok [OF ok(1)] String_size_ok [OF ok(2)] by (auto simp: size_arg_def min_def)
  with ok String_size_ok [OF ok(1)] String_size_ok [OF ok(2)] show ?thesis
    by (simp add: String_less_def memcmp_view cmp_bytes_less cmp_bytes_eq lex_take [of "view a" "view b"])
qed

lemma String_eq_view: "view_ok a \<Longrightarrow> view_ok b \<Longrightarrow> String_eq a b = Inr (view a = view b)"
proof -
  assume ok: "view_ok a" "view_ok b"
  note sz = String_size_ok [OF ok(1)] String_size_ok [OF ok(2)]
  show ?thesis
  proof (cases "len a = len b")
    case True
    have "size_arg (String_size a) = len a" using sz by (simp add: size_arg_def)
    with True sz memcmp_view [OF ok, of "len a"] show ?thesis
      by (simp add: String_eq_def cmp_bytes_eq)
  next
    case False
    with sz have "view a \<noteq> view b" by metis
    with False sz show ?thesis by (simp add: String_eq_def)
  qed
qed

text \<open>
  On sound views the six comparison operators are the lexicographic order
  of the viewed bytes, taken as unsigned, and never fault.
\<close>

theorem String_order:
  assumes "view_ok a" and "view_ok b"
  shows "String_less a b = Inr (view a < view b) \<and> String_le a b = Inr (view a \<le> view b) \<and>
    String_gt a b = Inr (view a > view b) \<and> String_ge a b = Inr (view a \<ge> view b) \<and>
    String_eq a b = Inr (view a = view b) \<and> String_neq a b = Inr (view a \<noteq> view b)"
  using String_less_view [OF assms] String_eq_view [OF assms]
  by (auto simp: String_le_def String_gt_def String_ge_def String_neq_def)

theorem String_order_witness:
  "String_less (String_of_std ''ab'') (String_of_std ''abc'') = Inr True \<and>
   String_ge (String_of_std [CHR 0xFF]) (String_of_std ''z'') = Inr True"
  using String_order [of "String_of_std ''ab''" "String_of_std ''abc''"]
    String_order [of "String_of_std [CHR 0xFF]" "String_of_std ''z''"]
  by (simp add: view_ok_def view_def String_of_std_def less_char_def less_eq_char_def)

end
