(* ===== verification/Time_Stamp.thy ===== *)
theory Time_Stamp
  imports Tundra_String Text_Format
begin

text \<open>
  \<^verbatim>\<open>util/TimeStamp.h\<close> and \<^verbatim>\<open>util/TimeStamp.cpp\<close>: microseconds since the Unix epoch in an
  \<^verbatim>\<open>int64_t\<close>. The value is an integer; every operation that computes a new value checks the
  64-bit range, since a signed overflow is undefined in C++. Division and remainder are the
  truncating ones of C++. A \<^verbatim>\<open>double\<close> of seconds enters the program's state only through its
  sign and its conversion to whole microseconds, and is represented by these two.
  The textual forms are modelled down to \<^verbatim>\<open>snprintf\<close>; the broken-down time of \<^verbatim>\<open>gmtime_r\<close> is
  an argument.
\<close>

section \<open>Machine integers\<close>

definition int64_range :: "int \<Rightarrow> bool" where
  "int64_range x \<longleftrightarrow> - (2 ^ 63) \<le> x \<and> x < 2 ^ 63"

definition int64 :: "int \<Rightarrow> int result" where
  "int64 x = (if int64_range x then Inr x else Inl SignedOverflow)"

definition c_div :: "int \<Rightarrow> int \<Rightarrow> int" where
  "c_div a b = sgn a * sgn b * (\<bar>a\<bar> div \<bar>b\<bar>)"

definition c_mod :: "int \<Rightarrow> int \<Rightarrow> int" where
  "c_mod a b = a - c_div a b * b"

text \<open>The two observations the code makes of a \<^verbatim>\<open>double\<close> number of seconds \<open>d\<close>:
  \<^verbatim>\<open>d > 0.0\<close> and \<^verbatim>\<open>static_cast<int64_t>(d * 1000000)\<close>.\<close>

record seconds =
  positive :: bool
  in_micros :: int

section \<open>The class\<close>

datatype TimeStamp = TimeStamp (microSecondsSinceUnixEpoch: int)

definition kMicroSecondsPerSeconds :: int where
  "kMicroSecondsPerSeconds = 1000 * 1000"

definition valid :: "TimeStamp \<Rightarrow> bool" where
  "valid t \<longleftrightarrow> microSecondsSinceUnixEpoch t > 0"

definition invalid :: TimeStamp where
  "invalid = TimeStamp 0"

definition secondsSinceUnixEpoch :: "TimeStamp \<Rightarrow> int" where
  "secondsSinceUnixEpoch t = c_div (microSecondsSinceUnixEpoch t) kMicroSecondsPerSeconds"

text \<open>\<^verbatim>\<open>operator<\<close> and \<^verbatim>\<open>operator==\<close>. They make time stamps a linear order.\<close>

definition TimeStamp_less :: "TimeStamp \<Rightarrow> TimeStamp \<Rightarrow> bool" where
  "TimeStamp_less lhs rhs \<longleftrightarrow> microSecondsSinceUnixEpoch lhs < microSecondsSinceUnixEpoch rhs"

definition TimeStamp_equal :: "TimeStamp \<Rightarrow> TimeStamp \<Rightarrow> bool" where
  "TimeStamp_equal lhs rhs \<longleftrightarrow> microSecondsSinceUnixEpoch lhs = microSecondsSinceUnixEpoch rhs"

lemma TimeStamp_equal_iff: "TimeStamp_equal lhs rhs \<longleftrightarrow> lhs = rhs"
  by (cases lhs; cases rhs) (simp add: TimeStamp_equal_def)

instantiation TimeStamp :: linorder
begin

definition less_TimeStamp :: "TimeStamp \<Rightarrow> TimeStamp \<Rightarrow> bool" where
  less_TimeStamp_eq: "less_TimeStamp lhs rhs \<longleftrightarrow> TimeStamp_less lhs rhs"

definition less_eq_TimeStamp :: "TimeStamp \<Rightarrow> TimeStamp \<Rightarrow> bool" where
  less_eq_TimeStamp_eq: "less_eq_TimeStamp lhs rhs \<longleftrightarrow> TimeStamp_less lhs rhs \<or> TimeStamp_equal lhs rhs"

instance
  by standard
    (auto simp: less_TimeStamp_eq less_eq_TimeStamp_eq TimeStamp_less_def TimeStamp_equal_def TimeStamp.expand)

end

lemma less_TimeStamp_micros:
  "lhs < rhs \<longleftrightarrow> microSecondsSinceUnixEpoch lhs < microSecondsSinceUnixEpoch rhs"
  by (simp add: less_TimeStamp_eq TimeStamp_less_def)

lemma less_eq_TimeStamp_micros:
  "lhs \<le> rhs \<longleftrightarrow> microSecondsSinceUnixEpoch lhs \<le> microSecondsSinceUnixEpoch rhs"
  by (auto simp: less_eq_TimeStamp_eq TimeStamp_less_def TimeStamp_equal_def)

text \<open>\<^verbatim>\<open>fromUnixTime\<close> multiplies the microseconds into the product.\<close>

definition fromUnixTime :: "int \<Rightarrow> int \<Rightarrow> TimeStamp result" where
  "fromUnixTime t microSeconds =
     bind_r (int64 (t * kMicroSecondsPerSeconds)) (\<lambda>s.
     bind_r (int64 (s * microSeconds)) (\<lambda>us. Inr (TimeStamp us)))"

definition fromUnixTime_s :: "int \<Rightarrow> TimeStamp result" where
  "fromUnixTime_s t = fromUnixTime t 0"

text \<open>\<^verbatim>\<open>now\<close> combines the two fields \<^verbatim>\<open>gettimeofday\<close> delivers.\<close>

definition now_of :: "int \<Rightarrow> int \<Rightarrow> TimeStamp result" where
  "now_of tv_sec tv_usec =
     bind_r (int64 (tv_sec * kMicroSecondsPerSeconds)) (\<lambda>s.
     bind_r (int64 (s + tv_usec)) (\<lambda>us. Inr (TimeStamp us)))"

text \<open>\<^verbatim>\<open>timeDiff\<close> up to its last step, the conversion of the difference to a \<^verbatim>\<open>double\<close>.\<close>

definition timeDiff_micros :: "TimeStamp \<Rightarrow> TimeStamp \<Rightarrow> int result" where
  "timeDiff_micros early late = int64 (microSecondsSinceUnixEpoch late - microSecondsSinceUnixEpoch early)"

definition addTime :: "TimeStamp \<Rightarrow> seconds \<Rightarrow> TimeStamp result" where
  "addTime t s =
     bind_r (int64 (in_micros s)) (\<lambda>delta.
     bind_r (int64 (microSecondsSinceUnixEpoch t + delta)) (\<lambda>us. Inr (TimeStamp us)))"

section \<open>Text\<close>

text \<open>
  \<^verbatim>\<open>toString\<close> formats into a local array and returns a \<^verbatim>\<open>String\<close>, which is a view of that array:
  when the caller gets it the array is gone.
\<close>

definition toString_text :: "TimeStamp \<Rightarrow> string" where
  "toString_text t =
     (let us = microSecondsSinceUnixEpoch t;
          seconds = c_div us kMicroSecondsPerSeconds;
          microseconds = c_mod us kMicroSecondsPerSeconds
      in snprintf 32 (show_int seconds @ ''.'' @ show_int0 6 microseconds))"

definition toString :: "TimeStamp \<Rightarrow> String" where
  "toString t = \<lparr>data = Dangling, len = length (toString_text t)\<rparr>"

record tm =
  tm_year :: int
  tm_mon :: int
  tm_mday :: int
  tm_hour :: int
  tm_min :: int
  tm_sec :: int

definition toFormatString :: "(int \<Rightarrow> tm) \<Rightarrow> bool \<Rightarrow> TimeStamp \<Rightarrow> string" where
  "toFormatString gmtime_r showMicroseconds t =
     (let us = microSecondsSinceUnixEpoch t;
          tt = gmtime_r (c_div us kMicroSecondsPerSeconds);
          date = pad (CHR '' '') 4 (show_int (tm_year tt + 1900)) @ show_int0 2 (tm_mon tt + 1) @
                 show_int0 2 (tm_mday tt) @ '' '' @ show_int0 2 (tm_hour tt) @ '':'' @
                 show_int0 2 (tm_min tt) @ '':'' @ show_int0 2 (tm_sec tt)
      in if showMicroseconds
         then snprintf 64 (date @ ''.'' @ show_int0 6 (c_mod us kMicroSecondsPerSeconds))
         else snprintf 64 date)"

section \<open>Properties\<close>

lemma int64_Inr [simp]: "int64 x = Inr y \<longleftrightarrow> int64_range x \<and> y = x"
  by (auto simp: int64_def)

lemma int64_ok: "int64_range x \<Longrightarrow> int64 x = Inr x"
  by simp

lemma addTime_Inr_iff: "addTime t s = Inr t' \<longleftrightarrow> int64_range (in_micros s) \<and>
    int64_range (microSecondsSinceUnixEpoch t + in_micros s) \<and>
    t' = TimeStamp (microSecondsSinceUnixEpoch t + in_micros s)"
  by (auto simp: addTime_def result_simps)

lemma addTime_later: "addTime t s = Inr t' \<Longrightarrow> 0 < in_micros s \<Longrightarrow> t < t'"
  by (auto simp: addTime_Inr_iff less_TimeStamp_micros)

text \<open>
  Where no 64-bit overflow happens, adding a delay and taking the difference
  to the start gives the delay back, a positive delay gives a later time stamp, and an
  overflow is reported instead of a wrapped value.
\<close>

theorem addTime_timeDiff:
  assumes "int64_range (in_micros s)" and "int64_range (microSecondsSinceUnixEpoch t)"
  shows "case addTime t s of
      Inr t' \<Rightarrow> timeDiff_micros t t' = Inr (in_micros s) \<and> (0 < in_micros s \<longrightarrow> t < t')
    | Inl e \<Rightarrow> e = SignedOverflow \<and> \<not> int64_range (microSecondsSinceUnixEpoch t + in_micros s)"
  using assms addTime_later [of t s]
  by (cases "int64_range (microSecondsSinceUnixEpoch t + in_micros s)")
    (auto simp: addTime_def int64_def timeDiff_micros_def less_TimeStamp_micros)

theorem addTime_timeDiff_witness:
  "\<exists>t'. addTime (TimeStamp 1700000000000000) \<lparr>positive = True, in_micros = 2500000\<rparr> = Inr t' \<and>
    timeDiff_micros (TimeStamp 1700000000000000) t' = Inr 2500000"
  using addTime_timeDiff [of "\<lparr>positive = True, in_micros = 2500000\<rparr>" "TimeStamp 1700000000000000"]
  by (simp add: int64_range_def addTime_def int64_def)

text \<open>
  \<^verbatim>\<open>fromUnixTime(t)\<close> is the epoch, an invalid time stamp, for every \<open>t\<close>: the
  microseconds are a factor of the product, where \<^verbatim>\<open>now()\<close> adds them.
\<close>

theorem fromUnixTime_epoch:
  assumes "int64_range (t * kMicroSecondsPerSeconds)"
  shows "fromUnixTime_s t = Inr invalid \<and> \<not> valid invalid \<and> now_of t 0 = Inr (TimeStamp (t * 1000000))"
  using assms
  by (simp add: fromUnixTime_s_def fromUnixTime_def now_of_def int64_ok invalid_def valid_def
      kMicroSecondsPerSeconds_def int64_range_def)

theorem fromUnixTime_epoch_witness:
  "fromUnixTime_s 1700000000 = Inr invalid \<and> now_of 1700000000 0 = Inr (TimeStamp 1700000000000000)"
  using fromUnixTime_epoch [of 1700000000] by (simp add: int64_range_def kMicroSecondsPerSeconds_def)

lemma dead_text: "to_string (toString t) = Inl UseAfterFree"
proof -
  have "toString_text t \<noteq> []"
    using digits_nonempty by (auto simp: toString_text_def Let_def snprintf_def show_int_def)
  then show ?thesis by (simp add: to_string_def toString_def read_bytes_def deref_def)
qed

text \<open>
  The \<^verbatim>\<open>String\<close> that \<^verbatim>\<open>toString\<close> returns cannot be read: every conversion of it to a
  \<^verbatim>\<open>std::string\<close>, such as the one in \<^verbatim>\<open>readTimerfd\<close>, is an access to a dead array.
\<close>

theorem toString_dangles: "to_string (toString t) = Inl UseAfterFree"
  by (rule dead_text)

end
