(* ===== verification/Log_File.thy ===== *)
theory Log_File
  imports Text_Format Time_Stamp
begin

text \<open>
  \<^verbatim>\<open>util/mmapManager.h\<close>, \<^verbatim>\<open>util/mmapManager.cpp\<close>, \<^verbatim>\<open>base/LogFile.h\<close> and \<^verbatim>\<open>base/LogFile.cpp\<close>: log files
  that are written through shared mappings of fixed size and truncated to their used length
  when they are closed. The disk maps file names to contents, and a mapping is a window on the
  file it was made from. What a log file promises its client is the locale \<open>log_sink\<close>; the
  log file is an interpretation of it for names that differ. The names come from the clock; a
  run of rolls at different milliseconds behaves as one with such names.
\<close>

section \<open>mmapManager\<close>

type_synonym disk = "string \<rightharpoonup> bytes"

text \<open>\<open>mapped\<close> is false when \<^verbatim>\<open>addr_\<close> is \<^verbatim>\<open>MAP_FAILED\<close>.\<close>

record mmapManager =
  fName :: string
  mapped :: bool
  curPos :: int
  mlen :: int

text \<open>
  The constructor truncates the file and extends it to \<^verbatim>\<open>len\<close> zero bytes (one when \<^verbatim>\<open>len\<close> is not
  positive and \<^verbatim>\<open>lseek\<close> fails). Without a file name there
  is no descriptor to map: \<^verbatim>\<open>lseek\<close>, \<^verbatim>\<open>write\<close> and \<^verbatim>\<open>mmap\<close> fail on the descriptor -1, which is only reported.
  \<open>open_ok\<close> and \<open>map_ok\<close> are the outcomes of the system calls.
\<close>

definition new_mmapManager :: "bool \<Rightarrow> bool \<Rightarrow> string \<Rightarrow> int \<Rightarrow> disk \<Rightarrow> (mmapManager \<times> disk) result" where
  "new_mmapManager open_ok map_ok filename bytes_len dsk =
     (if filename \<noteq> [] then
        asserting open_ok
          (Inr (\<lparr>fName = filename, mapped = (map_ok \<and> 0 < bytes_len), curPos = 0, mlen = bytes_len\<rparr>,
            dsk(filename \<mapsto> replicate (max 1 (nat bytes_len)) (CHR 0x00))))
      else Inr (\<lparr>fName = filename, mapped = False, curPos = 0, mlen = bytes_len\<rparr>, dsk))"

definition new_mmapManager_anon :: "int \<Rightarrow> disk \<Rightarrow> (mmapManager \<times> disk) result" where
  "new_mmapManager_anon bytes_len dsk = new_mmapManager True True [] bytes_len dsk"

text \<open>A store through the mapping reaches the file; past the end of the file it is an access fault.\<close>

definition map_write :: "mmapManager \<Rightarrow> bytes \<Rightarrow> disk \<Rightarrow> disk result" where
  "map_write m d dsk =
     (if mapped m then
        case dsk (fName m) of
          Some c \<Rightarrow>
            if nat (curPos m) + length d \<le> length c
            then Inr (dsk(fName m \<mapsto> blit c (nat (curPos m)) d)) else Inl OutOfBounds
        | None \<Rightarrow> Inl OutOfBounds
      else Inl OutOfBounds)"

definition mmap_append :: "bytes \<Rightarrow> mmapManager \<times> disk \<Rightarrow> (mmapManager \<times> disk) result" where
  "mmap_append d s =
     (case s of (m, dsk) \<Rightarrow>
        bind_r (int32 (curPos m + int (length d))) (\<lambda>p.
        asserting (p \<le> mlen m)
          (bind_r (map_write m d dsk) (\<lambda>dsk'. Inr (m\<lparr>curPos := p\<rparr>, dsk')))))"

text \<open>The destructor truncates whatever file bears the name by then.\<close>

definition truncate_file :: "string \<Rightarrow> nat \<Rightarrow> disk \<Rightarrow> disk" where
  "truncate_file name n dsk =
     (case dsk name of None \<Rightarrow> dsk | Some c \<Rightarrow> dsk(name \<mapsto> take n c @ replicate (n - length c) (CHR 0x00)))"

definition destroy_mmapManager :: "mmapManager \<Rightarrow> disk \<Rightarrow> disk" where
  "destroy_mmapManager m dsk = truncate_file (fName m) (nat (curPos m)) dsk"

section \<open>LogFile\<close>

text \<open>
  \<open>disk_of\<close> is the disk the log lives on and \<open>rolls\<close> the number of calls of \<^verbatim>\<open>rollFile\<close> so far. Call
  number \<open>k\<close> uses the name \<open>names k\<close>, which depends on the clock, and the outcomes \<open>sys k\<close> of its
  \<^verbatim>\<open>open\<close> and \<^verbatim>\<open>mmap\<close>. \<open>curMMap\<close> is null until the constructor has rolled to the first file.
\<close>

record LogFile =
  basename :: string
  rollSize :: int
  cur_bytes :: int
  curMMap :: "mmapManager option"
  disk_of :: disk
  rolls :: nat

definition defaultRollSize :: int where
  "defaultRollSize = 128 * 1024 * 1024"

text \<open>The name for a clock reading: \<open>time_text\<close> is what \<^verbatim>\<open>strftime\<close> makes of it.\<close>

definition getLogFileName :: "string \<Rightarrow> int \<Rightarrow> string \<Rightarrow> string" where
  "getLogFileName time_text timestamp base = base @ time_text @ snprintf 4 (show_int (timestamp mod 1000)) @ ''.log''"

text \<open>The roll size is a 64-bit \<^verbatim>\<open>off_t\<close> that the constructor of the mapping takes as an \<^verbatim>\<open>int\<close>.\<close>

definition rollFile :: "(nat \<Rightarrow> string) \<Rightarrow> (nat \<Rightarrow> bool \<times> bool) \<Rightarrow> LogFile \<Rightarrow> LogFile result" where
  "rollFile names sys l =
     (case sys (rolls l) of (open_ok, map_ok) \<Rightarrow>
      bind_r (new_mmapManager open_ok map_ok (names (rolls l)) (sint (word_of_int (rollSize l) :: 32 word)) (disk_of l)) (\<lambda>(nextMap, dsk).
        Inr (l\<lparr>curMMap := Some nextMap,
               disk_of := (case curMMap l of None \<Rightarrow> dsk | Some m \<Rightarrow> destroy_mmapManager m dsk),
               cur_bytes := 0, rolls := Suc (rolls l)\<rparr>)))"

definition new_LogFile :: "(nat \<Rightarrow> string) \<Rightarrow> (nat \<Rightarrow> bool \<times> bool) \<Rightarrow> string \<Rightarrow> int \<Rightarrow> disk \<Rightarrow> LogFile result" where
  "new_LogFile names sys base roll dsk =
     asserting (CHR ''/'' \<notin> set base)
       (rollFile names sys \<lparr>basename = base, rollSize = roll, cur_bytes = 0, curMMap = None, disk_of = dsk, rolls = 0\<rparr>)"

definition append_current :: "bytes \<Rightarrow> LogFile \<Rightarrow> LogFile result" where
  "append_current msg l =
     (case curMMap l of
        None \<Rightarrow> Inl OutOfBounds
      | Some m \<Rightarrow> bind_r (mmap_append msg (m, disk_of l)) (\<lambda>(m', dsk). Inr (l\<lparr>curMMap := Some m', disk_of := dsk\<rparr>)))"

definition log_append :: "(nat \<Rightarrow> string) \<Rightarrow> (nat \<Rightarrow> bool \<times> bool) \<Rightarrow> bytes \<Rightarrow> LogFile \<Rightarrow> LogFile result" where
  "log_append names sys msg l =
     asserting (int (length msg) < rollSize l)
       (bind_r (if cur_bytes l + int (length msg) > rollSize l then rollFile names sys l else Inr l) (\<lambda>l1.
        bind_r (append_current msg l1) (\<lambda>l2.
          Inr (l2\<lparr>cur_bytes := cur_bytes l2 + int (length msg)\<rparr>))))"

section \<open>What a log promises\<close>

text \<open>A sink of bytes: everything written so far is there, in order.\<close>

locale log_sink =
  fixes invar :: "'s \<Rightarrow> bool"
    and written :: "'s \<Rightarrow> bytes"
    and fits :: "bytes \<Rightarrow> 's \<Rightarrow> bool"
    and put :: "bytes \<Rightarrow> 's \<Rightarrow> 's result"
  assumes put_ok: "invar s \<Longrightarrow> fits d s \<Longrightarrow>
      \<exists>s'. put d s = Inr s' \<and> invar s' \<and> written s' = written s @ d \<and> (\<forall>e. fits e s' = fits e s)"
begin

lemma put_all:
  assumes "invar s" and "\<forall>d \<in> set ds. fits d s"
  shows "\<exists>s'. for_r ds put s = Inr s' \<and> invar s' \<and> written s' = written s @ concat ds \<and> (\<forall>e. fits e s' = fits e s)"
  using assms
proof (induction ds arbitrary: s)
  case (Cons d ds)
  then obtain s1 where s1: "put d s = Inr s1" "invar s1" "written s1 = written s @ d" "\<forall>e. fits e s1 = fits e s"
    using put_ok [of s d] by auto
  with Cons.IH [of s1] Cons.prems(2) show ?case by auto
qed simp

end

text \<open>The log of a \<^verbatim>\<open>LogFile\<close>: the files it closed and the used part of the current one.\<close>

definition file_text :: "disk \<Rightarrow> string \<Rightarrow> bytes" where
  "file_text dsk name = (case dsk name of None \<Rightarrow> [] | Some c \<Rightarrow> c)"

definition log_parts :: "(nat \<Rightarrow> string) \<Rightarrow> disk \<Rightarrow> nat \<Rightarrow> nat \<Rightarrow> bytes" where
  "log_parts names dsk k p =
     concat (map (\<lambda>j. file_text dsk (names j)) [0..<k - 1]) @ take p (file_text dsk (names (k - 1)))"

definition log_text :: "(nat \<Rightarrow> string) \<Rightarrow> LogFile \<Rightarrow> bytes" where
  "log_text names l =
     log_parts names (disk_of l) (rolls l) (case curMMap l of None \<Rightarrow> 0 | Some m \<Rightarrow> nat (curPos m))"

definition map_inv :: "string \<Rightarrow> int \<Rightarrow> int \<Rightarrow> disk \<Rightarrow> mmapManager \<Rightarrow> bool" where
  "map_inv name n p dsk m \<longleftrightarrow> fName m = name \<and> mapped m \<and> mlen m = n \<and> curPos m = p \<and> 0 \<le> p \<and> p \<le> n \<and>
     length (file_text dsk name) = nat n \<and> dsk name \<noteq> None"

definition roll_env :: "(nat \<Rightarrow> string) \<Rightarrow> (nat \<Rightarrow> bool \<times> bool) \<Rightarrow> bool" where
  "roll_env names sys \<longleftrightarrow> inj names \<and> (\<forall>k. names k \<noteq> []) \<and> (\<forall>k. sys k = (True, True))"

definition log_inv :: "(nat \<Rightarrow> string) \<Rightarrow> (nat \<Rightarrow> bool \<times> bool) \<Rightarrow> LogFile \<Rightarrow> bool" where
  "log_inv names sys l \<longleftrightarrow> roll_env names sys \<and> 0 < rolls l \<and> 0 < rollSize l \<and> rollSize l < 2 ^ 31 \<and>
     (\<exists>m. curMMap l = Some m \<and> map_inv (names (rolls l - 1)) (rollSize l) (cur_bytes l) (disk_of l) m)"

lemma sint_small: "0 < x \<Longrightarrow> x < 2 ^ 31 \<Longrightarrow> sint (word_of_int x :: 32 word) = x"
  by (simp add: sint_sbintrunc' signed_take_bit_int_eq_self)

lemma closed_cong:
  "(\<And>j. j < n \<Longrightarrow> file_text d' (names j) = file_text d (names j)) \<Longrightarrow>
    concat (map (\<lambda>j. file_text d' (names j)) [0..<n]) = concat (map (\<lambda>j. file_text d (names j)) [0..<n])"
  by (rule arg_cong [where f = concat]) simp

lemma file_text_upd [simp]: "file_text (d(n \<mapsto> c)) m = (if m = n then c else file_text d m)"
  by (simp add: file_text_def)

lemma parts_write:
  assumes "inj names" and "p + length msg \<le> length c" and "file_text d (names (k - 1)) = c"
  shows "log_parts names (d(names (k - 1) \<mapsto> blit c p msg)) k (p + length msg) = log_parts names d k p @ msg"
proof -
  let ?d = "d(names (k - 1) \<mapsto> blit c p msg)"
  have "take (p + length msg) (file_text ?d (names (k - 1))) = take p c @ msg" using assms(2) by (simp add: blit_def)
  moreover have "j < k - 1 \<Longrightarrow> file_text ?d (names j) = file_text d (names j)" for j
    using injD [OF assms(1), of j "k - 1"] by auto
  then have "concat (map (\<lambda>j. file_text ?d (names j)) [0..<k - 1]) = concat (map (\<lambda>j. file_text d (names j)) [0..<k - 1])"
    by (rule closed_cong)
  ultimately show ?thesis unfolding log_parts_def using assms(3) by (simp only: append_assoc)
qed

lemma parts_roll:
  assumes "inj names" and "0 < k" and "file_text d (names (k - 1)) = c"
  shows "log_parts names (d(names k \<mapsto> z, names (k - 1) \<mapsto> take p c)) (Suc k) 0 = log_parts names d k p"
proof -
  let ?d = "d(names k \<mapsto> z, names (k - 1) \<mapsto> take p c)"
  have "[0..<k] = [0..<k - 1] @ [k - 1]" using assms(2) upt_Suc_append [of 0 "k - 1"] by simp
  moreover have "j < k - 1 \<Longrightarrow> file_text ?d (names j) = file_text d (names j)" for j
    using injD [OF assms(1), of j "k - 1"] injD [OF assms(1), of j k] by auto
  then have "concat (map (\<lambda>j. file_text ?d (names j)) [0..<k - 1]) = concat (map (\<lambda>j. file_text d (names j)) [0..<k - 1])"
    by (rule closed_cong)
  moreover have "file_text ?d (names (k - 1)) = take p c" by simp
  ultimately show ?thesis
    unfolding log_parts_def using assms(3) by (simp only: map_append concat_append diff_Suc_1 take_0 append_Nil2 list.map concat.simps)
qed

lemma rollFile_ok:
  assumes inv: "log_inv names sys l"
  shows "\<exists>l'. rollFile names sys l = Inr l' \<and> log_inv names sys l' \<and> log_text names l' = log_text names l \<and>
    rollSize l' = rollSize l \<and> cur_bytes l' = 0"
proof -
  let ?k = "rolls l" and ?old = "names (rolls l - 1)"
  have k: "0 < ?k" "inj names" "0 < rollSize l" "rollSize l < 2 ^ 31" "sys ?k = (True, True)" "names ?k \<noteq> []"
    using inv by (auto simp: log_inv_def roll_env_def)
  obtain m where m: "curMMap l = Some m" "map_inv ?old (rollSize l) (cur_bytes l) (disk_of l) m"
    using inv by (auto simp: log_inv_def)
  let ?p = "nat (curPos m)"
  obtain c where c: "disk_of l ?old = Some c" "file_text (disk_of l) ?old = c" "length c = nat (rollSize l)" "fName m = ?old"
    using m(2) by (auto simp: map_inv_def file_text_def)
  have p: "?p \<le> length c" using m(2) c by (auto simp: map_inv_def)
  have new: "?old \<noteq> names ?k" using injD [OF k(2), of "?k - 1" ?k] k(1) by auto
  have one: "max 1 (nat (rollSize l)) = nat (rollSize l)" using k(3) by simp
  let ?z = "replicate (nat (rollSize l)) (CHR 0x00)"
  let ?l = "l\<lparr>curMMap := Some \<lparr>fName = names ?k, mapped = True, curPos = 0, mlen = rollSize l\<rparr>,
      disk_of := (disk_of l)(names ?k \<mapsto> ?z, ?old \<mapsto> take ?p c), cur_bytes := 0, rolls := Suc ?k\<rparr>"
  have "rollFile names sys l = Inr ?l"
    using k c p new m(1)
    by (simp add: rollFile_def new_mmapManager_def sint_small one destroy_mmapManager_def truncate_file_def)
  moreover have "log_inv names sys ?l" using inv new k by (auto simp: log_inv_def map_inv_def)
  moreover have "log_text names ?l = log_text names l"
    using parts_roll [OF k(2,1) c(2), of ?z ?p] m(1) by (simp add: log_text_def)
  ultimately show ?thesis by auto
qed

lemma append_current_ok:
  assumes inv: "log_inv names sys l" and room: "cur_bytes l + int (length msg) \<le> rollSize l"
  shows "\<exists>l'. append_current msg l = Inr l' \<and> cur_bytes l' = cur_bytes l \<and> rollSize l' = rollSize l \<and>
    log_inv names sys (l'\<lparr>cur_bytes := cur_bytes l + int (length msg)\<rparr>) \<and> log_text names l' = log_text names l @ msg"
proof -
  let ?n = "names (rolls l - 1)" and ?q = "cur_bytes l + int (length msg)"
  obtain m where m: "curMMap l = Some m" "map_inv ?n (rollSize l) (cur_bytes l) (disk_of l) m"
    using inv by (auto simp: log_inv_def)
  let ?p = "nat (curPos m)"
  obtain c where c: "disk_of l ?n = Some c" "file_text (disk_of l) ?n = c" "length c = nat (rollSize l)"
    using m(2) by (auto simp: map_inv_def file_text_def)
  have k: "inj names" "rollSize l < 2 ^ 31" using inv by (auto simp: log_inv_def roll_env_def)
  have p: "?p + length msg \<le> length c" "curPos m = cur_bytes l" "0 \<le> cur_bytes l"
      "fName m = ?n" "mapped m" "mlen m = rollSize l"
    using m(2) c room by (auto simp: map_inv_def)
  let ?l = "l\<lparr>curMMap := Some (m\<lparr>curPos := ?q\<rparr>), disk_of := (disk_of l)(?n \<mapsto> blit c ?p msg)\<rparr>"
  have run: "append_current msg l = Inr ?l"
    using k c p room m(1) by (simp add: append_current_def mmap_append_def map_write_def int32_def)
  have "length (blit c ?p msg) = length c" using p(1) by (simp add: blit_def)
  then have inv': "log_inv names sys (?l\<lparr>cur_bytes := ?q\<rparr>)" using inv c room p by (auto simp: log_inv_def map_inv_def)
  have "nat ?q = ?p + length msg" using p by (simp add: nat_add_distrib)
  then have "log_text names ?l = log_text names l @ msg"
    using parts_write [OF k(1) p(1) c(2)] m(1) by (simp add: log_text_def)
  with run inv' show ?thesis by auto
qed

lemma log_text_cur_bytes [simp]: "log_text names (l\<lparr>cur_bytes := n\<rparr>) = log_text names l"
  by (simp add: log_text_def)

lemma log_append_ok:
  assumes inv: "log_inv names sys l" and msg: "int (length msg) < rollSize l"
  shows "\<exists>l'. log_append names sys msg l = Inr l' \<and> log_inv names sys l' \<and> log_text names l' = log_text names l @ msg \<and>
    rollSize l' = rollSize l"
proof -
  obtain l1 where l1: "(if cur_bytes l + int (length msg) > rollSize l then rollFile names sys l else Inr l) = Inr l1"
      "log_inv names sys l1" "log_text names l1 = log_text names l" "rollSize l1 = rollSize l"
      "cur_bytes l1 + int (length msg) \<le> rollSize l1"
    using rollFile_ok [OF inv] inv msg by (cases "cur_bytes l + int (length msg) > rollSize l") auto
  obtain l2 where l2: "append_current msg l1 = Inr l2" "cur_bytes l2 = cur_bytes l1" "rollSize l2 = rollSize l1"
      "log_inv names sys (l2\<lparr>cur_bytes := cur_bytes l1 + int (length msg)\<rparr>)" "log_text names l2 = log_text names l1 @ msg"
    using append_current_ok [OF l1(2,5)] by blast
  have "log_append names sys msg l = Inr (l2\<lparr>cur_bytes := cur_bytes l1 + int (length msg)\<rparr>)"
    using msg l1(1) l2(1,2) by (simp add: log_append_def)
  with l1 l2 show ?thesis by simp
qed

interpretation lf: log_sink "log_inv names sys" "log_text names" "\<lambda>d l. int (length d) < rollSize l" "log_append names sys"
  for names sys
  using log_append_ok by unfold_locales metis

lemma new_LogFile_ok:
  assumes "roll_env names sys" and "0 < roll" and "roll < 2 ^ 31" and "CHR ''/'' \<notin> set base"
  shows "\<exists>l. new_LogFile names sys base roll dsk = Inr l \<and> log_inv names sys l \<and> log_text names l = [] \<and> rollSize l = roll"
  using assms
  by (auto simp: new_LogFile_def rollFile_def new_mmapManager_def sint_small log_inv_def map_inv_def roll_env_def
      log_text_def log_parts_def)

text \<open>
  The names come from the clock. \<open>clock k\<close> is what roll number \<open>k\<close> reads: the text of \<^verbatim>\<open>strftime\<close>, which its format makes
  seventeen characters long, and the milliseconds. The first \<open>n\<close> names differ if no two of the first \<open>n\<close> rolls read the same second
  and millisecond.
\<close>

definition clock_names :: "(nat \<Rightarrow> string \<times> int) \<Rightarrow> string \<Rightarrow> nat \<Rightarrow> string" where
  "clock_names clock base k = getLogFileName (fst (clock k)) (snd (clock k)) base"

definition clock_ok :: "nat \<Rightarrow> (nat \<Rightarrow> string \<times> int) \<Rightarrow> bool" where
  "clock_ok n clock \<longleftrightarrow> (\<forall>k < n. length (fst (clock k)) = 17) \<and> inj_on (\<lambda>k. (fst (clock k), snd (clock k) mod 1000)) {..<n}"

text \<open>
  A run uses finitely many names. It is the run with names that differ for ever, those of \<open>fresh_names\<close>, which agree with the
  clock's as far as the run goes.
\<close>

definition fresh_names :: "nat \<Rightarrow> (nat \<Rightarrow> string) \<Rightarrow> nat \<Rightarrow> string" where
  "fresh_names n names k = (if k < n then names k else replicate (Suc (k + (\<Sum>j<n. length (names j)))) (CHR ''x''))"

lemma millis_text: "snprintf 4 (show_int (t mod 1000)) = digits (nat (t mod 1000))"
proof -
  have "nat (t mod 1000) < 10 ^ 3" by simp
  then have "length (digits (nat (t mod 1000))) \<le> 3" by (rule length_digits) simp
  then show ?thesis by (simp add: snprintf_def show_int_def)
qed

lemma clock_names_inj:
  assumes "clock_ok n clock"
  shows "inj_on (clock_names clock base) {..<n}"
proof (rule inj_onI)
  fix j k assume jk: "j \<in> {..<n}" "k \<in> {..<n}" and eq: "clock_names clock base j = clock_names clock base k"
  have "fst (clock j) @ digits (nat (snd (clock j) mod 1000)) = fst (clock k) @ digits (nat (snd (clock k) mod 1000))"
    using eq by (simp add: clock_names_def getLogFileName_def millis_text)
  moreover have "length (fst (clock j)) = length (fst (clock k))" using assms jk by (simp add: clock_ok_def)
  ultimately have "fst (clock j) = fst (clock k)" "digits (nat (snd (clock j) mod 1000)) = digits (nat (snd (clock k) mod 1000))"
    by simp_all
  then have "(fst (clock j), snd (clock j) mod 1000) = (fst (clock k), snd (clock k) mod 1000)"
    using digits_inj [of "nat (snd (clock j) mod 1000)" "nat (snd (clock k) mod 1000)"] by simp
  then show "j = k" using assms jk by (auto simp: clock_ok_def dest: inj_onD)
qed

lemma fresh_names_env:
  assumes "clock_ok n clock" and "\<forall>k. sys k = (True, True)"
  shows "roll_env (fresh_names n (clock_names clock base)) sys"
proof -
  let ?N = "clock_names clock base" and ?F = "fresh_names n (clock_names clock base)"
  have short: "length (?F j) \<le> (\<Sum>i<n. length (?N i))" if "j < n" for j
    using that member_le_sum [of j "{..<n}" "\<lambda>i. length (?N i)"] by (simp add: fresh_names_def)
  have long: "length (?F j) = Suc (j + (\<Sum>i<n. length (?N i)))" if "\<not> j < n" for j
    using that by (simp add: fresh_names_def)
  have "j = k" if eq: "?F j = ?F k" for j k
  proof -
    have l: "length (?F j) = length (?F k)" using eq by simp
    consider "j < n" "k < n" | "j < n" "\<not> k < n" | "\<not> j < n" "k < n" | "\<not> j < n" "\<not> k < n" by blast
    then show ?thesis
    proof cases
      case 1
      with eq clock_names_inj [OF assms(1)] show ?thesis by (auto simp: fresh_names_def dest: inj_onD)
    next
      case 2
      with l short [of j] long [of k] show ?thesis by simp
    next
      case 3
      with l short [of k] long [of j] show ?thesis by simp
    next
      case 4
      with l long [of j] long [of k] show ?thesis by simp
    qed
  qed
  moreover have "?F k \<noteq> []" for k by (simp add: fresh_names_def clock_names_def getLogFileName_def)
  ultimately show ?thesis using assms(2) by (auto simp: roll_env_def inj_def)
qed

text \<open>What a log does with the names of the rolls it makes.\<close>

lemma rollFile_cong: "names (rolls l) = names' (rolls l) \<Longrightarrow> rollFile names sys l = rollFile names' sys l"
  by (simp add: rollFile_def)

lemma log_append_rolls:
  assumes "log_append names sys d l = Inr l'"
  shows "rolls l \<le> rolls l' \<and> rolls l' \<le> Suc (rolls l)"
    and "(\<And>k. k < rolls l' \<Longrightarrow> names k = names' k) \<Longrightarrow> log_append names' sys d l = Inr l'"
proof -
  let ?roll = "cur_bytes l + int (length d) > rollSize l"
  obtain l1 l2 where l1: "(if ?roll then rollFile names sys l else Inr l) = Inr l1" "append_current d l1 = Inr l2"
      "l' = l2\<lparr>cur_bytes := cur_bytes l2 + int (length d)\<rparr>" "int (length d) < rollSize l"
    using assms unfolding log_append_def asserting_Inr_iff bind_r_Inr_iff by auto
  have r1: "rolls l1 = (if ?roll then Suc (rolls l) else rolls l)"
    using l1(1) by (auto simp: rollFile_def result_simps split: if_splits prod.splits)
  have r2: "rolls l' = rolls l1"
    using l1(2,3) by (auto simp: append_current_def result_simps split: option.splits)
  show "rolls l \<le> rolls l' \<and> rolls l' \<le> Suc (rolls l)" using r1 r2 by simp
  assume same: "\<And>k. k < rolls l' \<Longrightarrow> names k = names' k"
  have "?roll \<Longrightarrow> names (rolls l) = names' (rolls l)" using same r1 r2 by simp
  then have "(if ?roll then rollFile names' sys l else Inr l) = Inr l1" using l1(1) rollFile_cong [of names l names' sys] by (cases ?roll) simp_all
  with l1(2-4) show "log_append names' sys d l = Inr l'" by (simp add: log_append_def)
qed

lemma log_text_cong:
  assumes "\<And>k. k < n \<Longrightarrow> names k = names' k" and "0 < rolls l" and "rolls l \<le> n"
  shows "log_text names l = log_text names' l"
proof -
  have "map (\<lambda>j. file_text (disk_of l) (names j)) [0..<rolls l - 1] = map (\<lambda>j. file_text (disk_of l) (names' j)) [0..<rolls l - 1]"
    using assms by auto
  moreover have "names (rolls l - 1) = names' (rolls l - 1)" using assms by simp
  ultimately show ?thesis unfolding log_text_def log_parts_def by (simp only:)
qed

lemma appends_cong:
  assumes "\<And>k. k < n \<Longrightarrow> names k = names' k" and "for_r ds (log_append names sys) l = Inr l'" and "rolls l + length ds \<le> n"
  shows "for_r ds (log_append names' sys) l = Inr l' \<and> rolls l' \<le> n"
  using assms(2,3)
proof (induction ds arbitrary: l)
  case (Cons d ds)
  obtain l1 where l1: "log_append names sys d l = Inr l1" "for_r ds (log_append names sys) l1 = Inr l'"
    using Cons.prems(1) by (cases "log_append names sys d l") auto
  note r = log_append_rolls(1) [OF l1(1)]
  then have "log_append names' sys d l = Inr l1" using Cons.prems(2) assms(1) by (intro log_append_rolls(2) [OF l1(1)]) simp
  with Cons.IH [OF l1(2)] r Cons.prems(2) show ?case by simp
qed simp

lemma too_long_asserts:
  assumes "\<And>k. k < n \<Longrightarrow> names k = names' k" and "log_inv names sys l" and "rolls l + length ds \<le> n"
    and "\<not> (\<forall>d \<in> set ds. int (length d) < rollSize l)"
  shows "for_r ds (log_append names' sys) l = Inl AssertFail"
  using assms(2-4)
proof (induction ds arbitrary: l)
  case (Cons d ds)
  show ?case
  proof (cases "int (length d) < rollSize l")
    case True
    then obtain l' where l': "log_append names sys d l = Inr l'" "log_inv names sys l'" "rollSize l' = rollSize l"
      using log_append_ok [OF Cons.prems(1)] by blast
    note r = log_append_rolls(1) [OF l'(1)]
    then have "log_append names' sys d l = Inr l'" using Cons.prems(2) assms(1) by (intro log_append_rolls(2) [OF l'(1)]) simp
    with Cons.IH [of l'] Cons.prems(2,3) True l' r show ?thesis by simp
  qed (simp add: log_append_def)
qed simp

lemma new_LogFile_rolls:
  assumes "new_LogFile names sys base roll dsk = Inr l"
  shows "rolls l = 1" and "names 0 = names' 0 \<Longrightarrow> new_LogFile names' sys base roll dsk = Inr l"
  using assms by (auto simp: new_LogFile_def rollFile_def result_simps asserting_def split: if_splits prod.splits)

section \<open>Properties\<close>


text \<open>A clock that reads the next millisecond at every roll.\<close>

definition sample_clock :: "nat \<Rightarrow> string \<times> int" where
  "sample_clock k = (''-20230302-101112-'', int k)"

lemma sample_clock_ok: "n \<le> 1000 \<Longrightarrow> clock_ok n sample_clock"
  by (auto simp: clock_ok_def sample_clock_def inj_on_def)


text \<open>
  Two rolls that get the same name, as two rolls within a millisecond of the clock do: the second one empties
  the file of the first, whose destructor then cuts the new file to the old position, so that the messages of the first
  file are gone and the next store beyond that position is an access fault.
\<close>

theorem same_name_loses_log:
  assumes l: "new_LogFile (\<lambda>k. name) (\<lambda>k. (True, True)) base roll dsk = Inr l" and name: "name \<noteq> []"
    and roll: "0 < roll" "roll < 2 ^ 31" and fits: "int (length a) < roll" "int (length b) < roll"
    and over: "int (length a) + int (length b) > roll" and longer: "length a < length b"
  shows "log_append (\<lambda>k. name) (\<lambda>k. (True, True)) a l \<noteq> Inl OutOfBounds \<and>
    bind_r (log_append (\<lambda>k. name) (\<lambda>k. (True, True)) a l) (log_append (\<lambda>k. name) (\<lambda>k. (True, True)) b) = Inl OutOfBounds \<and>
    bind_r (log_append (\<lambda>k. name) (\<lambda>k. (True, True)) a l) (\<lambda>l1. bind_r (rollFile (\<lambda>k. name) (\<lambda>k. (True, True)) l1) (\<lambda>l2.
      Inr (disk_of l2 name))) = Inr (Some (replicate (length a) (CHR 0x00)))"
proof -
  have max: "max 1 (nat roll) = nat roll" using roll by simp
  have l': "l = \<lparr>basename = base, rollSize = roll, cur_bytes = 0,
      curMMap = Some \<lparr>fName = name, mapped = True, curPos = 0, mlen = roll\<rparr>,
      disk_of = dsk(name \<mapsto> replicate (nat roll) (CHR 0x00)), rolls = 1\<rparr>"
    using l name roll by (auto simp: new_LogFile_def rollFile_def new_mmapManager_def sint_small max asserting_def split: if_splits)
  have a: "length a \<le> nat roll" using fits by simp
  define l1 where "l1 = \<lparr>basename = base, rollSize = roll, cur_bytes = int (length a),
      curMMap = Some \<lparr>fName = name, mapped = True, curPos = int (length a), mlen = roll\<rparr>,
      disk_of = dsk(name \<mapsto> blit (replicate (nat roll) (CHR 0x00)) 0 a), rolls = 1\<rparr>"
  have 1: "log_append (\<lambda>k. name) (\<lambda>k. (True, True)) a l = Inr l1"
    using fits roll a
    by (simp add: l' l1_def log_append_def append_current_def mmap_append_def map_write_def int32_def)
  have cut: "min (length a) (nat roll) = length a" using a by simp
  define l2 where "l2 = l1\<lparr>cur_bytes := 0, curMMap := Some \<lparr>fName = name, mapped = True, curPos = 0, mlen = roll\<rparr>,
      disk_of := dsk(name \<mapsto> replicate (length a) (CHR 0x00)), rolls := 2\<rparr>"
  have 2: "rollFile (\<lambda>k. name) (\<lambda>k. (True, True)) l1 = Inr l2"
    using name roll a cut
    by (simp add: l1_def l2_def rollFile_def new_mmapManager_def sint_small max destroy_mmapManager_def truncate_file_def)
  have 3: "log_append (\<lambda>k. name) (\<lambda>k. (True, True)) b l1 = Inl OutOfBounds"
  proof -
    have "append_current b l2 = Inl OutOfBounds"
      using roll fits longer by (simp add: l2_def append_current_def mmap_append_def map_write_def int32_def)
    moreover have "cur_bytes l1 + int (length b) > rollSize l1" "int (length b) < rollSize l1"
      using over fits by (simp_all add: l1_def)
    ultimately show ?thesis using 2 by (simp add: log_append_def)
  qed
  have "disk_of l2 name = Some (replicate (length a) (CHR 0x00))" by (simp add: l2_def)
  with 1 2 3 show ?thesis by simp
qed

theorem same_name_loses_log_witness:
  "bind_r (new_LogFile (\<lambda>k. ''x'') (\<lambda>k. (True, True)) ''log'' 8 Map.empty)
     (\<lambda>l. bind_r (log_append (\<lambda>k. ''x'') (\<lambda>k. (True, True)) ''abc'' l) (log_append (\<lambda>k. ''x'') (\<lambda>k. (True, True)) ''1234567''))
   = Inl OutOfBounds"
proof -
  obtain l where l: "new_LogFile (\<lambda>k. ''x'') (\<lambda>k. (True, True)) ''log'' 8 Map.empty = Inr l"
    by (simp add: new_LogFile_def rollFile_def new_mmapManager_def)
  from same_name_loses_log [OF l, of "''abc''" "''1234567''"] l show ?thesis by simp
qed

end
