(* ===== verification/Sync.thy ===== *)
theory Sync
  imports Tundra_Prelude
begin

text \<open>
  \<^verbatim>\<open>util/CountDownLatch.h\<close>, \<^verbatim>\<open>util/CountDownLatch.cpp\<close> and \<^verbatim>\<open>util/BlockingQueue.h\<close>: the blocking
  data structures, as step relations of threads that contend for one mutex. A step is what a thread
  does between two points where it holds the mutex; a thread that waits on a condition variable
  sleeps until it is notified, or wakes up for no reason, and then tests its predicate again. The
  locale \<open>invariant_system\<close> is the induction over the runs of such a relation, which the other
  concurrent components use too.
\<close>

section \<open>Invariants of step relations\<close>

locale invariant_system =
  fixes step :: "'s \<Rightarrow> 's \<Rightarrow> bool" and inv :: "'s \<Rightarrow> bool"
  assumes keeps: "inv s \<Longrightarrow> step s t \<Longrightarrow> inv t"
begin

lemma run_keeps: "step\<^sup>*\<^sup>* s t \<Longrightarrow> inv s \<Longrightarrow> inv t"
  by (induction rule: rtranclp_induct) (auto intro: keeps)

lemma run_fact:
  assumes "step\<^sup>*\<^sup>* s t" and "inv s" and "\<And>u. inv u \<Longrightarrow> P u"
  shows "P t"
  using run_keeps assms by blast

end

section \<open>CountDownLatch\<close>

text \<open>
  \<open>sleeping\<close> are the threads blocked in \<^verbatim>\<open>cond_.wait\<close>, \<open>testing\<close> those about to test the predicate
  with the mutex held, \<open>passed\<close> those whose \<^verbatim>\<open>wait\<close> has returned. \<open>downs\<close> counts the calls of \<^verbatim>\<open>countDown\<close>.
\<close>

record CountDownLatch =
  latch_count :: int
  testing :: "nat set"
  sleeping :: "nat set"
  passed :: "nat set"
  downs :: nat

definition new_CountDownLatch :: "int \<Rightarrow> CountDownLatch" where
  "new_CountDownLatch n = \<lparr>latch_count = n, testing = {}, sleeping = {}, passed = {}, downs = 0\<rparr>"

definition latch_test :: "nat \<Rightarrow> CountDownLatch \<Rightarrow> CountDownLatch" where
  "latch_test t l =
     (if latch_count l \<le> 0
      then l\<lparr>testing := testing l - {t}, passed := insert t (passed l)\<rparr>
      else l\<lparr>testing := testing l - {t}, sleeping := insert t (sleeping l)\<rparr>)"

definition latch_wait :: "nat \<Rightarrow> CountDownLatch \<Rightarrow> CountDownLatch" where
  "latch_wait t l = l\<lparr>testing := insert t (testing l)\<rparr>"

definition countDown :: "CountDownLatch \<Rightarrow> CountDownLatch result" where
  "countDown l =
     bind_r (int32 (latch_count l - 1)) (\<lambda>n.
       let l1 = l\<lparr>latch_count := n, downs := Suc (downs l)\<rparr>
       in Inr (if n = 0 then l1\<lparr>testing := testing l \<union> sleeping l, sleeping := {}\<rparr> else l1))"

inductive latch_step :: "CountDownLatch \<Rightarrow> CountDownLatch \<Rightarrow> bool" where
  call_wait: "t \<notin> sleeping l \<Longrightarrow> latch_step l (latch_wait t l)"
| test: "t \<in> testing l \<Longrightarrow> latch_step l (latch_test t l)"
| spurious: "t \<in> sleeping l \<Longrightarrow> latch_step l (l\<lparr>sleeping := sleeping l - {t}, testing := insert t (testing l)\<rparr>)"
| count_down: "countDown l = Inr l' \<Longrightarrow> latch_step l l'"

definition latch_inv :: "int \<Rightarrow> CountDownLatch \<Rightarrow> bool" where
  "latch_inv n l \<longleftrightarrow> latch_count l = n - int (downs l) \<and> (sleeping l = {} \<or> 0 < latch_count l) \<and>
     (passed l = {} \<or> latch_count l \<le> 0)"

lemma countDown_inv: "latch_inv n l \<Longrightarrow> countDown l = Inr l' \<Longrightarrow> latch_inv n l'"
  by (auto simp: latch_inv_def countDown_def int32_def Let_def split: if_splits)

interpretation latch: invariant_system latch_step "latch_inv n" for n
proof
  fix l l'
  assume "latch_inv n l" and "latch_step l l'"
  from this(2,1) show "latch_inv n l'"
  proof cases
    case count_down
    with \<open>latch_inv n l\<close> show ?thesis by (blast intro: countDown_inv)
  qed (auto simp: latch_inv_def latch_wait_def latch_test_def)
qed

text \<open>
  C29 (safety). On every run of a latch made for \<open>n\<close> calls, a \<^verbatim>\<open>wait\<close> has returned only if \<open>n\<close> calls of \<^verbatim>\<open>countDown\<close> were made,
  and no thread sleeps once they were: no wakeup is lost, however waits, wakeups and countdowns interleave.
\<close>

theorem latch_no_lost_wakeup:
  assumes "latch_step\<^sup>*\<^sup>* (new_CountDownLatch n) l"
  shows "(passed l \<noteq> {} \<longrightarrow> n \<le> int (downs l)) \<and> (n \<le> int (downs l) \<longrightarrow> sleeping l = {})"
  using assms by (rule latch.run_fact [where n = n]) (auto simp: latch_inv_def new_CountDownLatch_def)

theorem latch_no_lost_wakeup_witness:
  "\<exists>l. latch_step\<^sup>*\<^sup>* (new_CountDownLatch 1) l \<and> passed l = {7} \<and> 1 \<le> int (downs l) \<and> sleeping l = {}"
proof -
  let ?a = "latch_wait 7 (new_CountDownLatch 1)"
  let ?b = "latch_test 7 ?a"
  let ?c = "\<lparr>latch_count = 0, testing = {7}, sleeping = {}, passed = {}, downs = 1\<rparr>"
  have "latch_step (new_CountDownLatch 1) ?a" by (rule call_wait) (simp add: new_CountDownLatch_def)
  moreover have "latch_step ?a ?b" by (rule test) (simp add: latch_wait_def)
  moreover have "latch_step ?b ?c"
    by (rule count_down)
      (simp add: countDown_def int32_def latch_wait_def latch_test_def new_CountDownLatch_def)
  moreover have "latch_step ?c (latch_test 7 ?c)" by (rule test) simp
  ultimately have run: "latch_step\<^sup>*\<^sup>* (new_CountDownLatch 1) (latch_test 7 ?c)"
    by (meson converse_rtranclp_into_rtranclp rtranclp.rtrancl_refl)
  moreover have "passed (latch_test 7 ?c) = {7}" by (simp add: latch_test_def)
  ultimately show ?thesis using latch_no_lost_wakeup [OF run] by auto
qed

section \<open>BlockingQueue\<close>

text \<open>
  Each thread is outside the queue, about to test the predicate of \<^verbatim>\<open>push\<close> or \<^verbatim>\<open>take\<close>, or asleep on one of the
  condition variables. \<open>pushed\<close> and \<open>taken\<close> record what went in and what came out.
\<close>

datatype 'a bq_status = Outside | Pushing 'a | FullWait 'a | Taking | EmptyWait

record 'a BlockingQueue =
  queue :: "'a list"
  bq_capacity :: nat
  status :: "nat \<Rightarrow> 'a bq_status"
  pushed :: "'a list"
  taken :: "'a list"

definition new_BlockingQueue :: "nat \<Rightarrow> 'a BlockingQueue" where
  "new_BlockingQueue maxCapacity =
     \<lparr>queue = [], bq_capacity = maxCapacity, status = (\<lambda>t. Outside), pushed = [], taken = []\<rparr>"

definition notify_empty :: "(nat \<Rightarrow> 'a bq_status) \<Rightarrow> nat \<Rightarrow> 'a bq_status" where
  "notify_empty st t = (case st t of EmptyWait \<Rightarrow> Taking | s \<Rightarrow> s)"

definition notify_full :: "(nat \<Rightarrow> 'a bq_status) \<Rightarrow> nat \<Rightarrow> 'a bq_status" where
  "notify_full st t = (case st t of FullWait x \<Rightarrow> Pushing x | s \<Rightarrow> s)"

definition push :: "nat \<Rightarrow> 'a \<Rightarrow> 'a BlockingQueue \<Rightarrow> 'a BlockingQueue result" where
  "push t x q =
     (if length (queue q) < bq_capacity q
      then asserting (length (queue q) < bq_capacity q)
        (Inr (q\<lparr>queue := queue q @ [x], status := (notify_empty (status q))(t := Outside), pushed := pushed q @ [x]\<rparr>))
      else Inr (q\<lparr>status := (status q)(t := FullWait x)\<rparr>))"

definition take_front :: "nat \<Rightarrow> 'a BlockingQueue \<Rightarrow> 'a BlockingQueue result" where
  "take_front t q =
     (if queue q \<noteq> []
      then asserting (queue q \<noteq> [])
        (Inr (q\<lparr>queue := tl (queue q), status := (notify_full (status q))(t := Outside), taken := taken q @ [hd (queue q)]\<rparr>))
      else Inr (q\<lparr>status := (status q)(t := EmptyWait)\<rparr>))"

definition bq_full :: "'a BlockingQueue \<Rightarrow> bool" where
  "bq_full q \<longleftrightarrow> bq_capacity q \<le> length (queue q)"

definition bq_empty :: "'a BlockingQueue \<Rightarrow> bool" where
  "bq_empty q \<longleftrightarrow> queue q = []"

definition bq_size :: "'a BlockingQueue \<Rightarrow> nat" where
  "bq_size q = length (queue q)"

inductive bq_step :: "'a BlockingQueue \<Rightarrow> 'a BlockingQueue \<Rightarrow> bool" where
  call_push: "status q t = Outside \<Longrightarrow> bq_step q (q\<lparr>status := (status q)(t := Pushing x)\<rparr>)"
| call_take: "status q t = Outside \<Longrightarrow> bq_step q (q\<lparr>status := (status q)(t := Taking)\<rparr>)"
| do_push: "status q t = Pushing x \<Longrightarrow> push t x q = Inr q' \<Longrightarrow> bq_step q q'"
| do_take: "status q t = Taking \<Longrightarrow> take_front t q = Inr q' \<Longrightarrow> bq_step q q'"
| spurious_full: "status q t = FullWait x \<Longrightarrow> bq_step q (q\<lparr>status := (status q)(t := Pushing x)\<rparr>)"
| spurious_empty: "status q t = EmptyWait \<Longrightarrow> bq_step q (q\<lparr>status := (status q)(t := Taking)\<rparr>)"

definition bq_inv :: "nat \<Rightarrow> 'a BlockingQueue \<Rightarrow> bool" where
  "bq_inv n q \<longleftrightarrow> bq_capacity q = n \<and> length (queue q) \<le> n \<and> pushed q = taken q @ queue q \<and>
     (\<forall>t x. status q t = FullWait x \<longrightarrow> bq_full q) \<and> (\<forall>t. status q t = EmptyWait \<longrightarrow> bq_empty q)"

lemma notify_simps [simp]:
  "notify_empty st t \<noteq> EmptyWait"
  "notify_empty st t = FullWait x \<longleftrightarrow> st t = FullWait x"
  "notify_full st t \<noteq> FullWait x"
  "notify_full st t = EmptyWait \<longleftrightarrow> st t = EmptyWait"
  by (auto simp: notify_empty_def notify_full_def split: bq_status.splits)

lemma push_inv:
  assumes "bq_inv n q" and "push t x q = Inr q'"
  shows "bq_inv n q'"
  using assms by (auto simp: bq_inv_def push_def bq_full_def bq_empty_def split: if_splits)

lemma take_inv:
  assumes "bq_inv n q" and "take_front t q = Inr q'"
  shows "bq_inv n q'"
  using assms by (cases "queue q") (auto simp: bq_inv_def take_front_def bq_full_def bq_empty_def split: if_splits)

interpretation bqs: invariant_system bq_step "bq_inv n" for n
proof
  fix q q' :: "'a BlockingQueue"
  assume "bq_inv n q" and "bq_step q q'"
  from this(2,1) show "bq_inv n q'"
  proof cases
    case do_push
    with \<open>bq_inv n q\<close> show ?thesis by (blast intro: push_inv)
  next
    case do_take
    with \<open>bq_inv n q\<close> show ?thesis by (blast intro: take_inv)
  qed (auto simp: bq_inv_def bq_full_def bq_empty_def)
qed

text \<open>
  C23 (invariant). On every run of a \<^verbatim>\<open>BlockingQueue\<close> the queue stays within its capacity, the elements come out in the order
  they went in, each once, and nobody sleeps without cause: a thread asleep in \<^verbatim>\<open>push\<close> has a full queue before it, one asleep
  in \<^verbatim>\<open>take\<close> an empty one; so threads never sleep on both sides when the capacity is positive.
\<close>

theorem blocking_queue_fifo:
  assumes "bq_step\<^sup>*\<^sup>* (new_BlockingQueue n) q"
  shows "bq_size q \<le> n \<and> pushed q = taken q @ queue q \<and>
    ((\<exists>t x. status q t = FullWait x) \<longrightarrow> bq_full q) \<and> ((\<exists>t. status q t = EmptyWait) \<longrightarrow> bq_empty q) \<and>
    (0 < n \<longrightarrow> \<not> ((\<exists>t x. status q t = FullWait x) \<and> (\<exists>t. status q t = EmptyWait)))"
  using assms
  by (rule bqs.run_fact [where n = n])
    (auto simp: bq_inv_def new_BlockingQueue_def bq_size_def bq_full_def bq_empty_def)

theorem blocking_queue_fifo_witness:
  "\<exists>q. bq_step\<^sup>*\<^sup>* (new_BlockingQueue 1) q \<and> pushed q = taken q @ queue q \<and> taken q = [CHR ''x''] \<and>
    status q 2 = Outside \<and> bq_size q \<le> 1"
proof -
  let ?q = "new_BlockingQueue 1 :: char BlockingQueue"
  let ?a = "?q\<lparr>status := (status ?q)(2 := Taking)\<rparr>"
  let ?b = "?a\<lparr>status := (status ?a)(2 := EmptyWait)\<rparr>"
  let ?c = "?b\<lparr>status := (status ?b)(1 := Pushing (CHR ''x''))\<rparr>"
  let ?d = "?c\<lparr>queue := [CHR ''x''], status := (notify_empty (status ?c))(1 := Outside), pushed := [CHR ''x'']\<rparr>"
  let ?e = "?d\<lparr>queue := [], status := (notify_full (status ?d))(2 := Outside), taken := [CHR ''x'']\<rparr>"
  have "bq_step ?q ?a" by (rule call_take) (simp add: new_BlockingQueue_def)
  moreover have "bq_step ?a ?b" by (rule do_take [where t = 2]) (simp_all add: take_front_def new_BlockingQueue_def)
  moreover have "bq_step ?b ?c" by (rule call_push) (simp add: new_BlockingQueue_def)
  moreover have "bq_step ?c ?d" by (rule do_push [where t = 1]) (simp_all add: push_def new_BlockingQueue_def)
  moreover have "bq_step ?d ?e"
    by (rule do_take [where t = 2]) (simp_all add: take_front_def notify_empty_def new_BlockingQueue_def)
  ultimately have run: "bq_step\<^sup>*\<^sup>* ?q ?e" by (meson converse_rtranclp_into_rtranclp rtranclp.rtrancl_refl)
  then show ?thesis using blocking_queue_fifo [OF run] by (intro exI [of _ ?e]) auto
qed

end
