(* ===== verification/Async_Logger.thy ===== *)
theory Async_Logger
  imports Log_Level Log_File Sync "HOL-Library.Word"
begin

text \<open>
  \<^verbatim>\<open>base/AsyncLogger.h\<close>, \<^verbatim>\<open>base/AsyncLogger.cpp\<close> and \<^verbatim>\<open>base/Logging.cpp\<close>: the logger. Front-end threads
  append lines to a current buffer; one background thread takes the full buffers, writes them to the log file and
  gives them back. The background thread is a step relation interleaved with the front end; its
  file is the sink \<open>lf\<close> of \<open>Log_File\<close>.
\<close>

section \<open>FixedBuffer\<close>

text \<open>
  \<open>contents\<close> are the bytes \<^verbatim>\<open>[data_, cur_)\<close>; the rest of the \<open>fb_capacity\<close> bytes is zero, since the
  constructor and \<^verbatim>\<open>clear\<close> zero the memory and \<^verbatim>\<open>append\<close> only writes at \<^verbatim>\<open>cur_\<close>.
\<close>

record FixedBuffer =
  fb_capacity :: nat
  contents :: bytes

definition new_FixedBuffer :: "nat \<Rightarrow> FixedBuffer" where
  "new_FixedBuffer n = \<lparr>fb_capacity = n, contents = []\<rparr>"

definition fb_size :: "FixedBuffer \<Rightarrow> nat" where
  "fb_size b = length (contents b)"

definition fb_avail :: "FixedBuffer \<Rightarrow> nat" where
  "fb_avail b = fb_capacity b - fb_size b"

definition fb_append :: "bytes \<Rightarrow> FixedBuffer \<Rightarrow> FixedBuffer" where
  "fb_append d b = (if fb_avail b > length d then b\<lparr>contents := contents b @ d\<rparr> else b)"

definition fb_clear :: "FixedBuffer \<Rightarrow> FixedBuffer" where
  "fb_clear b = b\<lparr>contents := []\<rparr>"

section \<open>AsyncLogger, front end\<close>

definition blockSize :: nat where "blockSize = 4 * 1024 * 1024"
definition initialBufferCounts :: nat where "initialBufferCounts = 15"
definition maxBufferCounts :: nat where "maxBufferCounts = 16"

text \<open>\<open>notified\<close> counts the notifications of the condition variable.\<close>

record AsyncLogger =
  al_basename :: string
  al_rollSize :: int
  flushInterval :: int
  stop_flag :: bool
  currentBuffer :: FixedBuffer
  emptyBuffers :: "FixedBuffer list"
  fullBuffers :: "FixedBuffer list"
  curBufferCounts :: int
  logLevel :: Level
  notified :: nat

definition new_AsyncLogger :: "string \<Rightarrow> int \<Rightarrow> int \<Rightarrow> AsyncLogger" where
  "new_AsyncLogger base roll interval =
     \<lparr>al_basename = base, al_rollSize = roll, flushInterval = interval, stop_flag = True,
      currentBuffer = new_FixedBuffer blockSize,
      emptyBuffers = replicate (initialBufferCounts - 1) (new_FixedBuffer blockSize), fullBuffers = [],
      curBufferCounts = int initialBufferCounts, logLevel = DEBUG, notified = 0\<rparr>"

definition updateCurBuffer :: "AsyncLogger \<Rightarrow> AsyncLogger" where
  "updateCurBuffer a =
     (let a1 = a\<lparr>fullBuffers := fullBuffers a @ [currentBuffer a]\<rparr>
      in case emptyBuffers a of
           b # bs \<Rightarrow> a1\<lparr>currentBuffer := b, emptyBuffers := bs\<rparr>
         | [] \<Rightarrow> a1\<lparr>currentBuffer := new_FixedBuffer blockSize, curBufferCounts := curBufferCounts a + 1\<rparr>)"

text \<open>
  \<open>time_text\<close> is the formatted current time and \<open>logline\<close> the character array, of which the text up to the first NUL is used.
  \<^verbatim>\<open>len\<close> is compared with the unsigned \<^verbatim>\<open>avail()\<close>, so it is converted to 64 bits.
\<close>

definition c_string :: "bytes \<Rightarrow> bytes" where
  "c_string s = takeWhile (\<lambda>c. c \<noteq> CHR 0x00) s"

definition log_line :: "string \<Rightarrow> string \<Rightarrow> bytes \<Rightarrow> bytes" where
  "log_line time_text level_name logline = time_text @ '' '' @ level_name @ '' '' @ c_string logline @ [CHR 0x0A]"

definition store_line :: "bytes \<Rightarrow> int \<Rightarrow> AsyncLogger \<Rightarrow> AsyncLogger" where
  "store_line line n a =
     (if int (fb_avail (currentBuffer a)) < uint (word_of_int n :: 64 word) then
        (let a1 = updateCurBuffer a;
             a2 = a1\<lparr>currentBuffer := fb_append line (currentBuffer a1)\<rparr>
         in if int (length (fullBuffers a2)) > curBufferCounts a2 div 2
            then a2\<lparr>notified := Suc (notified a2)\<rparr> else a2)
      else a\<lparr>currentBuffer := fb_append line (currentBuffer a)\<rparr>)"

definition al_append :: "string \<Rightarrow> bytes \<Rightarrow> int \<Rightarrow> Level \<Rightarrow> AsyncLogger \<Rightarrow> AsyncLogger result" where
  "al_append time_text logline n level a =
     bind_r (level_text level) (\<lambda>nm. Inr (store_line (log_line time_text nm logline) n a))"

definition al_append_string :: "string \<Rightarrow> string \<Rightarrow> Level \<Rightarrow> AsyncLogger \<Rightarrow> AsyncLogger result" where
  "al_append_string time_text msg level a =
     al_append time_text msg (sint (word_of_int (int (length msg)) :: 32 word)) level a"

definition log_at :: "Level \<Rightarrow> string \<Rightarrow> string \<Rightarrow> AsyncLogger \<Rightarrow> AsyncLogger result" where
  "log_at level time_text msg a =
     (if logLevel a \<le> level then al_append_string time_text msg level a else Inr a)"

definition log_trace :: "string \<Rightarrow> string \<Rightarrow> AsyncLogger \<Rightarrow> AsyncLogger result" where "log_trace = log_at TRACE"
definition log_debug :: "string \<Rightarrow> string \<Rightarrow> AsyncLogger \<Rightarrow> AsyncLogger result" where "log_debug = log_at DEBUG"
definition log_info :: "string \<Rightarrow> string \<Rightarrow> AsyncLogger \<Rightarrow> AsyncLogger result" where "log_info = log_at INFO"
definition log_warn :: "string \<Rightarrow> string \<Rightarrow> AsyncLogger \<Rightarrow> AsyncLogger result" where "log_warn = log_at WARN"
definition log_error :: "string \<Rightarrow> string \<Rightarrow> AsyncLogger \<Rightarrow> AsyncLogger result" where "log_error = log_at ERROR"
definition log_fatal :: "string \<Rightarrow> string \<Rightarrow> AsyncLogger \<Rightarrow> AsyncLogger result" where "log_fatal = log_at FATAL"

definition setLevel :: "Level \<Rightarrow> AsyncLogger \<Rightarrow> AsyncLogger" where
  "setLevel level a = a\<lparr>logLevel := level\<rparr>"

definition al_start :: "AsyncLogger \<Rightarrow> AsyncLogger" where
  "al_start a = a\<lparr>stop_flag := False\<rparr>"

definition al_stop :: "AsyncLogger \<Rightarrow> AsyncLogger" where
  "al_stop a = a\<lparr>stop_flag := True, notified := Suc (notified a)\<rparr>"

definition destroy_AsyncLogger :: "AsyncLogger \<Rightarrow> AsyncLogger" where
  "destroy_AsyncLogger a = (if \<not> stop_flag a then al_stop a else a)"

section \<open>AsyncLogger, background thread\<close>

text \<open>
  The positions of \<^verbatim>\<open>run\<close>: before it has opened the file, at the loop condition, waiting on the condition
  variable with the mutex released, holding the buffers it took, writing those that are left, giving back the ones
  it wrote, and after the loop.
\<close>

datatype run_pc = Starting | LoopTop | Waiting | Collected | Writing "FixedBuffer list" | GivingBack | Ended

record run_state =
  front :: AsyncLogger
  pc :: run_pc
  buffersToWrite :: "FixedBuffer list"
  log_file :: "LogFile option"

text \<open>The mutex is held: take the full buffers, or the current one when there is none.\<close>

definition collect :: "run_state \<Rightarrow> run_state" where
  "collect r =
     (let a = (if fullBuffers (front r) = [] then updateCurBuffer (front r) else front r)
      in r\<lparr>front := a\<lparr>fullBuffers := []\<rparr>, buffersToWrite := fullBuffers a, pc := Collected\<rparr>)"

text \<open>
  The notice of dropped messages is printed into an uninitialised array \<open>junk\<close> of 256 bytes, all of which are written to the log.
\<close>

definition drop_notice :: "bytes \<Rightarrow> string \<Rightarrow> nat \<Rightarrow> bytes" where
  "drop_notice junk time_text n =
     blit junk 0 (snprintf 256 (''Dropped log message at '' @ time_text @ '', '' @ show_int (int n) @ '' buffers'' @ [CHR 0x0A]) @ [CHR 0x00])"

definition erase_at :: "nat \<Rightarrow> 'a list \<Rightarrow> 'a list" where
  "erase_at i xs = take i xs @ drop (Suc i) xs"

definition to_file :: "(nat \<Rightarrow> string) \<Rightarrow> (nat \<Rightarrow> bool \<times> bool) \<Rightarrow> bytes \<Rightarrow> run_state \<Rightarrow> run_state result" where
  "to_file names sys d r =
     (case log_file r of
        None \<Rightarrow> Inl OutOfBounds
      | Some f \<Rightarrow> bind_r (log_append names sys d f) (\<lambda>f'. Inr (r\<lparr>log_file := Some f'\<rparr>)))"

definition begin_write :: "(nat \<Rightarrow> string) \<Rightarrow> (nat \<Rightarrow> bool \<times> bool) \<Rightarrow> bytes \<Rightarrow> string \<Rightarrow> run_state \<Rightarrow> run_state result" where
  "begin_write names sys junk time_text r =
     asserting (buffersToWrite r \<noteq> [])
       (bind_r (if length (buffersToWrite r) > maxBufferCounts - 1
                then to_file names sys (drop_notice junk time_text (length (buffersToWrite r) + 1))
                       (r\<lparr>buffersToWrite := erase_at (maxBufferCounts - 1) (buffersToWrite r)\<rparr>)
                else Inr r) (\<lambda>r1.
          Inr (r1\<lparr>pc := Writing (buffersToWrite r1), buffersToWrite := []\<rparr>)))"

text \<open>
  One round of the writing loop. The buffers already written, and cleared, are collected again in \<open>buffersToWrite\<close>.
\<close>

definition write_one :: "(nat \<Rightarrow> string) \<Rightarrow> (nat \<Rightarrow> bool \<times> bool) \<Rightarrow> run_state \<Rightarrow> run_state result" where
  "write_one names sys r =
     (case pc r of
        Writing (b # bs) \<Rightarrow>
          bind_r (to_file names sys (contents b) r) (\<lambda>r1.
            Inr (r1\<lparr>pc := Writing bs, buffersToWrite := buffersToWrite r1 @ [fb_clear b]\<rparr>))
      | _ \<Rightarrow> Inr (r\<lparr>pc := GivingBack\<rparr>))"

fun give_each :: "FixedBuffer list \<Rightarrow> FixedBuffer list \<Rightarrow> FixedBuffer list" where
  "give_each [] es = es"
| "give_each (b # bs) es = give_each bs (b # es)"

definition give_back :: "run_state \<Rightarrow> run_state" where
  "give_back r = r\<lparr>front := (front r)\<lparr>emptyBuffers := give_each (buffersToWrite r) (emptyBuffers (front r))\<rparr>,
                   buffersToWrite := [], pc := LoopTop\<rparr>"

definition run_begin :: "(nat \<Rightarrow> string) \<Rightarrow> (nat \<Rightarrow> bool \<times> bool) \<Rightarrow> disk \<Rightarrow> run_state \<Rightarrow> run_state result" where
  "run_begin names sys dsk r =
     asserting (\<not> stop_flag (front r))
       (bind_r (new_LogFile names sys (al_basename (front r)) (al_rollSize (front r)) dsk) (\<lambda>f.
          Inr (r\<lparr>log_file := Some f, pc := LoopTop\<rparr>)))"

text \<open>At the loop condition, and then at the test before the wait.\<close>

definition run_top :: "run_state \<Rightarrow> run_state result" where
  "run_top r =
     (if stop_flag (front r) then Inr (r\<lparr>pc := Ended\<rparr>)
      else asserting (buffersToWrite r = [])
        (Inr (if fullBuffers (front r) = [] then r\<lparr>pc := Waiting\<rparr> else collect r)))"

text \<open>The next step of the background thread.\<close>

definition run_step ::
  "(nat \<Rightarrow> string) \<Rightarrow> (nat \<Rightarrow> bool \<times> bool) \<Rightarrow> disk \<Rightarrow> bytes \<Rightarrow> string \<Rightarrow> run_state \<Rightarrow> run_state result" where
  "run_step names sys dsk junk time_text r =
     (case pc r of
        Starting \<Rightarrow> run_begin names sys dsk r
      | LoopTop \<Rightarrow> run_top r
      | Waiting \<Rightarrow> Inr (collect r)
      | Collected \<Rightarrow> begin_write names sys junk time_text r
      | Writing bs \<Rightarrow> write_one names sys r
      | GivingBack \<Rightarrow> Inr (give_back r)
      | Ended \<Rightarrow> Inr r)"

section \<open>Logging\<close>

text \<open>The process-wide logger and its configuration, which is used when the logger is first asked for.\<close>

record Logging =
  lg_basename :: string
  lg_rollSize :: int
  lg_flushInterval :: int
  log_instance :: "AsyncLogger option"

definition initial_Logging :: Logging where
  "initial_Logging = \<lparr>lg_basename = ''default_log'', lg_rollSize = defaultRollSize, lg_flushInterval = 3, log_instance = None\<rparr>"

definition instance_of :: "Logging \<Rightarrow> AsyncLogger \<times> Logging" where
  "instance_of g =
     (case log_instance g of
        Some a \<Rightarrow> (a, g)
      | None \<Rightarrow> (let a = new_AsyncLogger (lg_basename g) (lg_rollSize g) (lg_flushInterval g)
                in (a, g\<lparr>log_instance := Some a\<rparr>)))"

definition InitLoggingConfig :: "string \<Rightarrow> int \<Rightarrow> int \<Rightarrow> Logging \<Rightarrow> Logging" where
  "InitLoggingConfig base roll interval g =
     snd (instance_of (g\<lparr>lg_basename := base, lg_rollSize := roll, lg_flushInterval := interval\<rparr>))"

section \<open>The front end keeps its text\<close>

text \<open>
  Every buffer is a block, the empty ones are empty, and the counter accounts for the buffers there are, \<open>n\<close> of which the
  background thread holds.
\<close>

definition buffer_ok :: "FixedBuffer \<Rightarrow> bool" where
  "buffer_ok b \<longleftrightarrow> fb_capacity b = blockSize \<and> fb_size b < blockSize"

definition front_inv :: "nat \<Rightarrow> AsyncLogger \<Rightarrow> bool" where
  "front_inv n a \<longleftrightarrow> buffer_ok (currentBuffer a) \<and> (\<forall>b \<in> set (fullBuffers a). buffer_ok b) \<and>
     (\<forall>b \<in> set (emptyBuffers a). b = new_FixedBuffer blockSize) \<and>
     curBufferCounts a = int (1 + length (emptyBuffers a) + length (fullBuffers a) + n)"

definition buffers_text :: "FixedBuffer list \<Rightarrow> bytes" where
  "buffers_text bs = concat (map contents bs)"

definition front_text :: "AsyncLogger \<Rightarrow> bytes" where
  "front_text a = buffers_text (fullBuffers a) @ contents (currentBuffer a)"

text \<open>Whether a line of the length \<open>n\<close>, called with \<^verbatim>\<open>len\<close> = \<open>k\<close>, is kept.\<close>

definition line_kept :: "nat \<Rightarrow> int \<Rightarrow> AsyncLogger \<Rightarrow> bool" where
  "line_kept n k a \<longleftrightarrow>
     (if int (fb_avail (currentBuffer a)) < uint (word_of_int k :: 64 word) then n < blockSize
      else n < fb_avail (currentBuffer a))"

lemma buffers_text_simps [simp]:
  "buffers_text [] = []"
  "buffers_text (b # bs) = contents b @ buffers_text bs"
  "buffers_text (bs @ cs) = buffers_text bs @ buffers_text cs"
  by (simp_all add: buffers_text_def)

lemma new_buffer_ok [simp]: "buffer_ok (new_FixedBuffer blockSize)" "contents (new_FixedBuffer n) = []"
  by (simp_all add: buffer_ok_def new_FixedBuffer_def fb_size_def blockSize_def)

lemma fb_append_ok: "buffer_ok b \<Longrightarrow> buffer_ok (fb_append d b)"
  by (auto simp: buffer_ok_def fb_append_def fb_avail_def fb_size_def)

lemma fb_append_contents: "contents (fb_append d b) = contents b @ (if length d < fb_avail b then d else [])"
  by (simp add: fb_append_def)

lemma updateCurBuffer_ok:
  assumes "front_inv n a"
  shows "front_inv n (updateCurBuffer a)"
    and "fullBuffers (updateCurBuffer a) = fullBuffers a @ [currentBuffer a]"
    and "currentBuffer (updateCurBuffer a) = new_FixedBuffer blockSize"
    and "stop_flag (updateCurBuffer a) = stop_flag a"
    and "al_rollSize (updateCurBuffer a) = al_rollSize a"
    and "al_basename (updateCurBuffer a) = al_basename a"
  using assms by (cases "emptyBuffers a"; auto simp: front_inv_def updateCurBuffer_def)+

lemma front_inv_append: "front_inv n a \<Longrightarrow> front_inv n (a\<lparr>currentBuffer := fb_append d (currentBuffer a)\<rparr>)"
  by (auto simp: front_inv_def fb_append_ok)

lemma front_inv_notified [simp]: "front_inv n (a\<lparr>notified := k\<rparr>) = front_inv n a"
  by (simp add: front_inv_def)

lemma store_line_ok:
  assumes inv: "front_inv n a"
  shows "front_inv n (store_line line k a) \<and>
    front_text (store_line line k a) = front_text a @ (if line_kept (length line) k a then line else []) \<and>
    stop_flag (store_line line k a) = stop_flag a \<and> al_rollSize (store_line line k a) = al_rollSize a \<and>
    al_basename (store_line line k a) = al_basename a"
proof (cases "int (fb_avail (currentBuffer a)) < uint (word_of_int k :: 64 word)")
  case True
  let ?u = "updateCurBuffer a"
  have "fb_avail (new_FixedBuffer blockSize) = blockSize" by (simp add: fb_avail_def fb_size_def new_FixedBuffer_def)
  with True inv show ?thesis
    using front_inv_append [OF updateCurBuffer_ok(1) [OF inv], of line]
    by (simp add: store_line_def Let_def updateCurBuffer_ok [OF inv] front_text_def fb_append_contents line_kept_def)
next
  case False
  with inv show ?thesis
    using front_inv_append [OF inv, of line]
    by (simp add: store_line_def front_text_def fb_append_contents line_kept_def)
qed

text \<open>
  C28 (functional). \<^verbatim>\<open>AsyncLogger::append\<close> on buffers in order adds the formatted line at the end of the logged text, or
  drops it without a trace: the room is tested for the length of the bare message, so that a line whose time, level and
  newline do not fit behind it is lost although the buffer could have been changed. No buffer
  is overrun and no earlier text is disturbed; the level \<^verbatim>\<open>LEVEL_COUNT\<close> reads past the table of names.
\<close>

theorem al_append_line:
  assumes "front_inv n a"
  shows "case al_append time_text logline k level a of
      Inl e \<Rightarrow> e = OutOfBounds \<and> level = LEVEL_COUNT
    | Inr a' \<Rightarrow> level \<noteq> LEVEL_COUNT \<and> front_inv n a' \<and>
        front_text a' = front_text a @
          (let line = log_line time_text (levelName ! level_num level) logline
           in if line_kept (length line) k a then line else [])"
  using store_line_ok [OF assms]
  by (cases level) (simp_all add: al_append_def level_text_def levelName_def Let_def)

definition almost_full :: AsyncLogger where
  "almost_full = (new_AsyncLogger ''log'' defaultRollSize 3)\<lparr>currentBuffer :=
     \<lparr>fb_capacity = blockSize, contents = replicate (blockSize - 10) (CHR ''x'')\<rparr>\<rparr>"

theorem al_append_line_witness:
  "front_inv 0 almost_full \<and> fb_avail (currentBuffer almost_full) = 10 \<and>
    (\<exists>a'. al_append ''t'' ''hello'' 5 INFO almost_full = Inr a' \<and> front_text a' = front_text almost_full)"
proof -
  have inv: "front_inv 0 almost_full"
    by (simp add: almost_full_def front_inv_def new_AsyncLogger_def buffer_ok_def fb_size_def blockSize_def
        initialBufferCounts_def)
  have av: "fb_avail (currentBuffer almost_full) = 10"
    by (simp add: almost_full_def fb_avail_def fb_size_def blockSize_def)
  from al_append_line [OF inv, where time_text = "''t''" and logline = "''hello''" and k = 5 and level = INFO] inv av show ?thesis
    by (simp add: al_append_def level_text_def levelName_def Let_def log_line_def c_string_def line_kept_def)
qed

section \<open>The background thread writes it\<close>

text \<open>
  The whole logger: front-end calls and steps of the background thread in any order. \<^verbatim>\<open>stop\<close> is called by the thread that
  called \<^verbatim>\<open>start\<close>, which returns after the background thread has begun. The history variables are the text of the lines that were
  kept, and the number of rounds that found so many full buffers that they dropped one.
\<close>

record log_history =
  kept_text :: bytes
  drops :: nat

definition drop_round :: "run_state \<Rightarrow> bool" where
  "drop_round r \<longleftrightarrow> pc r = Collected \<and> maxBufferCounts \<le> length (buffersToWrite r)"

definition count_drop :: "run_state \<Rightarrow> log_history \<Rightarrow> log_history" where
  "count_drop r g = (if drop_round r then g\<lparr>drops := Suc (drops g)\<rparr> else g)"

inductive al_step ::
  "(nat \<Rightarrow> string) \<Rightarrow> (nat \<Rightarrow> bool \<times> bool) \<Rightarrow> disk \<Rightarrow> run_state \<times> log_history \<Rightarrow> run_state \<times> log_history \<Rightarrow> bool"
  for names sys dsk where
  call_append: "al_append time_text logline k level (front r) = Inr a \<Longrightarrow>
     line = log_line time_text (levelName ! level_num level) logline \<Longrightarrow>
     al_step names sys dsk (r, g) (r\<lparr>front := a\<rparr>,
       g\<lparr>kept_text := kept_text g @ (if line_kept (length line) k (front r) then line else [])\<rparr>)"
| call_setLevel: "al_step names sys dsk (r, g) (r\<lparr>front := setLevel level (front r)\<rparr>, g)"
| call_stop: "pc r \<noteq> Starting \<Longrightarrow> al_step names sys dsk (r, g) (r\<lparr>front := al_stop (front r)\<rparr>, g)"
| background: "length junk = 256 \<Longrightarrow> run_step names sys dsk junk time_text r = Inr r' \<Longrightarrow>
     al_step names sys dsk (r, g) (r', count_drop r g)"

definition started_logger :: "string \<Rightarrow> int \<Rightarrow> int \<Rightarrow> run_state" where
  "started_logger base roll interval =
     \<lparr>front = al_start (new_AsyncLogger base roll interval), pc = Starting, buffersToWrite = [], log_file = None\<rparr>"

definition no_history :: log_history where
  "no_history = \<lparr>kept_text = [], drops = 0\<rparr>"

text \<open>What the background thread has taken and not written, and the buffers it holds.\<close>

definition pending :: "run_state \<Rightarrow> FixedBuffer list" where
  "pending r = (case pc r of Collected \<Rightarrow> buffersToWrite r | Writing bs \<Rightarrow> bs | _ \<Rightarrow> [])"

definition held :: "run_state \<Rightarrow> nat" where
  "held r = length (buffersToWrite r) + (case pc r of Writing bs \<Rightarrow> length bs | _ \<Rightarrow> 0)"

definition logged :: "(nat \<Rightarrow> string) \<Rightarrow> run_state \<Rightarrow> bytes" where
  "logged names r = (case log_file r of None \<Rightarrow> [] | Some f \<Rightarrow> log_text names f)"

definition rolls_of :: "run_state \<Rightarrow> nat" where
  "rolls_of r = (case log_file r of None \<Rightarrow> 0 | Some f \<Rightarrow> rolls f)"

subsection \<open>What is logged of what was kept\<close>

text \<open>
  A log as a sequence of segments: text that was kept and is shown, the text of a buffer that was dropped, and the notice of a
  drop, which nobody logged.
\<close>

datatype segment = is_Kept: Kept bytes | is_Dropped: Dropped bytes | is_Notice: Notice bytes

fun shown_of :: "segment \<Rightarrow> bytes" where
  "shown_of (Kept d) = d"
| "shown_of (Dropped d) = []"
| "shown_of (Notice d) = d"

fun kept_of :: "segment \<Rightarrow> bytes" where
  "kept_of (Kept d) = d"
| "kept_of (Dropped d) = d"
| "kept_of (Notice d) = []"

definition shown :: "segment list \<Rightarrow> bytes" where
  "shown S = concat (map shown_of S)"

definition original :: "segment list \<Rightarrow> bytes" where
  "original S = concat (map kept_of S)"

definition segments_ok :: "nat \<Rightarrow> segment list \<Rightarrow> bool" where
  "segments_ok n S \<longleftrightarrow> length (filter is_Dropped S) = n \<and> length (filter is_Notice S) = n \<and>
     (\<forall>d. Dropped d \<in> set S \<longrightarrow> length d < blockSize) \<and> (\<forall>d. Notice d \<in> set S \<longrightarrow> length d = 256)"

lemma segments_simps [simp]:
  "shown [] = []" "shown (x # S) = shown_of x @ shown S" "shown (S @ T) = shown S @ shown T"
  "original [] = []" "original (x # S) = kept_of x @ original S" "original (S @ T) = original S @ original T"
  "shown (map Kept ds) = concat ds" "original (map Kept ds) = concat ds"
  by (simp_all add: shown_def original_def comp_def)

lemma segments_ok_cons:
  "segments_ok n (S @ map Kept ds) \<longleftrightarrow> segments_ok n S"
  "segments_ok n (S @ P @ map Kept ds) \<longleftrightarrow> segments_ok n (S @ P)"
  by (auto simp: segments_ok_def filter_empty_conv)

lemma no_drops:
  assumes "segments_ok 0 S"
  shows "shown S = original S"
proof -
  have kept: "is_Kept x" if "x \<in> set S" for x using assms that by (cases x) (auto simp: segments_ok_def filter_empty_conv)
  have "shown_of x = kept_of x" if "x \<in> set S" for x using kept [OF that] by (cases x) auto
  then show ?thesis by (simp add: shown_def original_def cong: map_cong)
qed

text \<open>
  \<open>files\<close> is what is in the log files and \<open>parts\<close> what the background thread is still going to write; \<open>w\<close> says that it is writing,
  so that a dropped buffer may lie between the parts. \<open>orig\<close> is the text that was taken from the front end.
\<close>

definition parts_of :: "segment list \<Rightarrow> bytes list" where
  "parts_of P = map kept_of (filter is_Kept P)"

definition accounts :: "bytes \<Rightarrow> bytes list \<Rightarrow> bytes \<Rightarrow> bool \<Rightarrow> nat \<Rightarrow> bool" where
  "accounts files parts orig w n \<longleftrightarrow> (\<exists>S P. shown S = files \<and> original (S @ P) = orig \<and> segments_ok n (S @ P) \<and>
     (\<forall>x \<in> set P. \<not> is_Notice x) \<and> parts_of P = parts \<and> (\<not> w \<longrightarrow> P = map Kept parts))"

lemma parts_of_simps [simp]:
  "parts_of [] = []" "parts_of (map Kept ds) = ds" "parts_of (S @ T) = parts_of S @ parts_of T"
  "parts_of (Kept d # S) = d # parts_of S" "parts_of (Dropped d # S) = parts_of S"
  by (induction ds) (simp_all add: parts_of_def)

lemma parts_of_Cons:
  "parts_of P = d # ds \<Longrightarrow> \<exists>Q R. P = Q @ Kept d # R \<and> parts_of Q = [] \<and> parts_of R = ds"
proof (induction P)
  case (Cons x P)
  show ?case
  proof (cases x)
    case (Kept e)
    with Cons.prems show ?thesis by (intro exI [of _ "[]"] exI [of _ P]) (simp add: parts_of_def)
  next
    case (Dropped e)
    with Cons obtain Q R where "P = Q @ Kept d # R" "parts_of Q = []" "parts_of R = ds" by auto
    with Dropped show ?thesis by (intro exI [of _ "x # Q"] exI [of _ R]) simp
  next
    case (Notice e)
    with Cons obtain Q R where "P = Q @ Kept d # R" "parts_of Q = []" "parts_of R = ds" by (auto simp: parts_of_def)
    with Notice show ?thesis by (intro exI [of _ "x # Q"] exI [of _ R]) (simp add: parts_of_def)
  qed
qed simp

lemma no_parts: "parts_of Q = [] \<Longrightarrow> \<forall>x \<in> set Q. \<not> is_Notice x \<Longrightarrow> shown Q = []"
proof (induction Q)
  case (Cons x Q)
  then show ?case by (cases x) (auto simp: parts_of_def)
qed simp

lemma accounts_start: "accounts [] [] [] False 0"
  unfolding accounts_def by (intro exI [of _ "[]"]) (simp add: segments_ok_def)

lemma accounts_take: "accounts files [] orig False n \<Longrightarrow> accounts files parts (orig @ concat parts) False n"
  unfolding accounts_def
  by (elim exE conjE, rule_tac x = S in exI, rule_tac x = "map Kept parts" in exI) (auto simp: segments_ok_cons)

lemma accounts_writing: "accounts files parts orig False n \<Longrightarrow> accounts files parts orig True n"
  unfolding accounts_def by blast

lemma accounts_drop:
  assumes "accounts files (xs @ d # ys) orig False n" and "length d < blockSize" and "length note = 256"
  shows "accounts (files @ note) (xs @ ys) orig True (Suc n)"
proof -
  obtain S where S: "shown S = files" "original S @ concat (xs @ d # ys) = orig" "segments_ok n S"
    using assms(1) segments_ok_cons(1) [of n _ "xs @ d # ys"] by (auto simp: accounts_def)
  have k: "filter is_Dropped (map Kept ds) = []" "filter is_Notice (map Kept ds) = []" for ds by (auto simp: filter_empty_conv)
  have "segments_ok (Suc n) ((S @ [Notice note]) @ map Kept xs @ Dropped d # map Kept ys)"
    using S(3) assms(2,3) k by (auto simp: segments_ok_def)
  with S show ?thesis unfolding accounts_def
    by (intro exI [of _ "S @ [Notice note]"] exI [of _ "map Kept xs @ Dropped d # map Kept ys"]) auto
qed

lemma accounts_write:
  assumes "accounts files (d # ds) orig True n"
  shows "accounts (files @ d) ds orig True n"
proof -
  obtain S P where P: "shown S = files" "original (S @ P) = orig" "segments_ok n (S @ P)" "\<forall>x \<in> set P. \<not> is_Notice x"
      "parts_of P = d # ds"
    using assms by (auto simp: accounts_def)
  obtain Q R where QR: "P = Q @ Kept d # R" "parts_of Q = []" "parts_of R = ds" using parts_of_Cons [OF P(5)] by blast
  have "shown Q = []" using no_parts [OF QR(2)] P(4) QR(1) by simp
  with P QR show ?thesis unfolding accounts_def
    by (intro exI [of _ "S @ Q @ [Kept d]"] exI [of _ R]) auto
qed

lemma accounts_written:
  assumes "accounts files [] orig True n"
  shows "accounts files [] orig False n"
proof -
  obtain S P where P: "shown S = files" "original (S @ P) = orig" "segments_ok n (S @ P)" "\<forall>x \<in> set P. \<not> is_Notice x" "parts_of P = []"
    using assms by (auto simp: accounts_def)
  with no_parts [OF P(5,4)] show ?thesis unfolding accounts_def
    by (intro exI [of _ "S @ P"] exI [of _ "[]"]) auto
qed

lemma shown_parts: "\<forall>x \<in> set P. \<not> is_Notice x \<Longrightarrow> shown P = concat (parts_of P)"
proof (induction P)
  case (Cons x P)
  then show ?case by (cases x) simp_all
qed simp

lemma accounts_result:
  assumes "accounts files parts orig w n"
  shows "\<exists>S. shown S = files @ concat parts @ d \<and> original S = orig @ d \<and> segments_ok n S"
proof -
  obtain S P where P: "shown S = files" "original (S @ P) = orig" "segments_ok n (S @ P)" "\<forall>x \<in> set P. \<not> is_Notice x" "parts_of P = parts"
    using assms by (auto simp: accounts_def)
  with shown_parts [OF P(4)] segments_ok_cons(1) [of n "S @ P" "[d]"] show ?thesis
    by (intro exI [of _ "(S @ P) @ map Kept [d]"]) auto
qed

subsection \<open>The invariant\<close>

definition pc_inv :: "run_state \<Rightarrow> bool" where
  "pc_inv r =
     (case pc r of
        Starting \<Rightarrow> buffersToWrite r = [] \<and> \<not> stop_flag (front r)
      | Collected \<Rightarrow> buffersToWrite r \<noteq> []
      | Writing bs \<Rightarrow> (\<forall>b \<in> set (buffersToWrite r). b = new_FixedBuffer blockSize)
      | GivingBack \<Rightarrow> (\<forall>b \<in> set (buffersToWrite r). b = new_FixedBuffer blockSize)
      | _ \<Rightarrow> buffersToWrite r = [])"

definition takes :: "int \<Rightarrow> LogFile \<Rightarrow> bool" where
  "takes n f \<longleftrightarrow> (\<forall>e::bytes. int (length e) < n \<longrightarrow> int (length e) < rollSize f)"

definition file_inv :: "(nat \<Rightarrow> string) \<Rightarrow> (nat \<Rightarrow> bool \<times> bool) \<Rightarrow> int \<Rightarrow> run_state \<Rightarrow> bool" where
  "file_inv names sys roll r \<longleftrightarrow>
     (if pc r = Starting then log_file r = None
      else \<exists>f. log_file r = Some f \<and> log_inv names sys f \<and> takes roll f)"

text \<open>The counter of buffers goes on counting those that were dropped.\<close>

definition shape_inv :: "(nat \<Rightarrow> string) \<Rightarrow> (nat \<Rightarrow> bool \<times> bool) \<Rightarrow> string \<Rightarrow> int \<Rightarrow> nat \<Rightarrow> run_state \<Rightarrow> bool" where
  "shape_inv names sys base roll n r \<longleftrightarrow> al_basename (front r) = base \<and> al_rollSize (front r) = roll \<and>
     front_inv (held r + n) (front r) \<and> (\<forall>b \<in> set (pending r). buffer_ok b) \<and> pc_inv r \<and> file_inv names sys roll r"

definition writing :: "run_state \<Rightarrow> bool" where
  "writing r \<longleftrightarrow> (case pc r of Writing bs \<Rightarrow> True | _ \<Rightarrow> False)"

definition text_inv :: "(nat \<Rightarrow> string) \<Rightarrow> run_state \<times> log_history \<Rightarrow> bool" where
  "text_inv names = (\<lambda>(r, g). \<exists>orig. accounts (logged names r) (map contents (pending r)) orig (writing r) (drops g) \<and>
     orig @ front_text (front r) = kept_text g)"

definition al_inv :: "(nat \<Rightarrow> string) \<Rightarrow> (nat \<Rightarrow> bool \<times> bool) \<Rightarrow> string \<Rightarrow> int \<Rightarrow> run_state \<times> log_history \<Rightarrow> bool" where
  "al_inv names sys base roll s \<longleftrightarrow> shape_inv names sys base roll (drops (snd s)) (fst s) \<and> text_inv names s"

lemmas shape_defs = shape_inv_def pending_def held_def pc_inv_def file_inv_def

definition al_env :: "(nat \<Rightarrow> string) \<Rightarrow> (nat \<Rightarrow> bool \<times> bool) \<Rightarrow> string \<Rightarrow> int \<Rightarrow> bool" where
  "al_env names sys base roll \<longleftrightarrow> roll_env names sys \<and> int blockSize \<le> roll \<and> roll < 2 ^ 31 \<and> CHR ''/'' \<notin> set base"

lemma started_inv: "al_inv names sys base roll (started_logger base roll interval, no_history)"
  using accounts_start
  by (simp add: al_inv_def text_inv_def shape_defs started_logger_def al_start_def new_AsyncLogger_def front_inv_def front_text_def
      initialBufferCounts_def no_history_def logged_def writing_def)

lemma collect_takes:
  "fullBuffers (front (collect r)) = []"
  "pc (collect r) = Collected"
  "buffersToWrite (collect r) = (if fullBuffers (front r) = [] then [currentBuffer (front r)] else fullBuffers (front r))"
  "fullBuffers (front r) \<noteq> [] \<Longrightarrow> currentBuffer (front (collect r)) = currentBuffer (front r)"
  "log_file (collect r) = log_file r"
  by (auto simp: collect_def Let_def updateCurBuffer_def split: list.splits)

lemma collect_text:
  assumes "front_inv n (front r)"
  shows "front_text (front r) = buffers_text (buffersToWrite (collect r)) @ front_text (front (collect r))"
  using updateCurBuffer_ok(2,3) [OF assms] by (auto simp: collect_def Let_def front_text_def)

lemma shape_collect:
  assumes "shape_inv names sys base roll n r" and "pc r = LoopTop \<or> pc r = Waiting"
  shows "shape_inv names sys base roll n (collect r)"
proof (cases "fullBuffers (front r) = []")
  case True
  have f: "front_inv n (front r)" using assms by (auto simp: shape_defs)
  from True assms updateCurBuffer_ok [OF f] show ?thesis
    by (auto simp: shape_defs collect_def front_inv_def Let_def)
next
  case False
  with assms show ?thesis
    by (auto simp: shape_defs collect_def front_inv_def Let_def)
qed

lemma inv_collect:
  assumes inv: "al_inv names sys base roll (r, g)" and pc: "pc r = LoopTop \<or> pc r = Waiting"
  shows "al_inv names sys base roll (collect r, g)"
proof -
  have s: "shape_inv names sys base roll (drops g) r" using inv by (simp add: al_inv_def)
  obtain orig where o1: "accounts (logged names r) [] orig False (drops g)" "orig @ front_text (front r) = kept_text g"
    using inv pc by (auto simp: al_inv_def text_inv_def pending_def writing_def)
  have f: "front_inv (held r + drops g) (front r)" using s by (simp add: shape_inv_def)
  have "text_inv names (collect r, g)"
    using accounts_take [OF o1(1), of "map contents (buffersToWrite (collect r))"] o1(2) collect_text [OF f]
    by (auto simp: text_inv_def pending_def writing_def collect_takes logged_def buffers_text_def)
  with shape_collect [OF s pc] show ?thesis by (simp add: al_inv_def)
qed

lemma to_file_ok:
  assumes "file_inv names sys roll r" and "pc r \<noteq> Starting" and "int (length d) < roll"
  shows "\<exists>f'. to_file names sys d r = Inr (r\<lparr>log_file := Some f'\<rparr>) \<and> log_inv names sys f' \<and> takes roll f' \<and>
    log_text names f' = logged names r @ d"
proof -
  obtain f where f: "log_file r = Some f" "log_inv names sys f" "takes roll f"
    using assms by (auto simp: file_inv_def)
  moreover have "int (length d) < rollSize f" using f(3) assms(3) by (simp add: takes_def)
  ultimately obtain f' where "log_append names sys d f = Inr f'" "log_inv names sys f'" "takes roll f'"
      "log_text names f' = log_text names f @ d"
    using lf.put_ok [of names sys f d] by (auto simp: takes_def)
  with f(1) show ?thesis by (auto simp: to_file_def logged_def)
qed

lemma notice_length: "length junk = 256 \<Longrightarrow> length (drop_notice junk time_text n) = 256"
  by (simp add: drop_notice_def blit_def snprintf_def min_def)

text \<open>The text a round writes of the buffers it took, with what it leaves out.\<close>

definition round_text :: "bytes \<Rightarrow> string \<Rightarrow> FixedBuffer list \<Rightarrow> bytes" where
  "round_text junk time_text bs =
     (if length bs < maxBufferCounts then buffers_text bs
      else drop_notice junk time_text (length bs + 1) @ buffers_text (take 15 bs) @ buffers_text (drop 16 bs))"

lemma inv_begin_write:
  assumes inv: "al_inv names sys base roll (r, g)" and pc: "pc r = Collected" and roll: "int blockSize \<le> roll" and junk: "length junk = 256"
  shows "\<exists>r' bs. begin_write names sys junk time_text r = Inr r' \<and> al_inv names sys base roll (r', count_drop r g) \<and>
    pc r' = Writing bs \<and> front r' = front r \<and> length bs \<le> length (buffersToWrite r) \<and>
    logged names r' @ buffers_text bs = logged names r @ round_text junk time_text (buffersToWrite r)"
proof (cases "length (buffersToWrite r) < maxBufferCounts")
  case True
  let ?r = "r\<lparr>pc := Writing (buffersToWrite r), buffersToWrite := []\<rparr>"
  have s: "shape_inv names sys base roll (drops g) r" and t: "text_inv names (r, g)" using inv by (simp_all add: al_inv_def)
  have b: "begin_write names sys junk time_text r = Inr ?r"
    using True s pc by (auto simp: begin_write_def maxBufferCounts_def shape_defs)
  have "shape_inv names sys base roll (drops g) ?r" using s pc by (auto simp: shape_defs)
  moreover have "text_inv names (?r, g)"
    using t pc by (auto simp: text_inv_def pending_def writing_def logged_def intro: accounts_writing)
  moreover have "count_drop r g = g" using True by (simp add: count_drop_def drop_round_def)
  ultimately show ?thesis using True b by (intro exI [of _ ?r]) (simp add: al_inv_def round_text_def logged_def)
next
  case False
  have s: "shape_inv names sys base roll (drops g) r" and t: "text_inv names (r, g)" using inv by (simp_all add: al_inv_def)
  let ?bs = "buffersToWrite r"
  let ?n = "drop_notice junk time_text (length ?bs + 1)" and ?e = "r\<lparr>buffersToWrite := erase_at 15 ?bs\<rparr>"
  have n: "length ?n = 256" by (rule notice_length [OF junk])
  have "file_inv names sys roll ?e" "pc ?e \<noteq> Starting" "int (length ?n) < roll"
    using s pc n roll by (simp_all add: shape_defs blockSize_def)
  then obtain f' where f': "to_file names sys ?n ?e = Inr (?e\<lparr>log_file := Some f'\<rparr>)" "log_inv names sys f'" "takes roll f'"
      "log_text names f' = logged names ?e @ ?n"
    using to_file_ok by blast
  let ?r = "?e\<lparr>log_file := Some f', pc := Writing (erase_at 15 ?bs), buffersToWrite := []\<rparr>"
  have len: "15 < length ?bs" "?bs \<noteq> []" using False by (auto simp: maxBufferCounts_def)
  then have b: "begin_write names sys junk time_text r = Inr ?r"
    using False f'(1) by (simp add: begin_write_def maxBufferCounts_def)
  have cd: "count_drop r g = g\<lparr>drops := Suc (drops g)\<rparr>" using False pc by (simp add: count_drop_def drop_round_def)
  have split: "?bs = take 15 ?bs @ ?bs ! 15 # drop 16 ?bs" using id_take_nth_drop [OF len(1)] by simp
  have ok: "buffer_ok b" if "b \<in> set ?bs" for b using s pc that by (auto simp: shape_defs)
  have sub: "b \<in> set ?bs" if "b \<in> set (erase_at 15 ?bs)" for b
    using that by (auto simp: erase_at_def dest: in_set_takeD in_set_dropD)
  have one: "length (erase_at 15 ?bs) + Suc n = length ?bs + n" for n using len by (simp add: erase_at_def)
  have "front_inv (length (erase_at 15 ?bs) + Suc (drops g)) (front r)" unfolding one using s pc by (simp add: shape_defs)
  then have "shape_inv names sys base roll (Suc (drops g)) ?r"
    using s pc f'(2,3) ok sub by (auto simp: shape_defs)
  moreover have "text_inv names (?r, count_drop r g)"
  proof -
    obtain orig where o1: "accounts (logged names r) (map contents ?bs) orig False (drops g)" "orig @ front_text (front r) = kept_text g"
      using t pc by (auto simp: text_inv_def pending_def writing_def)
    have "map contents ?bs = map contents (take 15 ?bs) @ contents (?bs ! 15) # map contents (drop 16 ?bs)"
      using arg_cong [OF split, of "map contents"] by simp
    moreover have "length (contents (?bs ! 15)) < blockSize" using ok [OF nth_mem [OF len(1)]] by (simp add: buffer_ok_def fb_size_def)
    ultimately have "accounts (logged names r @ ?n) (map contents (take 15 ?bs) @ map contents (drop 16 ?bs)) orig True (Suc (drops g))"
      using accounts_drop [OF _ _ n] o1(1) by metis
    then show ?thesis using o1(2) f'(4) cd
      by (auto simp: text_inv_def pending_def writing_def logged_def erase_at_def)
  qed
  moreover have "logged names ?r @ buffers_text (erase_at 15 ?bs) = logged names r @ round_text junk time_text ?bs"
    using False f'(4) by (simp add: round_text_def logged_def erase_at_def)
  ultimately show ?thesis using b cd by (intro exI [of _ ?r]) (simp add: al_inv_def erase_at_def)
qed

lemma buffer_ok_clear: "buffer_ok b \<Longrightarrow> fb_clear b = new_FixedBuffer blockSize"
  by (cases b) (simp add: buffer_ok_def fb_clear_def new_FixedBuffer_def)

lemma inv_write_one:
  assumes inv: "al_inv names sys base roll (r, g)" and w: "pc r = Writing bs" and roll: "int blockSize \<le> roll"
  shows "\<exists>r'. write_one names sys r = Inr r' \<and> al_inv names sys base roll (r', g) \<and> front r' = front r \<and>
    (case bs of [] \<Rightarrow> pc r' = GivingBack \<and> logged names r' = logged names r
     | b # cs \<Rightarrow> pc r' = Writing cs \<and> logged names r' = logged names r @ contents b)"
proof -
  have s: "shape_inv names sys base roll (drops g) r" and t: "text_inv names (r, g)" using inv by (simp_all add: al_inv_def)
  obtain orig where o1: "accounts (logged names r) (map contents bs) orig True (drops g)" "orig @ front_text (front r) = kept_text g"
    using t w by (auto simp: text_inv_def pending_def writing_def)
  show ?thesis
  proof (cases bs)
    case Nil
    have "text_inv names (r\<lparr>pc := GivingBack\<rparr>, g)"
      using accounts_written o1 Nil by (auto simp: text_inv_def pending_def writing_def logged_def)
    with s w Nil show ?thesis by (auto simp: write_one_def al_inv_def shape_defs logged_def)
  next
    case (Cons b cs)
    have b: "buffer_ok b" "int (length (contents b)) < roll"
      using s w Cons roll by (auto simp: shape_defs buffer_ok_def fb_size_def)
    have "file_inv names sys roll r" using s by (simp add: shape_inv_def)
    then obtain f' where f': "to_file names sys (contents b) r = Inr (r\<lparr>log_file := Some f'\<rparr>)" "log_inv names sys f'"
        "takes roll f'" "log_text names f' = logged names r @ contents b"
      using to_file_ok [of names sys roll r "contents b"] w b(2) by auto
    let ?r = "r\<lparr>log_file := Some f', pc := Writing cs, buffersToWrite := buffersToWrite r @ [fb_clear b]\<rparr>"
    have "write_one names sys r = Inr ?r" using f'(1) w Cons by (simp add: write_one_def)
    moreover have "shape_inv names sys base roll (drops g) ?r"
      using s w Cons f'(2,3) buffer_ok_clear [OF b(1)] by (auto simp: shape_defs)
    moreover have "text_inv names (?r, g)"
      using accounts_write [OF o1(1) [unfolded Cons list.map]] o1(2) f'(4) by (auto simp: text_inv_def pending_def writing_def logged_def)
    ultimately show ?thesis using Cons f'(4) by (auto simp: al_inv_def logged_def)
  qed
qed

lemma give_each_eq: "give_each bs es = rev bs @ es"
  by (induction bs arbitrary: es) simp_all

lemma inv_give_back:
  assumes "al_inv names sys base roll (r, g)" and "pc r = GivingBack"
  shows "al_inv names sys base roll (give_back r, g)"
  using assms
  by (auto simp: al_inv_def text_inv_def writing_def shape_defs give_back_def give_each_eq front_inv_def front_text_def logged_def)

lemma inv_run_begin:
  assumes "al_inv names sys base roll (r, g)" and "pc r = Starting" and env: "al_env names sys base roll"
  shows "\<exists>r'. run_begin names sys dsk r = Inr r' \<and> al_inv names sys base roll (r', g)"
proof -
  have "0 < roll" using env by (simp add: al_env_def blockSize_def)
  then obtain f where "new_LogFile names sys base roll dsk = Inr f" "log_inv names sys f" "log_text names f = []"
      "takes roll f"
    using new_LogFile_ok [of names sys roll base dsk] env by (auto simp: al_env_def takes_def)
  with assms(1,2) show ?thesis by (auto simp: run_begin_def al_inv_def text_inv_def writing_def shape_defs logged_def)
qed

lemma inv_run_step:
  assumes inv: "al_inv names sys base roll (r, g)" and env: "al_env names sys base roll" and junk: "length junk = 256"
  shows "\<exists>r'. run_step names sys dsk junk time_text r = Inr r' \<and> al_inv names sys base roll (r', count_drop r g)"
proof -
  have same: "pc r \<noteq> Collected \<Longrightarrow> count_drop r g = g" by (simp add: count_drop_def drop_round_def)
  have roll: "int blockSize \<le> roll" using env by (simp add: al_env_def)
  show ?thesis
  proof (cases "pc r")
    case Starting
    with inv_run_begin [OF inv _ env] same show ?thesis by (simp add: run_step_def)
  next
    case LoopTop
    have "buffersToWrite r = []" using inv LoopTop by (simp add: al_inv_def shape_defs)
    moreover have "al_inv names sys base roll (r\<lparr>pc := Ended\<rparr>, g)" "al_inv names sys base roll (r\<lparr>pc := Waiting\<rparr>, g)"
      using inv LoopTop by (auto simp: al_inv_def text_inv_def writing_def shape_defs logged_def)
    ultimately show ?thesis
      using inv_collect [OF inv] LoopTop same by (simp add: run_step_def run_top_def)
  next
    case Waiting
    with inv_collect [OF inv] same show ?thesis by (simp add: run_step_def)
  next
    case Collected
    with inv_begin_write [OF inv Collected roll junk] show ?thesis by (auto simp: run_step_def)
  next
    case (Writing bs)
    with inv_write_one [OF inv Writing roll] same show ?thesis by (auto simp: run_step_def)
  next
    case GivingBack
    with inv_give_back [OF inv] same show ?thesis by (simp add: run_step_def)
  next
    case Ended
    with inv same show ?thesis by (simp add: run_step_def)
  qed
qed

lemma inv_front:
  assumes inv: "al_inv names sys base roll (r, g)" and "front_inv (held r + drops g) a" and "front_text a = front_text (front r) @ d"
    and "al_basename a = base" and "al_rollSize a = roll" and "pc r = Starting \<Longrightarrow> stop_flag a = stop_flag (front r)"
  shows "al_inv names sys base roll (r\<lparr>front := a\<rparr>, g\<lparr>kept_text := kept_text g @ d\<rparr>)"
proof -
  have "shape_inv names sys base roll (drops g) (r\<lparr>front := a\<rparr>)"
    using assms by (auto simp: al_inv_def shape_defs split: run_pc.splits)
  moreover have "text_inv names (r\<lparr>front := a\<rparr>, g\<lparr>kept_text := kept_text g @ d\<rparr>)"
    using inv assms(3) by (cases "pc r") (auto simp: al_inv_def text_inv_def pending_def writing_def logged_def)
  ultimately show ?thesis by (simp add: al_inv_def)
qed

lemma al_append_cases:
  assumes "al_append time_text logline k level a = Inr a'"
  shows "a' = store_line (log_line time_text (levelName ! level_num level) logline) k a"
  using assms by (auto simp: al_append_def level_text_def split: if_splits)

lemma al_step_keeps:
  assumes env: "al_env names sys base roll" and inv: "al_inv names sys base roll s" and step: "al_step names sys dsk s t"
  shows "al_inv names sys base roll t"
  using step inv
proof cases
  case (call_append time_text logline k level r a line g)
  have f: "front_inv (held r + drops g) (front r)" "al_basename (front r) = base" "al_rollSize (front r) = roll"
    using inv call_append(1) by (auto simp: al_inv_def shape_inv_def)
  show ?thesis
    unfolding call_append(2)
    using inv call_append(1) call_append(4) f store_line_ok [OF f(1), of line k] al_append_cases [OF call_append(3)]
    by (intro inv_front) auto
next
  case (call_setLevel r g level)
  with inv inv_front [of names sys base roll r g "setLevel level (front r)" "[]"] show ?thesis
    by (simp add: al_inv_def shape_inv_def setLevel_def front_inv_def front_text_def)
next
  case (call_stop r g)
  with inv inv_front [of names sys base roll r g "al_stop (front r)" "[]"] show ?thesis
    by (simp add: al_inv_def shape_inv_def al_stop_def front_inv_def front_text_def)
next
  case (background junk time_text r r' g)
  with inv_run_step [OF _ env background(3), of r g dsk time_text] inv show ?thesis by auto
qed

interpretation al: invariant_system "al_step names sys dsk" "\<lambda>s. al_env names sys base roll \<and> al_inv names sys base roll s"
  for names sys dsk base roll
  by unfold_locales (blast intro: al_step_keeps)

subsection \<open>Names from the clock\<close>

text \<open>A run does not depend on the names of rolls it has not made.\<close>

lemma to_file_rolls:
  assumes "to_file names sys d r = Inr r'"
  shows "rolls_of r \<le> rolls_of r' \<and> rolls_of r' \<le> Suc (rolls_of r)" and "pc r' = pc r"
    and "(\<And>k. k < rolls_of r' \<Longrightarrow> names k = names' k) \<Longrightarrow> to_file names' sys d r = Inr r'"
proof -
  obtain f f' where f: "log_file r = Some f" "log_append names sys d f = Inr f'" "r' = r\<lparr>log_file := Some f'\<rparr>"
    using assms by (auto simp: to_file_def result_simps split: option.splits)
  show "rolls_of r \<le> rolls_of r' \<and> rolls_of r' \<le> Suc (rolls_of r)" "pc r' = pc r"
    using f log_append_rolls(1) [OF f(2)] by (simp_all add: rolls_of_def)
  assume "\<And>k. k < rolls_of r' \<Longrightarrow> names k = names' k"
  then have "log_append names' sys d f = Inr f'" using f(3) by (intro log_append_rolls(2) [OF f(2)]) (simp add: rolls_of_def)
  with f show "to_file names' sys d r = Inr r'" by (simp add: to_file_def)
qed

lemma rolls_of_upd [simp]:
  "rolls_of (r\<lparr>pc := p\<rparr>) = rolls_of r" "rolls_of (r\<lparr>buffersToWrite := bs\<rparr>) = rolls_of r" "rolls_of (r\<lparr>front := a\<rparr>) = rolls_of r"
  by (simp_all add: rolls_of_def)

definition step_ok :: "(nat \<Rightarrow> string) \<Rightarrow> run_state \<Rightarrow> run_state \<Rightarrow> ((nat \<Rightarrow> string) \<Rightarrow> run_state result) \<Rightarrow> bool" where
  "step_ok names r r' f \<longleftrightarrow> rolls_of r \<le> rolls_of r' \<and> rolls_of r' \<le> Suc (rolls_of r) \<and>
     (\<forall>names'. (\<forall>k < rolls_of r'. names k = names' k) \<longrightarrow> f names' = Inr r')"

lemma begin_write_rolls:
  assumes "begin_write names sys junk time_text r = Inr r'"
  shows "step_ok names r r' (\<lambda>names. begin_write names sys junk time_text r)"
proof -
  let ?m = "\<lambda>names. if length (buffersToWrite r) > maxBufferCounts - 1
      then to_file names sys (drop_notice junk time_text (length (buffersToWrite r) + 1))
        (r\<lparr>buffersToWrite := erase_at (maxBufferCounts - 1) (buffersToWrite r)\<rparr>) else Inr r"
  obtain r1 where r1: "?m names = Inr r1" "r' = r1\<lparr>pc := Writing (buffersToWrite r1), buffersToWrite := []\<rparr>" "buffersToWrite r \<noteq> []"
    using assms unfolding begin_write_def asserting_Inr_iff bind_r_Inr_iff by auto
  have "step_ok names r r1 ?m"
    using r1(1) to_file_rolls [of names sys _ "r\<lparr>buffersToWrite := erase_at (maxBufferCounts - 1) (buffersToWrite r)\<rparr>" r1]
    by (auto simp: step_ok_def split: if_splits)
  with r1(2,3) show ?thesis by (simp add: step_ok_def begin_write_def)
qed

lemma run_step_rolls:
  assumes run: "run_step names sys dsk junk time_text r = Inr r'" and "pc r = Starting \<Longrightarrow> log_file r = None"
  shows "step_ok names r r' (\<lambda>names. run_step names sys dsk junk time_text r) \<and> (pc r' = Starting \<longrightarrow> log_file r' = None)"
proof (cases "pc r")
  case Starting
  with assms obtain f where f: "new_LogFile names sys (al_basename (front r)) (al_rollSize (front r)) dsk = Inr f"
      "r' = r\<lparr>log_file := Some f, pc := LoopTop\<rparr>" "\<not> stop_flag (front r)" "log_file r = None"
    by (auto simp: run_step_def run_begin_def result_simps)
  have "new_LogFile names' sys (al_basename (front r)) (al_rollSize (front r)) dsk = Inr f" if "names 0 = names' 0" for names'
    using f(1) that by (rule new_LogFile_rolls(2))
  with Starting f(2-4) new_LogFile_rolls(1) [OF f(1)] show ?thesis
    by (auto simp: step_ok_def run_step_def run_begin_def rolls_of_def)
next
  case Collected
  then have "begin_write names sys junk time_text r = Inr r'" using run by (simp add: run_step_def)
  from begin_write_rolls [OF this] Collected this show ?thesis
    by (auto simp: step_ok_def run_step_def begin_write_def result_simps)
next
  case (Writing bs)
  show ?thesis
  proof (cases bs)
    case Nil
    with Writing run show ?thesis by (auto simp: step_ok_def run_step_def write_one_def)
  next
    case (Cons b cs)
    then obtain r1 where r1: "to_file names sys (contents b) r = Inr r1" "r' = r1\<lparr>pc := Writing cs, buffersToWrite := buffersToWrite r1 @ [fb_clear b]\<rparr>"
      using Writing run by (auto simp: run_step_def write_one_def result_simps)
    note t = to_file_rolls [OF r1(1)]
    have "to_file names' sys (contents b) r = Inr r1" if "\<forall>k < rolls_of r'. names k = names' k" for names'
      using that r1(2) by (intro t(3)) simp
    with Writing Cons r1 t show ?thesis by (auto simp: step_ok_def run_step_def write_one_def)
  qed
qed (use run in \<open>auto simp: step_ok_def run_step_def run_top_def result_simps collect_def give_back_def Let_def rolls_of_def split: if_splits\<close>)

lemma al_step_rolls:
  assumes "al_step names sys dsk s t" and "pc (fst s) = Starting \<Longrightarrow> log_file (fst s) = None"
  shows "rolls_of (fst s) \<le> rolls_of (fst t) \<and> (pc (fst t) = Starting \<longrightarrow> log_file (fst t) = None) \<and>
    ((\<forall>k < rolls_of (fst t). names k = names' k) \<longrightarrow> al_step names' sys dsk s t)"
  using assms(1)
proof cases
  case (call_append time_text logline k level r a line g)
  have "al_step names' sys dsk s t"
    unfolding call_append(1,2) by (rule al_step.call_append [OF call_append(3,4)])
  with call_append(1,2) assms(2) show ?thesis by simp
next
  case (background junk time_text r r' g)
  have s: "step_ok names r r' (\<lambda>names. run_step names sys dsk junk time_text r)" "pc r' = Starting \<longrightarrow> log_file r' = None"
    using run_step_rolls [OF background(4)] assms(2) background(1) by auto
  have "al_step names' sys dsk s t" if "\<forall>k < rolls_of r'. names k = names' k"
  proof -
    have "run_step names' sys dsk junk time_text r = Inr r'" using s(1) that unfolding step_ok_def by blast
    then show ?thesis unfolding background(1,2) by (rule al_step.background [OF background(3)])
  qed
  with s background(1,2) show ?thesis by (simp add: step_ok_def)
qed (use assms(2) in \<open>auto intro: al_step.intros\<close>)

lemma al_run_rolls:
  assumes "(al_step names sys dsk)\<^sup>*\<^sup>* s t" and "pc (fst s) = Starting \<Longrightarrow> log_file (fst s) = None"
  shows "(pc (fst t) = Starting \<longrightarrow> log_file (fst t) = None) \<and>
    ((\<forall>k < rolls_of (fst t). names k = names' k) \<longrightarrow> (al_step names' sys dsk)\<^sup>*\<^sup>* s t)"
  using assms(1)
proof (induction rule: rtranclp_induct)
  case (step t u)
  with al_step_rolls [OF step(2), of names'] show ?case
    by (auto intro: rtranclp.rtrancl_into_rtrancl dest: order_less_le_trans)
qed (use assms(2) in simp)

text \<open>
  So a run with the names of a clock that does not repeat is a run with names that differ for ever, and the invariant holds for
  those.
\<close>

lemma clocked_run:
  assumes "clock_ok n clock" and "\<forall>k. sys k = (True, True)" and "int blockSize \<le> roll" and "roll < 2 ^ 31" and "CHR ''/'' \<notin> set base"
    and run: "(al_step (clock_names clock base) sys dsk)\<^sup>*\<^sup>* (started_logger base roll interval, no_history) (r, g)"
    and n: "rolls_of r \<le> n"
  defines "F \<equiv> fresh_names n (clock_names clock base)"
  shows "al_env F sys base roll" and "al_inv F sys base roll (r, g)" and "pc r = Starting \<longrightarrow> log_file r = None"
    and "logged F r = logged (clock_names clock base) r"
proof -
  have same: "F k = clock_names clock base k" if "k < n" for k using that by (simp add: F_def fresh_names_def)
  show env: "al_env F sys base roll" using assms(1-5) fresh_names_env [of n clock sys base] by (simp add: al_env_def F_def)
  have start: "pc (fst (started_logger base roll interval, no_history)) = Starting \<Longrightarrow> log_file (fst (started_logger base roll interval, no_history)) = None"
    by (simp add: started_logger_def)
  note a = al_run_rolls [OF run start, of F]
  then have "(al_step F sys dsk)\<^sup>*\<^sup>* (started_logger base roll interval, no_history) (r, g)" using same n by simp
  from al.run_keeps [OF this, of base roll] env started_inv show inv: "al_inv F sys base roll (r, g)" by blast
  show "pc r = Starting \<longrightarrow> log_file r = None" using a by simp
  show "logged F r = logged (clock_names clock base) r"
  proof (cases "log_file r")
    case (Some f)
    then have "0 < rolls f" "rolls f \<le> n"
      using inv n by (auto simp: al_inv_def shape_defs log_inv_def rolls_of_def split: if_splits)
    then have "log_text F f = log_text (clock_names clock base) f" using same by (intro log_text_cong [of n]) auto
    with Some show ?thesis by (simp add: logged_def)
  qed (simp add: logged_def)
qed


definition sample_step :: "run_state \<times> log_history \<Rightarrow> run_state \<times> log_history \<Rightarrow> bool" where
  "sample_step = al_step (clock_names sample_clock ''log'') (\<lambda>k. (True, True)) Map.empty"

definition hello :: bytes where
  "hello = ''t INFO hello'' @ [CHR 0x0A]"

definition hello_history :: log_history where
  "hello_history = \<lparr>kept_text = hello, drops = 0\<rparr>"

definition hello_logger :: run_state where
  "hello_logger = (started_logger ''log'' defaultRollSize 3)\<lparr>front := store_line hello 5 (front (started_logger ''log'' defaultRollSize 3))\<rparr>"

lemma sample_append: "sample_step (started_logger ''log'' defaultRollSize 3, no_history) (hello_logger, hello_history)"
proof -
  let ?r = "started_logger ''log'' defaultRollSize 3"
  let ?line = "log_line ''t'' (levelName ! level_num INFO) ''hello''"
  have line: "?line = hello" by (simp add: log_line_def levelName_def c_string_def hello_def)
  have app: "al_append ''t'' ''hello'' 5 INFO (front ?r) = Inr (store_line hello 5 (front ?r))"
    using line by (simp add: al_append_def level_text_def levelName_def)
  have "line_kept (length hello) 5 (front ?r)"
    by (simp add: line_kept_def hello_def started_logger_def al_start_def new_AsyncLogger_def fb_avail_def fb_size_def
        new_FixedBuffer_def blockSize_def)
  with call_append [OF app line [symmetric], where g = no_history] show ?thesis
    by (simp add: sample_step_def hello_logger_def hello_history_def no_history_def)
qed

lemma hello_logger_simps:
  "rolls_of hello_logger = 0" "pc hello_logger = Starting" "\<not> stop_flag (front hello_logger)" "fullBuffers (front hello_logger) = []"
  "contents (currentBuffer (front hello_logger)) = hello" "al_basename (front hello_logger) = ''log''" "al_rollSize (front hello_logger) = defaultRollSize"
  "buffersToWrite hello_logger = []"
  by (simp_all add: hello_logger_def rolls_of_def store_line_def started_logger_def al_start_def new_AsyncLogger_def fb_avail_def fb_size_def
      new_FixedBuffer_def blockSize_def fb_append_def hello_def)


text \<open>The background thread left alone for \<open>n\<close> steps.\<close>

fun run_steps ::
  "(nat \<Rightarrow> string) \<Rightarrow> (nat \<Rightarrow> bool \<times> bool) \<Rightarrow> disk \<Rightarrow> bytes \<Rightarrow> string \<Rightarrow> nat \<Rightarrow> run_state \<Rightarrow> run_state result" where
  "run_steps names sys dsk junk time_text 0 r = Inr r"
| "run_steps names sys dsk junk time_text (Suc n) r =
     bind_r (run_step names sys dsk junk time_text r) (run_steps names sys dsk junk time_text n)"

lemma run_steps_add:
  "run_steps names sys dsk junk time_text (m + n) r =
     bind_r (run_steps names sys dsk junk time_text m r) (run_steps names sys dsk junk time_text n)"
proof (induction m arbitrary: r)
  case (Suc m)
  then show ?case by (cases "run_step names sys dsk junk time_text r") simp_all
qed simp

lemma run_steps_rolls:
  assumes "run_steps names sys dsk junk time_text n r = Inr r'" and "pc r = Starting \<longrightarrow> log_file r = None"
  shows "rolls_of r \<le> rolls_of r' \<and> rolls_of r' \<le> rolls_of r + n \<and>
    ((\<forall>k < rolls_of r'. names k = names' k) \<longrightarrow> run_steps names' sys dsk junk time_text n r = Inr r')"
  using assms
proof (induction n arbitrary: r)
  case (Suc n)
  obtain r1 where r1: "run_step names sys dsk junk time_text r = Inr r1" "run_steps names sys dsk junk time_text n r1 = Inr r'"
    using Suc.prems(1) by (cases "run_step names sys dsk junk time_text r") auto
  have s: "step_ok names r r1 (\<lambda>names. run_step names sys dsk junk time_text r)" "pc r1 = Starting \<longrightarrow> log_file r1 = None"
    using run_step_rolls [OF r1(1)] Suc.prems(2) by auto
  from Suc.IH [OF r1(2) s(2)] s(1) show ?case by (auto simp: step_ok_def dest: order_less_le_trans)
qed simp

lemma writing_ends:
  assumes "al_inv names sys base roll (r, g)" and "pc r = Writing bs" and "int blockSize \<le> roll"
  shows "\<exists>r'. run_steps names sys dsk junk time_text (Suc (length bs)) r = Inr r' \<and> pc r' = GivingBack \<and>
    al_inv names sys base roll (r', g) \<and> front r' = front r \<and> logged names r' = logged names r @ buffers_text bs"
  using assms
proof (induction bs arbitrary: r)
  case Nil
  obtain r1 where "write_one names sys r = Inr r1" "al_inv names sys base roll (r1, g)" "front r1 = front r" "pc r1 = GivingBack"
      "logged names r1 = logged names r"
    using inv_write_one [OF Nil] by auto
  with Nil(2) show ?case by (simp add: run_step_def)
next
  case (Cons b bs)
  obtain r1 where r1: "write_one names sys r = Inr r1" "al_inv names sys base roll (r1, g)" "front r1 = front r" "pc r1 = Writing bs"
      "logged names r1 = logged names r @ contents b"
    using inv_write_one [OF Cons.prems] by auto
  from Cons.IH [OF r1(2,4) Cons.prems(3)] r1 Cons.prems(2) show ?case by (auto simp: run_step_def)
qed

lemma collected_ends:
  assumes inv: "al_inv names sys base roll (r, g)" and pc: "pc r = Collected" and roll: "int blockSize \<le> roll" and junk: "length junk = 256"
  shows "\<exists>n r'. n \<le> length (buffersToWrite r) + 3 \<and> run_steps names sys dsk junk time_text n r = Inr r' \<and> pc r' = LoopTop \<and>
    front_text (front r') = front_text (front r) \<and> al_inv names sys base roll (r', count_drop r g) \<and>
    logged names r' = logged names r @ round_text junk time_text (buffersToWrite r)"
proof -
  obtain r1 bs where r1: "begin_write names sys junk time_text r = Inr r1" "al_inv names sys base roll (r1, count_drop r g)"
      "pc r1 = Writing bs" "front r1 = front r" "length bs \<le> length (buffersToWrite r)"
      "logged names r1 @ buffers_text bs = logged names r @ round_text junk time_text (buffersToWrite r)"
    using inv_begin_write [OF inv pc roll junk] by blast
  obtain r2 where r2: "run_steps names sys dsk junk time_text (Suc (length bs)) r1 = Inr r2"
      "pc r2 = GivingBack" "al_inv names sys base roll (r2, count_drop r g)" "front r2 = front r" "logged names r2 = logged names r1 @ buffers_text bs"
    using writing_ends [OF r1(2,3) roll] r1(4) by metis
  have "run_steps names sys dsk junk time_text (Suc (length bs) + 1) r1 = Inr (give_back r2)"
    using r2(1,2) unfolding run_steps_add by (simp add: run_step_def)
  with r1(1) pc have "run_steps names sys dsk junk time_text (Suc (Suc (length bs) + 1)) r = Inr (give_back r2)"
    by (simp add: run_step_def)
  with inv_give_back [OF r2(3,2)] r1(5,6) r2(4,5) show ?thesis
    by (intro exI [of _ "Suc (Suc (length bs) + 1)"] exI [of _ "give_back r2"])
      (simp add: give_back_def front_text_def logged_def)
qed

lemma top_ends:
  assumes inv: "al_inv names sys base roll (r, g)" and top: "pc r = LoopTop" "\<not> stop_flag (front r)"
    and roll: "int blockSize \<le> roll" and junk: "length junk = 256"
  shows "\<exists>n r'. n \<le> length (fullBuffers (front r)) + 6 \<and> run_steps names sys dsk junk time_text n r = Inr r' \<and> pc r' = LoopTop \<and>
    al_inv names sys base roll (r', count_drop (collect r) g) \<and>
    logged names r' = logged names r @ round_text junk time_text (buffersToWrite (collect r)) \<and>
    front_text (front r) = buffers_text (buffersToWrite (collect r)) @ front_text (front r')"
proof -
  let ?c = "collect r"
  have c: "al_inv names sys base roll (?c, g)" using inv_collect [OF inv] top by simp
  obtain n r' where r': "n \<le> length (buffersToWrite ?c) + 3" "run_steps names sys dsk junk time_text n ?c = Inr r'" "pc r' = LoopTop"
      "front_text (front r') = front_text (front ?c)" "al_inv names sys base roll (r', count_drop ?c g)"
      "logged names r' = logged names ?c @ round_text junk time_text (buffersToWrite ?c)"
    using collected_ends [OF c collect_takes(2) roll junk] by blast
  have b: "buffersToWrite r = []" using inv top by (simp add: al_inv_def shape_defs)
  have m: "run_steps names sys dsk junk time_text (if fullBuffers (front r) = [] then 2 else 1) r = Inr ?c"
  proof (cases "fullBuffers (front r) = []")
    case True
    have "collect (r\<lparr>pc := Waiting\<rparr>) = ?c" by (simp add: collect_def Let_def)
    with True top b show ?thesis by (simp add: numeral_2_eq_2 run_step_def run_top_def)
  next
    case False
    with top b show ?thesis by (simp add: run_step_def run_top_def)
  qed
  let ?m = "if fullBuffers (front r) = [] then 2 else 1 :: nat"
  have "run_steps names sys dsk junk time_text (?m + n) r = Inr r'" using m r'(2) by (simp only: run_steps_add bind_r_simps)
  moreover have "?m + n \<le> length (fullBuffers (front r)) + 6" using r'(1) by (simp add: collect_takes split: if_splits)
  moreover have "front_text (front r) = buffers_text (buffersToWrite ?c) @ front_text (front r')"
    using collect_text [of "held r + drops g" r] inv r'(4) by (simp add: al_inv_def shape_inv_def)
  moreover have "logged names ?c = logged names r" by (simp add: logged_def collect_takes)
  ultimately show ?thesis using r'(3,5,6) by metis
qed


lemma sample_at_top:
  "\<exists>r. sample_step\<^sup>*\<^sup>* (started_logger ''log'' defaultRollSize 3, no_history) (r, hello_history) \<and> pc r = LoopTop \<and> rolls_of r = 1 \<and>
    \<not> stop_flag (front r) \<and> fullBuffers (front r) = [] \<and> contents (currentBuffer (front r)) = hello"
proof -
  let ?N = "clock_names sample_clock ''log''"
  have "\<not> isl (new_LogFile ?N (\<lambda>k. (True, True)) ''log'' defaultRollSize Map.empty)"
    by (simp add: new_LogFile_def rollFile_def new_mmapManager_def clock_names_def getLogFileName_def)
  then obtain f where f: "new_LogFile ?N (\<lambda>k. (True, True)) ''log'' defaultRollSize Map.empty = Inr f"
    by (cases "new_LogFile ?N (\<lambda>k. (True, True)) ''log'' defaultRollSize Map.empty") auto
  let ?t = "hello_logger\<lparr>log_file := Some f, pc := LoopTop\<rparr>"
  have "run_step ?N (\<lambda>k. (True, True)) Map.empty (replicate 256 (CHR ''?'')) [] hello_logger = Inr ?t"
    using f by (simp add: run_step_def run_begin_def hello_logger_simps)
  from al_step.background [OF _ this, of hello_history] have "sample_step (hello_logger, hello_history) (?t, hello_history)"
    by (simp add: sample_step_def count_drop_def drop_round_def hello_logger_simps)
  then have "sample_step\<^sup>*\<^sup>* (started_logger ''log'' defaultRollSize 3, no_history) (?t, hello_history)"
    by (rule rtranclp.rtrancl_into_rtrancl [OF r_into_rtranclp [of sample_step, OF sample_append]])
  then show ?thesis using new_LogFile_rolls(1) [OF f]
    by (intro exI [of _ ?t]) (simp add: hello_logger_simps rolls_of_def)
qed


text \<open>
  A round that finds sixteen or more full buffers writes a notice of 256 bytes to the log and drops
  exactly the sixteenth buffer: the text to write is what it was without that buffer, however many there are.
\<close>

theorem begin_write_drops:
  assumes "al_inv names sys base roll (r, g)" and "pc r = Collected" and "maxBufferCounts \<le> length (buffersToWrite r)"
    and "int blockSize \<le> roll" and "length junk = 256"
  shows "\<exists>r'. begin_write names sys junk time_text r = Inr r' \<and>
    logged names r' @ buffers_text (pending r') = logged names r @
      drop_notice junk time_text (length (buffersToWrite r) + 1) @ buffers_text (take 15 (pending r)) @ buffers_text (drop 16 (pending r)) \<and>
    length (drop_notice junk time_text (length (buffersToWrite r) + 1)) = 256 \<and> front r' = front r"
proof -
  obtain r' bs where "begin_write names sys junk time_text r = Inr r'" "pc r' = Writing bs" "front r' = front r"
      "logged names r' @ buffers_text bs = logged names r @ round_text junk time_text (buffersToWrite r)"
    using inv_begin_write [OF assms(1,2,4,5)] by blast
  with assms(2,3) notice_length [OF assms(5)] show ?thesis by (simp add: round_text_def pending_def)
qed

definition flooded :: "LogFile \<Rightarrow> run_state" where
  "flooded f = \<lparr>front = (al_start (new_AsyncLogger ''log'' defaultRollSize 3))\<lparr>curBufferCounts := 31\<rparr>, pc = Collected,
     buffersToWrite = replicate 16 \<lparr>fb_capacity = blockSize, contents = ''x''\<rparr>, log_file = Some f\<rparr>"

definition sample_names :: "nat \<Rightarrow> string" where
  "sample_names k = replicate (Suc k) (CHR ''a'')"

lemma sample_env: "roll_env sample_names (\<lambda>k. (True, True))"
  by (auto simp: roll_env_def sample_names_def inj_def dest: arg_cong [where f = length])

theorem begin_write_drops_witness:
  "\<exists>f r'. begin_write sample_names (\<lambda>k. (True, True)) (replicate 256 (CHR ''?'')) ''t'' (flooded f) = Inr r' \<and>
    length (logged sample_names r' @ buffers_text (pending r')) = 271"
proof -
  obtain f where f: "log_inv sample_names (\<lambda>k. (True, True)) f" "log_text sample_names f = []" "rollSize f = defaultRollSize"
    using new_LogFile_ok [OF sample_env, of defaultRollSize "''log''" Map.empty] by (auto simp: defaultRollSize_def)
  let ?g = "\<lparr>kept_text = buffers_text (pending (flooded f)), drops = 0\<rparr>"
  have "accounts [] (map contents (pending (flooded f))) (buffers_text (pending (flooded f))) False 0"
    using accounts_take [OF accounts_start, of "map contents (pending (flooded f))"] by (simp add: buffers_text_def)
  then have inv: "al_inv sample_names (\<lambda>k. (True, True)) ''log'' defaultRollSize (flooded f, ?g)"
    using f by (auto simp: al_inv_def text_inv_def shape_defs flooded_def al_start_def new_AsyncLogger_def front_inv_def front_text_def
        initialBufferCounts_def buffer_ok_def fb_size_def blockSize_def takes_def new_FixedBuffer_def logged_def writing_def)
  from begin_write_drops [OF inv, of "replicate 256 (CHR ''?'')" "''t''"] f(2) show ?thesis
    by (fastforce simp: flooded_def maxBufferCounts_def blockSize_def defaultRollSize_def logged_def pending_def buffers_text_def)
qed

end
