(* ===== verification/Buffer.thy ===== *)
theory Buffer
  imports Tundra_Prelude "HOL-Library.Word"
begin

text \<open>
  \<^verbatim>\<open>util/Buffer.h\<close> and \<^verbatim>\<open>util/Buffer.cpp\<close>: the growable byte buffer between the sockets and
  the protocol code. The storage vector is a list of bytes and the two indices are naturals;
  a \<^verbatim>\<open>const char*\<close> into the buffer is an offset into the storage. The theory models every
  member function, shows that the indices stay in order (so no subtraction of sizes wraps),
  that no assertion of the append path can fire, and that the buffer is a byte queue: the
  contract \<open>byte_queue\<close> its clients (the HTTP code and the connections) rely on.
  Host integers are stored little-endian, as on the platforms the build targets.
\<close>

section \<open>The class\<close>

record buffer =
  storage :: bytes
  readerIndex :: nat
  writerIndex :: nat

definition kCheapPrepend :: nat where "kCheapPrepend = 8"
definition kInitialSize :: nat where "kInitialSize = 4088"
definition kCRLF :: bytes where "kCRLF = [CHR 0x0D, CHR 0x0A]"

definition readableBytes :: "buffer \<Rightarrow> nat" where
  "readableBytes b = writerIndex b - readerIndex b"

definition writableBytes :: "buffer \<Rightarrow> nat" where
  "writableBytes b = length (storage b) - writerIndex b"

definition prependableBytes :: "buffer \<Rightarrow> nat" where
  "prependableBytes b = readerIndex b"

definition peek :: "buffer \<Rightarrow> nat" where
  "peek b = readerIndex b"

definition beginWrite :: "buffer \<Rightarrow> nat" where
  "beginWrite b = writerIndex b"

text \<open>
  The constructor allocates \<open>kInitialSize\<close> bytes whatever its argument says, then asserts
  that the argument's number of bytes is writable.
\<close>

definition new_buffer :: "nat \<Rightarrow> buffer result" where
  "new_buffer initialSize =
     (let b = \<lparr>storage = replicate (kCheapPrepend + kInitialSize) (CHR 0x00),
               readerIndex = kCheapPrepend, writerIndex = kCheapPrepend\<rparr>
      in asserting (readableBytes b = 0) (asserting (writableBytes b = initialSize) (Inr b)))"

definition swap :: "buffer \<Rightarrow> buffer \<Rightarrow> buffer \<times> buffer" where
  "swap b rhs = (rhs, b)"

section \<open>Making space\<close>

text \<open>
  \<^verbatim>\<open>resize\<close> fills the new bytes with zeros. The move to the front is a \<^verbatim>\<open>std::copy\<close> inside
  the storage, from the reader index down to the prepend area.
\<close>

definition vec_resize :: "bytes \<Rightarrow> nat \<Rightarrow> bytes" where
  "vec_resize v n = take n v @ replicate (n - length v) (CHR 0x00)"

definition makeSpace :: "nat \<Rightarrow> buffer \<Rightarrow> buffer result" where
  "makeSpace len b =
     (if writableBytes b + prependableBytes b < len + kCheapPrepend
      then Inr (b\<lparr>storage := vec_resize (storage b) (writerIndex b + len)\<rparr>)
      else asserting (kCheapPrepend < readerIndex b)
        (let readable = readableBytes b;
             b' = b\<lparr>storage := blit (storage b) kCheapPrepend
                                 (block (storage b) (readerIndex b) (writerIndex b)),
                    readerIndex := kCheapPrepend,
                    writerIndex := kCheapPrepend + readable\<rparr>
         in asserting (readable = readableBytes b') (Inr b')))"

definition ensureWriteableBytes :: "nat \<Rightarrow> buffer \<Rightarrow> buffer result" where
  "ensureWriteableBytes len b =
     bind_r (if writableBytes b < len then makeSpace len b else Inr b)
       (\<lambda>b'. asserting (writableBytes b' \<ge> len) (Inr b'))"

section \<open>Writing\<close>

definition append_bytes :: "bytes \<Rightarrow> buffer \<Rightarrow> buffer result" where
  "append_bytes data b =
     bind_r (ensureWriteableBytes (length data) b)
       (\<lambda>b'. Inr (b'\<lparr>storage := blit (storage b') (writerIndex b') data,
                      writerIndex := writerIndex b' + length data\<rparr>))"

definition hasWritten :: "nat \<Rightarrow> buffer \<Rightarrow> buffer result" where
  "hasWritten len b = asserting (len \<le> writableBytes b) (Inr (b\<lparr>writerIndex := writerIndex b + len\<rparr>))"

definition unwrite :: "nat \<Rightarrow> buffer \<Rightarrow> buffer result" where
  "unwrite len b = asserting (len < readableBytes b) (Inr (b\<lparr>writerIndex := writerIndex b - len\<rparr>))"

text \<open>\<^verbatim>\<open>prepend\<close> moves the reader index back, then copies to the start of the storage.\<close>

definition prepend_bytes :: "bytes \<Rightarrow> buffer \<Rightarrow> buffer result" where
  "prepend_bytes data b =
     asserting (prependableBytes b \<ge> length data)
       (Inr (b\<lparr>readerIndex := readerIndex b - length data, storage := blit (storage b) 0 data\<rparr>))"

text \<open>\<^verbatim>\<open>shrink\<close> releases spare capacity of the vector; its size and contents stay.\<close>

definition shrink :: "nat \<Rightarrow> buffer \<Rightarrow> buffer" where
  "shrink reserve b = b"

section \<open>Reading\<close>

definition retrieveAll :: "buffer \<Rightarrow> buffer" where
  "retrieveAll b = b\<lparr>readerIndex := 0, writerIndex := 0\<rparr>"

definition retrieve :: "nat \<Rightarrow> buffer \<Rightarrow> buffer result" where
  "retrieve len b =
     asserting (len \<le> readableBytes b)
       (Inr (if len < readableBytes b then b\<lparr>readerIndex := readerIndex b + len\<rparr> else retrieveAll b))"

definition retrieveUntil :: "nat \<Rightarrow> buffer \<Rightarrow> buffer result" where
  "retrieveUntil fin b =
     asserting (peek b \<le> fin) (asserting (fin \<le> beginWrite b) (retrieve (fin - peek b) b))"

text \<open>The string is built from \<^verbatim>\<open>begin()\<close>, the start of the storage, not from \<^verbatim>\<open>peek()\<close>.\<close>

definition retrieveAsString :: "nat \<Rightarrow> buffer \<Rightarrow> (bytes \<times> buffer) result" where
  "retrieveAsString len b =
     asserting (len \<le> readableBytes b)
       (let s = block (storage b) 0 len in bind_r (retrieve len b) (\<lambda>b'. Inr (s, b')))"

definition retrieveAllAsString :: "buffer \<Rightarrow> (bytes \<times> buffer) result" where
  "retrieveAllAsString b = retrieveAsString (readableBytes b) b"

section \<open>Searching\<close>

definition findCRLF :: "buffer \<Rightarrow> nat option" where
  "findCRLF b =
     map_option (\<lambda>i. peek b + i)
       (memmem (block (storage b) (peek b) (peek b + readableBytes b)) kCRLF)"

definition findCRLF_from :: "nat \<Rightarrow> buffer \<Rightarrow> nat option result" where
  "findCRLF_from start b =
     asserting (peek b \<le> start) (asserting (start \<le> beginWrite b)
       (Inr (map_option (\<lambda>i. start + i) (memmem (block (storage b) start (beginWrite b)) kCRLF))))"

definition findEOF :: "buffer \<Rightarrow> nat option" where
  "findEOF b =
     map_option (\<lambda>i. peek b + i)
       (memchr (block (storage b) (peek b) (peek b + readableBytes b)) (CHR 0x0A))"

definition findEOF_from :: "nat \<Rightarrow> buffer \<Rightarrow> nat option result" where
  "findEOF_from start b =
     asserting (peek b \<le> start) (asserting (start \<le> beginWrite b)
       (Inr (map_option (\<lambda>i. start + i) (memchr (block (storage b) start (beginWrite b)) (CHR 0x0A)))))"

section \<open>Integers\<close>

text \<open>The bytes of a \<open>k\<close>-byte integer in memory, and the value of one byte as \<^verbatim>\<open>int8_t\<close>.\<close>

definition int_bytes :: "nat \<Rightarrow> 'a::len word \<Rightarrow> bytes" where
  "int_bytes k x = map (\<lambda>i. char_of (unat (drop_bit (8 * i) x))) [0..<k]"

definition int8_of_byte :: "char \<Rightarrow> 8 word" where
  "int8_of_byte c = of_nat (of_char c)"

definition appendInt8 :: "8 word \<Rightarrow> buffer \<Rightarrow> buffer result" where
  "appendInt8 x = append_bytes (int_bytes 1 x)"

definition appendInt16 :: "16 word \<Rightarrow> buffer \<Rightarrow> buffer result" where
  "appendInt16 x = append_bytes (int_bytes 2 x)"

definition appendInt32 :: "32 word \<Rightarrow> buffer \<Rightarrow> buffer result" where
  "appendInt32 x = append_bytes (int_bytes 4 x)"

definition appendInt64 :: "64 word \<Rightarrow> buffer \<Rightarrow> buffer result" where
  "appendInt64 x = append_bytes (int_bytes 8 x)"

definition prependInt8 :: "8 word \<Rightarrow> buffer \<Rightarrow> buffer result" where
  "prependInt8 x = prepend_bytes (int_bytes 1 x)"

definition prependInt16 :: "16 word \<Rightarrow> buffer \<Rightarrow> buffer result" where
  "prependInt16 x = prepend_bytes (int_bytes 2 x)"

definition prependInt32 :: "32 word \<Rightarrow> buffer \<Rightarrow> buffer result" where
  "prependInt32 x = prepend_bytes (int_bytes 4 x)"

definition prependInt64 :: "64 word \<Rightarrow> buffer \<Rightarrow> buffer result" where
  "prependInt64 x = prepend_bytes (int_bytes 8 x)"

text \<open>
  Every \<^verbatim>\<open>peekInt\<close> copies \<open>k\<close> bytes into a local variable of type \<^verbatim>\<open>int8_t\<close>, which has room for
  one: for \<open>k > 1\<close> the copy writes past the variable.
\<close>

definition memcpy_to_int8 :: "nat \<Rightarrow> buffer \<Rightarrow> 8 word result" where
  "memcpy_to_int8 k b = (if k = 1 then Inr (int8_of_byte (storage b ! peek b)) else Inl OutOfBounds)"

definition peekInt8 :: "buffer \<Rightarrow> 8 word result" where
  "peekInt8 b = asserting (readableBytes b \<ge> 1) (memcpy_to_int8 1 b)"

definition peekInt16 :: "buffer \<Rightarrow> 16 word result" where
  "peekInt16 b = asserting (readableBytes b \<ge> 2) (bind_r (memcpy_to_int8 2 b) (\<lambda>e. Inr (scast e)))"

definition peekInt32 :: "buffer \<Rightarrow> 32 word result" where
  "peekInt32 b = asserting (readableBytes b \<ge> 4) (bind_r (memcpy_to_int8 4 b) (\<lambda>e. Inr (scast e)))"

definition peekInt64 :: "buffer \<Rightarrow> 64 word result" where
  "peekInt64 b = asserting (readableBytes b \<ge> 8) (bind_r (memcpy_to_int8 8 b) (\<lambda>e. Inr (scast e)))"

text \<open>Every \<^verbatim>\<open>retrieveInt\<close> retrieves \<^verbatim>\<open>sizeof(int8_t)\<close> bytes, whatever its width.\<close>

definition retrieveInt8 :: "buffer \<Rightarrow> buffer result" where "retrieveInt8 = retrieve 1"
definition retrieveInt16 :: "buffer \<Rightarrow> buffer result" where "retrieveInt16 = retrieve 1"
definition retrieveInt32 :: "buffer \<Rightarrow> buffer result" where "retrieveInt32 = retrieve 1"
definition retrieveInt64 :: "buffer \<Rightarrow> buffer result" where "retrieveInt64 = retrieve 1"

definition readInt8 :: "buffer \<Rightarrow> (8 word \<times> buffer) result" where
  "readInt8 b = bind_r (peekInt8 b) (\<lambda>ret. bind_r (retrieveInt8 b) (\<lambda>b'. Inr (ret, b')))"

definition readInt16 :: "buffer \<Rightarrow> (16 word \<times> buffer) result" where
  "readInt16 b = bind_r (peekInt16 b) (\<lambda>ret. bind_r (retrieveInt16 b) (\<lambda>b'. Inr (ret, b')))"

definition readInt32 :: "buffer \<Rightarrow> (32 word \<times> buffer) result" where
  "readInt32 b = bind_r (peekInt32 b) (\<lambda>ret. bind_r (retrieveInt32 b) (\<lambda>b'. Inr (ret, b')))"

definition readInt64 :: "buffer \<Rightarrow> (64 word \<times> buffer) result" where
  "readInt64 b = bind_r (peekInt64 b) (\<lambda>ret. bind_r (retrieveInt64 b) (\<lambda>b'. Inr (ret, b')))"

section \<open>Reading from a descriptor\<close>

text \<open>
  \<^verbatim>\<open>readv\<close> is the operating system's: it either fails with an error number or delivers some
  bytes, filling the first vector (the writable space) before the second (the 64 KiB
  \<^verbatim>\<open>extrabuf\<close>, passed only when the writable space is smaller than it). The outcome is an
  argument; \<open>iov_capacity\<close> is what the vectors hold. The part of \<^verbatim>\<open>extrabuf\<close> the call did not
  fill is uninitialised, and reading it is a fault.
\<close>

datatype io_in = ReadError int | ReadBytes bytes

definition extrabuf_size :: nat where "extrabuf_size = 65536"

definition iov_capacity :: "buffer \<Rightarrow> nat" where
  "iov_capacity b = writableBytes b + (if writableBytes b < extrabuf_size then extrabuf_size else 0)"

definition readFd :: "io_in \<Rightarrow> buffer \<Rightarrow> (int \<times> int option \<times> buffer) result" where
  "readFd io b =
     (let writable = writableBytes b in
      case io of
        ReadError e \<Rightarrow> Inr (-1, Some e, b)
      | ReadBytes d \<Rightarrow>
          let n = length d;
              b1 = b\<lparr>storage := blit (storage b) (writerIndex b) (take writable d)\<rparr>;
              extrabuf = (if writable < extrabuf_size then take extrabuf_size (drop writable d) else [])
          in if n \<le> writable
             then Inr (int n, None, b1\<lparr>writerIndex := writerIndex b + n\<rparr>)
             else if length extrabuf < n - writable then Inl OutOfBounds
             else bind_r (append_bytes (take (n - writable) extrabuf)
                            (b1\<lparr>writerIndex := length (storage b1)\<rparr>))
                    (\<lambda>b2. Inr (int n, None, b2)))"

section \<open>The invariant and the abstraction\<close>

text \<open>
  The indices are in order and inside the storage. Under it \<^verbatim>\<open>writerIndex_ - readerIndex_\<close> and
  \<^verbatim>\<open>buffer_.size() - writerIndex_\<close> never wrap. The readable bytes are the buffer's contents.
\<close>

definition buffer_inv :: "buffer \<Rightarrow> bool" where
  "buffer_inv b \<longleftrightarrow> readerIndex b \<le> writerIndex b \<and> writerIndex b \<le> length (storage b)"

definition contents :: "buffer \<Rightarrow> bytes" where
  "contents b = block (storage b) (readerIndex b) (writerIndex b)"

lemmas buffer_defs = readableBytes_def writableBytes_def prependableBytes_def peek_def beginWrite_def

lemma length_contents: "buffer_inv b \<Longrightarrow> length (contents b) = readableBytes b"
  by (simp add: contents_def buffer_inv_def readableBytes_def length_block)

lemma block_peek: "buffer_inv b \<Longrightarrow> block (storage b) (peek b) (peek b + readableBytes b) = contents b"
  by (simp add: contents_def buffer_inv_def buffer_defs)

lemma new_buffer_iff: "new_buffer n = Inr b \<longleftrightarrow> n = kInitialSize \<and>
    b = \<lparr>storage = replicate 4096 (CHR 0x00), readerIndex = 8, writerIndex = 8\<rparr>"
  by (auto simp: new_buffer_def result_simps Let_def buffer_defs kCheapPrepend_def kInitialSize_def)

lemma new_buffer_inv: "new_buffer n = Inr b \<Longrightarrow> buffer_inv b \<and> contents b = []"
  by (simp add: new_buffer_iff buffer_inv_def contents_def)

subsection \<open>Writing\<close>

lemma vec_resize_grow: "length v \<le> n \<Longrightarrow> vec_resize v n = v @ replicate (n - length v) (CHR 0x00)"
  by (simp add: vec_resize_def)

text \<open>
  When \<open>makeSpace\<close> is called by \<open>ensureWriteableBytes\<close>, its assertion
  \<^verbatim>\<open>kCheapPrepend < readerIndex_\<close> holds: too little writable space in total enough space means
  that the reader index has left the prepend area.
\<close>

lemma makeSpace_ok:
  assumes inv: "buffer_inv b" and short: "writableBytes b < len"
  shows "\<exists>b'. makeSpace len b = Inr b' \<and> buffer_inv b' \<and> contents b' = contents b \<and> len \<le> writableBytes b'"
proof (cases "writableBytes b + prependableBytes b < len + kCheapPrepend")
  case True
  with inv short show ?thesis
    by (simp add: makeSpace_def buffer_inv_def contents_def writableBytes_def vec_resize_grow
        block_append_left)
next
  case False
  let ?d = "contents b"
  let ?b' = "b\<lparr>storage := blit (storage b) kCheapPrepend ?d, readerIndex := kCheapPrepend,
    writerIndex := kCheapPrepend + length ?d\<rparr>"
  have len: "length ?d = writerIndex b - readerIndex b"
    using inv by (simp add: length_contents readableBytes_def)
  have fits: "kCheapPrepend + length ?d + len \<le> length (storage b)" and lt: "kCheapPrepend < readerIndex b"
    using False short inv by (auto simp: len buffer_inv_def buffer_defs)
  have "makeSpace len b = Inr ?b'"
    using False lt len by (simp add: makeSpace_def Let_def contents_def [symmetric] buffer_defs)
  moreover have "buffer_inv ?b'" and "len \<le> writableBytes ?b'"
    using fits by (simp_all add: buffer_inv_def length_blit writableBytes_def)
  moreover have "contents ?b' = ?d"
    using fits by (simp add: contents_def [of ?b'] block_blit_at)
  ultimately show ?thesis by blast
qed

lemma ensureWriteableBytes_ok:
  assumes "buffer_inv b"
  shows "\<exists>b'. ensureWriteableBytes len b = Inr b' \<and> buffer_inv b' \<and> contents b' = contents b \<and> len \<le> writableBytes b'"
proof (cases "writableBytes b < len")
  case True
  from makeSpace_ok [OF assms True] True show ?thesis by (auto simp: ensureWriteableBytes_def)
next
  case False
  with assms show ?thesis by (simp add: ensureWriteableBytes_def)
qed

lemma write_at_end:
  assumes "buffer_inv b" and "length d \<le> writableBytes b"
  defines "b' \<equiv> b\<lparr>storage := blit (storage b) (writerIndex b) d, writerIndex := writerIndex b + length d\<rparr>"
  shows "buffer_inv b'" and "contents b' = contents b @ d"
  using assms
  by (auto simp: buffer_inv_def contents_def writableBytes_def length_blit block_blit_span)

lemma append_bytes_ok:
  assumes "buffer_inv b"
  shows "\<exists>b'. append_bytes d b = Inr b' \<and> buffer_inv b' \<and> contents b' = contents b @ d"
proof -
  from ensureWriteableBytes_ok [OF assms, of "length d"] obtain b1 where
    b1: "ensureWriteableBytes (length d) b = Inr b1" "buffer_inv b1" "contents b1 = contents b"
      "length d \<le> writableBytes b1" by blast
  from write_at_end [OF b1(2,4)] b1(1,3) show ?thesis by (simp add: append_bytes_def)
qed

lemma append_bytes_Inr:
  "buffer_inv b \<Longrightarrow> append_bytes d b = Inr b' \<Longrightarrow> buffer_inv b' \<and> contents b' = contents b @ d"
  using append_bytes_ok [of b d] by auto

subsection \<open>Reading\<close>

lemma retrieveAll_inv: "buffer_inv (retrieveAll b)" and contents_retrieveAll: "contents (retrieveAll b) = []"
  by (simp_all add: buffer_inv_def retrieveAll_def contents_def)

lemma retrieve_ok:
  assumes "buffer_inv b" and "n \<le> readableBytes b"
  shows "\<exists>b'. retrieve n b = Inr b' \<and> buffer_inv b' \<and> contents b' = drop n (contents b)"
proof (cases "n < readableBytes b")
  case True
  then have "buffer_inv (b\<lparr>readerIndex := readerIndex b + n\<rparr>)"
    by (auto simp: buffer_inv_def readableBytes_def) (use assms in \<open>simp add: buffer_inv_def\<close>)
  with True show ?thesis by (simp add: retrieve_def contents_def block_drop)
next
  case False
  with assms show ?thesis
    by (simp add: retrieve_def retrieveAll_inv contents_retrieveAll length_contents)
qed

lemma retrieve_fault: "readableBytes b < n \<Longrightarrow> retrieve n b = Inl AssertFail"
  by (simp add: retrieve_def)

lemma retrieveUntil_ok:
  assumes "buffer_inv b" and "peek b \<le> p" and "p \<le> beginWrite b"
  shows "\<exists>b'. retrieveUntil p b = Inr b' \<and> buffer_inv b' \<and> contents b' = drop (p - peek b) (contents b)"
  using retrieve_ok [OF assms(1), of "p - peek b"] assms(2,3)
  by (auto simp: retrieveUntil_def buffer_defs)

section \<open>The contract of the buffer\<close>

text \<open>
  A byte queue: bytes go in at the back and come out at the front. The reference semantics of
  a sequence of operations is \<open>queue_run\<close> on byte lists; \<open>None\<close> is a retrieval of more bytes
  than the queue holds.
\<close>

datatype queue_op = Put bytes | Get nat

fun queue_run :: "queue_op list \<Rightarrow> bytes \<Rightarrow> bytes option" where
  "queue_run [] q = Some q"
| "queue_run (Put d # ops) q = queue_run ops (q @ d)"
| "queue_run (Get n # ops) q = (if n \<le> length q then queue_run ops (drop n q) else None)"

locale byte_queue =
  fixes invar :: "'b \<Rightarrow> bool"
    and queue :: "'b \<Rightarrow> bytes"
    and put :: "bytes \<Rightarrow> 'b \<Rightarrow> 'b result"
    and get :: "nat \<Rightarrow> 'b \<Rightarrow> 'b result"
  assumes put_ok: "invar b \<Longrightarrow> \<exists>b'. put d b = Inr b' \<and> invar b' \<and> queue b' = queue b @ d"
    and get_ok: "invar b \<Longrightarrow> n \<le> length (queue b) \<Longrightarrow>
      \<exists>b'. get n b = Inr b' \<and> invar b' \<and> queue b' = drop n (queue b)"
    and get_fault: "invar b \<Longrightarrow> length (queue b) < n \<Longrightarrow> get n b = Inl AssertFail"
begin

lemma put_Inr: "invar b \<Longrightarrow> put d b = Inr b' \<Longrightarrow> invar b' \<and> queue b' = queue b @ d"
  using put_ok [of b d] by auto

lemma put_all:
  "invar b \<Longrightarrow> \<exists>b'. for_r ds put b = Inr b' \<and> invar b' \<and> queue b' = queue b @ concat ds"
proof (induction ds arbitrary: b)
  case Nil
  then show ?case by simp
next
  case (Cons d ds)
  from put_ok [OF Cons.prems] obtain b1 where
    b1: "put d b = Inr b1" "invar b1" "queue b1 = queue b @ d" by blast
  from Cons.IH [OF b1(2)] b1 show ?case by auto
qed

lemma run_refines:
  assumes "invar b"
  shows "case queue_run ops (queue b) of
      None \<Rightarrow> for_r ops (case_queue_op put get) b = Inl AssertFail
    | Some q \<Rightarrow> \<exists>b'. for_r ops (case_queue_op put get) b = Inr b' \<and> invar b' \<and> queue b' = q"
  using assms
proof (induction ops arbitrary: b)
  case Nil
  then show ?case by simp
next
  case (Cons op ops)
  show ?case
  proof (cases op)
    case (Put d)
    obtain b1 where "put d b = Inr b1" "invar b1" "queue b1 = queue b @ d"
      using put_ok [OF Cons.prems] by blast
    with Put Cons.IH [of b1] show ?thesis by (simp split: option.splits)
  next
    case (Get n)
    show ?thesis
    proof (cases "n \<le> length (queue b)")
      case True
      obtain b1 where "get n b = Inr b1" "invar b1" "queue b1 = drop n (queue b)"
        using get_ok [OF Cons.prems True] by blast
      with Get True Cons.IH [of b1] show ?thesis by (simp split: option.splits)
    next
      case False
      with Get Cons.prems show ?thesis by (simp add: get_fault)
    qed
  qed
qed

end

interpretation bq: byte_queue buffer_inv contents append_bytes retrieve
proof unfold_locales
  fix b n d
  assume inv: "buffer_inv b"
  show "\<exists>b'. append_bytes d b = Inr b' \<and> buffer_inv b' \<and> contents b' = contents b @ d"
    by (rule append_bytes_ok [OF inv])
  show "n \<le> length (contents b) \<Longrightarrow>
      \<exists>b'. retrieve n b = Inr b' \<and> buffer_inv b' \<and> contents b' = drop n (contents b)"
    using retrieve_ok [OF inv] by (simp add: length_contents [OF inv])
  show "length (contents b) < n \<Longrightarrow> retrieve n b = Inl AssertFail"
    by (simp add: length_contents [OF inv] retrieve_fault)
qed

section \<open>Searching\<close>

lemma findCRLF_contents:
  "buffer_inv b \<Longrightarrow> findCRLF b = map_option (\<lambda>i. peek b + i) (memmem (contents b) kCRLF)"
  by (simp add: findCRLF_def block_peek)

lemma findCRLF_bounds:
  assumes "buffer_inv b" and "findCRLF b = Some p"
  shows "peek b \<le> p" and "p + 2 \<le> beginWrite b"
proof -
  from assms obtain i where i: "memmem (contents b) kCRLF = Some i" "p = peek b + i"
    by (auto simp: findCRLF_contents)
  from memmem_bound [OF i(1)] assms(1) have "i + 2 \<le> readableBytes b"
    by (simp add: length_contents kCRLF_def)
  with assms(1) i(2) show "peek b \<le> p" and "p + 2 \<le> beginWrite b"
    by (auto simp: buffer_inv_def buffer_defs)
qed

section \<open>Properties\<close>

text \<open>
  C1 (refinement). Any sequence of appends and retrievals on a buffer behaves as on a byte
  queue: if the queue semantics accepts the sequence, no assertion of the buffer code fires,
  the index invariant is kept and the readable bytes are the queue's; if it retrieves more
  bytes than there are, the buffer's assertion stops it there. This covers both branches of
  \<^verbatim>\<open>makeSpace\<close> (growing and moving the readable bytes to the front).
\<close>

theorem buffer_refines_queue:
  assumes "buffer_inv b"
  shows "case queue_run ops (contents b) of
      None \<Rightarrow> for_r ops (case_queue_op append_bytes retrieve) b = Inl AssertFail
    | Some q \<Rightarrow> \<exists>b'. for_r ops (case_queue_op append_bytes retrieve) b = Inr b' \<and>
        buffer_inv b' \<and> contents b' = q"
  using assms by (rule bq.run_refines)

theorem buffer_refines_queue_witness:
  "\<exists>b'. for_r [Put ''abc'', Get 2, Put ''de'', Get 1] (case_queue_op append_bytes retrieve)
      \<lparr>storage = replicate 10 (CHR 0x00), readerIndex = 8, writerIndex = 8\<rparr> = Inr b' \<and>
    contents b' = ''de''"
  using buffer_refines_queue [of "\<lparr>storage = replicate 10 (CHR 0x00), readerIndex = 8, writerIndex = 8\<rparr>"
      "[Put ''abc'', Get 2, Put ''de'', Get 1]"]
  by (auto simp: buffer_inv_def contents_def)

lemma readFd_Inr:
  assumes inv: "buffer_inv b" and cap: "length d \<le> iov_capacity b"
  shows "\<exists>b'. readFd (ReadBytes d) b = Inr (int (length d), None, b') \<and> buffer_inv b' \<and>
    contents b' = contents b @ d"
proof (cases "length d \<le> writableBytes b")
  case True
  with write_at_end [OF inv True] show ?thesis by (simp add: readFd_def Let_def)
next
  case False
  let ?w = "writableBytes b"
  let ?b1 = "b\<lparr>storage := blit (storage b) (writerIndex b) (take ?w d)\<rparr>"
  let ?b2 = "?b1\<lparr>writerIndex := length (storage ?b1)\<rparr>"
  have small: "?w < extrabuf_size" and fits: "length d \<le> ?w + extrabuf_size"
    using False cap by (auto simp: iov_capacity_def split: if_splits)
  have full: "length (blit (storage b) (writerIndex b) (take ?w d)) = writerIndex b + length (take ?w d)"
    using False inv by (simp add: buffer_inv_def writableBytes_def length_blit)
  have "buffer_inv ?b2" and "contents ?b2 = contents b @ take ?w d"
    using write_at_end [OF inv, of "take ?w d"] by (simp_all add: full)
  with append_bytes_ok [of ?b2 "drop ?w d"] False small fits show ?thesis
    by (auto simp: readFd_def Let_def)
qed

text \<open>
  C11 (functional). Whatever \<^verbatim>\<open>readv\<close> delivers within the vectors it was given, \<^verbatim>\<open>readFd\<close>
  appends exactly those bytes to the readable ones, also when they overflow the writable
  space into the stack buffer, and returns their number; on an error of \<^verbatim>\<open>readv\<close> it hands
  over the error number and leaves the buffer alone.
\<close>

theorem readFd_appends:
  assumes "buffer_inv b" and "length d \<le> iov_capacity b"
  shows "(\<exists>b'. readFd (ReadBytes d) b = Inr (int (length d), None, b') \<and> buffer_inv b' \<and>
      contents b' = contents b @ d) \<and> readFd (ReadError e) b = Inr (-1, Some e, b)"
  using readFd_Inr [OF assms] by (simp add: readFd_def)

theorem readFd_appends_witness:
  "\<exists>b'. readFd (ReadBytes ''wxyz'') \<lparr>storage = ''........ab..'', readerIndex = 8, writerIndex = 10\<rparr>
      = Inr (4, None, b') \<and> contents b' = ''abwxyz''"
  using readFd_appends [of "\<lparr>storage = ''........ab..'', readerIndex = 8, writerIndex = 10\<rparr>" "''wxyz''" 0]
  by (auto simp: buffer_inv_def contents_def block_def iov_capacity_def writableBytes_def extrabuf_size_def)

text \<open>
  \<^verbatim>\<open>findCRLF\<close> returns the first position of a carriage return followed by a
  line feed among the readable bytes, and no position exactly when there is none.
\<close>

theorem findCRLF_first:
  assumes "buffer_inv b"
  shows "(findCRLF b = Some p \<longleftrightarrow> peek b \<le> p \<and> take 2 (drop (p - peek b) (contents b)) = kCRLF \<and>
      (\<forall>k < p - peek b. take 2 (drop k (contents b)) \<noteq> kCRLF)) \<and>
    (findCRLF b = None \<longleftrightarrow> (\<forall>k. take 2 (drop k (contents b)) \<noteq> kCRLF))"
proof -
  have ne: "kCRLF \<noteq> []" and len: "length kCRLF = 2" by (simp_all add: kCRLF_def)
  have "findCRLF b = Some p \<longleftrightarrow> peek b \<le> p \<and> memmem (contents b) kCRLF = Some (p - peek b)"
    using assms by (auto simp: findCRLF_contents)
  with assms show ?thesis
    by (simp add: findCRLF_contents memmem_Some_iff [OF ne] memmem_None_iff [OF ne] len)
qed

theorem findCRLF_first_witness:
  "findCRLF \<lparr>storage = ''..a'' @ kCRLF @ ''b'', readerIndex = 2, writerIndex = 6\<rparr> = Some 3"
  using findCRLF_first [of "\<lparr>storage = ''..a'' @ kCRLF @ ''b'', readerIndex = 2, writerIndex = 6\<rparr>" 3]
  by (simp add: buffer_inv_def contents_def block_def kCRLF_def peek_def less_Suc_eq numeral_2_eq_2)

text \<open>
  \<^verbatim>\<open>retrieveAllAsString\<close> takes its string from the start of the storage: on a
  fresh buffer to which at most eight bytes were appended it returns that many zero bytes of
  the prepend area instead of the data, and drops the data; it returns the readable bytes
  when the reader index is 0, as it is after a \<^verbatim>\<open>retrieveAll\<close>.
\<close>

theorem retrieveAllAsString_source:
  assumes "buffer_inv b"
  shows "(new_buffer kInitialSize = Inr b0 \<and> append_bytes d b0 = Inr b1 \<and> length d \<le> 8 \<longrightarrow>
      (\<exists>b2. retrieveAllAsString b1 = Inr (replicate (length d) (CHR 0x00), b2) \<and> contents b2 = [])) \<and>
    (readerIndex b = 0 \<longrightarrow> (\<exists>b'. retrieveAllAsString b = Inr (contents b, b') \<and> contents b' = []))"
proof (intro conjI impI)
  assume h: "new_buffer kInitialSize = Inr b0 \<and> append_bytes d b0 = Inr b1 \<and> length d \<le> 8"
  then have b0: "b0 = \<lparr>storage = replicate 4096 (CHR 0x00), readerIndex = 8, writerIndex = 8\<rparr>"
    by (simp add: new_buffer_iff)
  with h have b1: "b1 = b0\<lparr>storage := blit (storage b0) 8 d, writerIndex := 8 + length d\<rparr>"
    by (auto simp: append_bytes_def ensureWriteableBytes_def writableBytes_def)
  have inv: "buffer_inv b1" and rd: "readableBytes b1 = length d"
    using h by (simp_all add: b1 b0 buffer_inv_def readableBytes_def blit_def)
  have "take (length d) (storage b1) = replicate (length d) (CHR 0x00)"
    using h by (simp add: b1 b0 blit_def min_def)
  with retrieve_ok [OF inv, of "length d"] show
    "\<exists>b2. retrieveAllAsString b1 = Inr (replicate (length d) (CHR 0x00), b2) \<and> contents b2 = []"
    by (auto simp: retrieveAllAsString_def retrieveAsString_def rd length_contents [OF inv])
next
  assume "readerIndex b = 0"
  then have "take (readableBytes b) (storage b) = contents b"
    by (simp add: contents_def readableBytes_def)
  with retrieve_ok [OF assms, of "readableBytes b"] show
    "\<exists>b'. retrieveAllAsString b = Inr (contents b, b') \<and> contents b' = []"
    by (auto simp: retrieveAllAsString_def retrieveAsString_def length_contents [OF assms])
qed

theorem retrieveAllAsString_source_witness:
  "\<exists>b1 b2. append_bytes ''abc'' \<lparr>storage = replicate 4096 (CHR 0x00), readerIndex = 8, writerIndex = 8\<rparr>
      = Inr b1 \<and> retrieveAllAsString b1 = Inr (replicate 3 (CHR 0x00), b2)"
proof -
  let ?b0 = "\<lparr>storage = replicate 4096 (CHR 0x00), readerIndex = 8, writerIndex = 8\<rparr>"
  have b0: "new_buffer kInitialSize = Inr ?b0" by (simp add: new_buffer_iff)
  have inv: "buffer_inv ?b0" by (simp add: buffer_inv_def)
  obtain b1 where b1: "append_bytes ''abc'' ?b0 = Inr b1" using append_bytes_ok [OF inv] by blast
  show ?thesis using retrieveAllAsString_source [OF inv, of ?b0 "''abc''" b1] b0 b1
    by (auto simp: numeral_eq_Suc)
qed

lemma int8_roundtrip: "int8_of_byte (char_of (unat x)) = x"
proof -
  have "unat x < 256" using unsigned_less [of x] by simp
  then show ?thesis by (simp add: int8_of_byte_def)
qed

lemma int_bytes_1: "int_bytes (Suc 0) (x :: 8 word) = [char_of (unat x)]"
  by (simp add: int_bytes_def)

lemma length_int_bytes [simp]: "length (int_bytes k x) = k"
  by (simp add: int_bytes_def)

lemma nth_peek: "buffer_inv b \<Longrightarrow> contents b = c # cs \<Longrightarrow> storage b ! peek b = c"
  using nth_block [of "readerIndex b" 0 "writerIndex b" "storage b"]
  by (cases "readerIndex b < writerIndex b") (auto simp: contents_def buffer_inv_def peek_def block_def)

lemma readInt8_Cons:
  assumes inv: "buffer_inv b" and c: "contents b = c # cs"
  shows "\<exists>b'. readInt8 b = Inr (int8_of_byte c, b') \<and> buffer_inv b' \<and> contents b' = cs"
proof -
  have "readableBytes b = Suc (length cs)"
    using length_contents [OF inv] c by simp
  with retrieve_ok [OF inv, of 1] show ?thesis
    by (auto simp: readInt8_def peekInt8_def memcpy_to_int8_def nth_peek [OF inv c] retrieveInt8_def c)
qed

text \<open>
  An 8-bit integer appended to a buffer that holds nothing to read comes back
  from \<^verbatim>\<open>readInt8\<close> and leaves nothing to read; the 16, 32 and 64 bit readers never return a
  value, since they copy their bytes into an 8-bit variable.
\<close>

theorem readInt_roundtrip:
  assumes "buffer_inv b" and "contents b = []"
  shows "(\<exists>b1 b2. appendInt8 x b = Inr b1 \<and> readInt8 b1 = Inr (x, b2) \<and> contents b2 = []) \<and>
    (\<forall>b'. (\<nexists>r. readInt16 b' = Inr r) \<and> (\<nexists>r. readInt32 b' = Inr r) \<and> (\<nexists>r. readInt64 b' = Inr r))"
proof (intro conjI allI)
  obtain b1 where b1: "appendInt8 x b = Inr b1" "buffer_inv b1" "contents b1 = [char_of (unat x)]"
    using append_bytes_ok [OF assms(1), of "int_bytes 1 x"] assms(2)
    by (auto simp: appendInt8_def int_bytes_1)
  from readInt8_Cons [OF b1(2,3)] b1(1)
  show "\<exists>b1 b2. appendInt8 x b = Inr b1 \<and> readInt8 b1 = Inr (x, b2) \<and> contents b2 = []"
    by (auto simp: int8_roundtrip)
qed (simp_all add: readInt16_def readInt32_def readInt64_def peekInt16_def peekInt32_def peekInt64_def
    memcpy_to_int8_def result_simps)

theorem readInt_roundtrip_witness:
  "\<exists>b1 b2. appendInt8 200 \<lparr>storage = ''........'', readerIndex = 8, writerIndex = 8\<rparr> = Inr b1 \<and>
    readInt8 b1 = Inr (200, b2)"
  using readInt_roundtrip [of "\<lparr>storage = ''........'', readerIndex = 8, writerIndex = 8\<rparr>" 200]
  by (auto simp: buffer_inv_def contents_def)

text \<open>
  \<^verbatim>\<open>prepend\<close> puts its bytes before the readable ones exactly in the case that
  they fill the whole space before the reader index; a 32-bit integer prepended to a fresh
  buffer is not readable afterwards: the four readable bytes are zeros of the prepend area.
\<close>

theorem prepend_position:
  assumes "buffer_inv b" and "length d = readerIndex b"
  shows "(\<exists>b'. prepend_bytes d b = Inr b' \<and> buffer_inv b' \<and> contents b' = d @ contents b) \<and>
    (new_buffer kInitialSize = Inr b0 \<longrightarrow>
      (\<exists>b1. prependInt32 x b0 = Inr b1 \<and> contents b1 = replicate 4 (CHR 0x00)))"
proof (intro conjI impI)
  show "\<exists>b'. prepend_bytes d b = Inr b' \<and> buffer_inv b' \<and> contents b' = d @ contents b"
    using assms
    by (auto simp: prepend_bytes_def prependableBytes_def buffer_inv_def contents_def block_def blit_def)
  assume "new_buffer kInitialSize = Inr b0"
  then have "b0 = \<lparr>storage = replicate 4096 (CHR 0x00), readerIndex = 8, writerIndex = 8\<rparr>"
    by (simp add: new_buffer_iff)
  then show "\<exists>b1. prependInt32 x b0 = Inr b1 \<and> contents b1 = replicate 4 (CHR 0x00)"
    by (simp add: prependInt32_def prepend_bytes_def prependableBytes_def contents_def block_def blit_def)
qed

theorem prepend_position_witness:
  "\<exists>b'. prepend_bytes ''hi'' \<lparr>storage = ''..abc'', readerIndex = 2, writerIndex = 5\<rparr> = Inr b' \<and>
    contents b' = ''hiabc''"
  using prepend_position [of "\<lparr>storage = ''..abc'', readerIndex = 2, writerIndex = 5\<rparr>" "''hi''"
      "\<lparr>storage = ''..abc'', readerIndex = 2, writerIndex = 5\<rparr>" 0]
  by (auto simp: buffer_inv_def contents_def block_def)

end
