(* ===== verification/Std_Containers.thy ===== *)
theory Std_Containers
  imports Tundra_Prelude
begin

text \<open>
  The ordered containers of the C++ standard library that the program keeps its state in:
  \<^verbatim>\<open>std::set\<close> as a strictly increasing list and \<^verbatim>\<open>std::map\<close> as an association list with
  strictly increasing keys, so that iteration order is list order. Each container's
  contract is a locale (\<open>ordered_set\<close>, \<open>ordered_map\<close>) with the lemmas its clients use; the
  lists are interpretations of them.
\<close>

section \<open>std::set\<close>

text \<open>\<^verbatim>\<open>insert\<close> also says whether it inserted, \<^verbatim>\<open>erase\<close> how many elements it removed.\<close>

definition set_insert :: "'a::linorder \<Rightarrow> 'a list \<Rightarrow> 'a list \<times> bool" where
  "set_insert x s = (insort_insert x s, x \<notin> set s)"

definition set_erase :: "'a::linorder \<Rightarrow> 'a list \<Rightarrow> 'a list \<times> nat" where
  "set_erase x s = (filter (\<lambda>y. y \<noteq> x) s, if x \<in> set s then 1 else 0)"

text \<open>The elements before and from \<^verbatim>\<open>lower_bound(x)\<close>, the first element that is not less.\<close>

definition lower_bound :: "'a::linorder \<Rightarrow> 'a list \<Rightarrow> 'a list \<times> 'a list" where
  "lower_bound x s = (takeWhile (\<lambda>y. y < x) s, dropWhile (\<lambda>y. y < x) s)"

abbreviation strict_sorted :: "'a::linorder list \<Rightarrow> bool" where
  "strict_sorted \<equiv> sorted_wrt (<)"

locale ordered_set =
  fixes invar :: "'s \<Rightarrow> bool"
    and elems :: "'s \<Rightarrow> 'a set"
    and insert :: "'a \<Rightarrow> 's \<Rightarrow> 's \<times> bool"
    and erase :: "'a \<Rightarrow> 's \<Rightarrow> 's \<times> nat"
    and size :: "'s \<Rightarrow> nat"
  assumes finite_elems: "finite (elems s)"
    and size_card: "invar s \<Longrightarrow> size s = card (elems s)"
    and invar_insert: "invar s \<Longrightarrow> invar (fst (insert x s))"
    and elems_insert: "elems (fst (insert x s)) = {x} \<union> elems s"
    and insert_new: "snd (insert x s) \<longleftrightarrow> x \<notin> elems s"
    and invar_erase: "invar s \<Longrightarrow> invar (fst (erase x s))"
    and elems_erase: "elems (fst (erase x s)) = elems s - {x}"
    and erase_count: "snd (erase x s) = (if x \<in> elems s then 1 else 0)"
begin

lemma size_insert:
  "invar s \<Longrightarrow> size (fst (insert x s)) = (if snd (insert x s) then Suc (size s) else size s)"
  by (simp add: size_card invar_insert elems_insert insert_new finite_elems insert_absorb)

lemma size_erase: "invar s \<Longrightarrow> size (fst (erase x s)) + snd (erase x s) = size s"
  using card_Suc_Diff1 [OF finite_elems, of x s]
  by (auto simp: size_card invar_erase elems_erase erase_count)

text \<open>
  Two sets that a client updates together keep equal sizes: the bookkeeping every
  \<^verbatim>\<open>assert(timers_.size() == activeTimers_.size())\<close> relies on.
\<close>

lemma size_eq_of_inj_image:
  assumes "invar s" and "inj_on f A" and "elems s = f ` A"
  shows "size s = card A"
  using assms by (simp add: size_card card_image)

end

lemma set_insort_insert_strict: "strict_sorted s \<Longrightarrow> strict_sorted (insort_insert x s)"
  by (auto simp: strict_sorted_iff sorted_insort_insert distinct_insort_insert)

lemma strict_sorted_distinct: "strict_sorted s \<Longrightarrow> distinct s"
  by (simp add: strict_sorted_iff)

lemma strict_sorted_filter: "strict_sorted s \<Longrightarrow> strict_sorted (filter P s)"
  by (rule sorted_wrt_filter)

interpretation os: ordered_set "strict_sorted :: 'a::linorder list \<Rightarrow> bool" set set_insert set_erase length
  by unfold_locales
    (auto simp: set_insert_def set_erase_def set_insort_insert set_insort_insert_strict
      strict_sorted_filter distinct_card [symmetric] strict_sorted_distinct)

lemma lower_bound_append: "fst (lower_bound x s) @ snd (lower_bound x s) = s"
  by (simp add: lower_bound_def)

lemma lower_bound_set:
  assumes "strict_sorted s"
  shows "set (fst (lower_bound x s)) = {y \<in> set s. y < x}"
    and "set (snd (lower_bound x s)) = {y \<in> set s. \<not> y < x}"
proof -
  have "set (takeWhile (\<lambda>y. y < x) s) = {y \<in> set s. y < x} \<and>
    set (dropWhile (\<lambda>y. y < x) s) = {y \<in> set s. \<not> y < x}"
    using assms
  proof (induction s)
    case (Cons a s)
    have "\<not> a < x \<Longrightarrow> y \<in> set s \<Longrightarrow> \<not> y < x" for y
      using Cons.prems less_trans [of a y x] by auto
    with Cons show ?case by (cases "a < x") auto
  qed simp
  then show "set (fst (lower_bound x s)) = {y \<in> set s. y < x}"
    and "set (snd (lower_bound x s)) = {y \<in> set s. \<not> y < x}"
    by (simp_all add: lower_bound_def)
qed

lemma lower_bound_sorted:
  assumes "strict_sorted s"
  shows "strict_sorted (fst (lower_bound x s))" and "strict_sorted (snd (lower_bound x s))"
proof -
  have "strict_sorted (fst (lower_bound x s) @ snd (lower_bound x s))"
    using assms by (simp only: lower_bound_append)
  then show "strict_sorted (fst (lower_bound x s))" and "strict_sorted (snd (lower_bound x s))"
    by (simp_all only: sorted_wrt_append)
qed

lemma lower_bound_filter:
  assumes "strict_sorted s"
  shows "lower_bound x s = (filter (\<lambda>y. y < x) s, filter (\<lambda>y. \<not> y < x) s)"
  using assms
proof (induction s)
  case (Cons a s)
  show ?case
  proof (cases "a < x")
    case True
    with Cons show ?thesis by (simp add: lower_bound_def)
  next
    case False
    with Cons.prems have "\<forall>y \<in> set s. \<not> y < x" using less_trans [of a _ x] by auto
    with False show ?thesis by (simp add: lower_bound_def)
  qed
qed (simp add: lower_bound_def)

section \<open>std::map\<close>

text \<open>\<open>map_set k v m\<close> is the effect of \<^verbatim>\<open>m[k] = v\<close>; \<^verbatim>\<open>find\<close> is \<open>map_of\<close>.\<close>

fun map_set :: "'k::linorder \<Rightarrow> 'v \<Rightarrow> ('k \<times> 'v) list \<Rightarrow> ('k \<times> 'v) list" where
  "map_set k v [] = [(k, v)]"
| "map_set k v ((k', v') # m) =
     (if k < k' then (k, v) # (k', v') # m
      else if k = k' then (k, v) # m
      else (k', v') # map_set k v m)"

definition map_erase :: "'k::linorder \<Rightarrow> ('k \<times> 'v) list \<Rightarrow> ('k \<times> 'v) list \<times> nat" where
  "map_erase k m = (filter (\<lambda>e. fst e \<noteq> k) m, if k \<in> fst ` set m then 1 else 0)"

abbreviation map_invar :: "('k::linorder \<times> 'v) list \<Rightarrow> bool" where
  "map_invar m \<equiv> strict_sorted (map fst m)"

locale ordered_map =
  fixes invar :: "'m \<Rightarrow> bool"
    and lookup :: "'m \<Rightarrow> 'k \<rightharpoonup> 'v"
    and empty :: "'m"
    and assign :: "'k \<Rightarrow> 'v \<Rightarrow> 'm \<Rightarrow> 'm"
    and erase :: "'k \<Rightarrow> 'm \<Rightarrow> 'm \<times> nat"
  assumes invar_empty: "invar empty"
    and lookup_empty: "lookup empty = Map.empty"
    and invar_assign: "invar m \<Longrightarrow> invar (assign k v m)"
    and lookup_assign: "invar m \<Longrightarrow> lookup (assign k v m) = (lookup m)(k \<mapsto> v)"
    and invar_erase: "invar m \<Longrightarrow> invar (fst (erase k m))"
    and lookup_erase: "invar m \<Longrightarrow> lookup (fst (erase k m)) = (lookup m)(k := None)"
    and erase_count: "snd (erase k m) = (if lookup m k = None then 0 else 1)"
begin

text \<open>A sequence of assignments: the last one to a key wins.\<close>

definition assign_all :: "('k \<times> 'v) list \<Rightarrow> 'm \<Rightarrow> 'm" where
  "assign_all kvs m = fold (\<lambda>(k, v). assign k v) kvs m"

lemma invar_assign_all: "invar m \<Longrightarrow> invar (assign_all kvs m)"
  unfolding assign_all_def by (induction kvs arbitrary: m) (auto simp: invar_assign)

lemma lookup_assign_all: "invar m \<Longrightarrow> lookup (assign_all kvs m) = lookup m ++ map_of (rev kvs)"
  unfolding assign_all_def
  by (induction kvs arbitrary: m)
    (auto simp: invar_assign lookup_assign map_add_def fun_eq_iff split: option.splits)

end

lemma keys_map_set: "fst ` set (map_set k v m) = {k} \<union> fst ` set m"
  by (induction k v m rule: map_set.induct) auto

lemma map_invar_map_set: "map_invar m \<Longrightarrow> map_invar (map_set k v m)"
proof (induction k v m rule: map_set.induct)
  case (1 k v)
  then show ?case by simp
next
  case (2 k v k' v' m)
  have "x \<in> fst ` set (map_set k v m) \<Longrightarrow> \<not> k < k' \<Longrightarrow> k \<noteq> k' \<Longrightarrow> k' < x" for x
    using "2.prems" by (auto simp: keys_map_set)
  with 2 show ?case by fastforce
qed

lemma map_of_map_set: "map_invar m \<Longrightarrow> map_of (map_set k v m) = (map_of m)(k \<mapsto> v)"
  by (induction k v m rule: map_set.induct) (auto simp: fun_eq_iff)

lemma map_of_filter_neq: "map_of (filter (\<lambda>e. fst e \<noteq> k) m) = (map_of m)(k := None)"
  by (induction m) (auto simp: fun_eq_iff)

interpretation om: ordered_map "map_invar :: ('k::linorder \<times> 'v) list \<Rightarrow> bool" map_of "[]" map_set map_erase
proof unfold_locales
  fix k :: 'k and v :: 'v and m :: "('k \<times> 'v) list"
  show "map_invar m \<Longrightarrow> map_invar (map_set k v m)" by (rule map_invar_map_set)
  show "map_invar m \<Longrightarrow> map_of (map_set k v m) = (map_of m)(k \<mapsto> v)" by (rule map_of_map_set)
  show "map_invar m \<Longrightarrow> map_invar (fst (map_erase k m))"
    using sorted_wrt_filter [of "(<)" "map fst m" "\<lambda>x. x \<noteq> k"]
    by (simp add: map_erase_def filter_map comp_def)
  show "map_of (fst (map_erase k m)) = (map_of m)(k := None)"
    by (simp add: map_erase_def map_of_filter_neq)
  show "snd (map_erase k m) = (if map_of m k = None then 0 else 1)"
    by (simp add: map_erase_def map_of_eq_None_iff)
qed simp_all

end
