(* ===== verification/Http_Message.thy ===== *)
theory Http_Message
  imports Buffer Std_Containers Time_Stamp
begin

text \<open>
  \<^verbatim>\<open>http/HttpRequest.h\<close>, \<^verbatim>\<open>http/HttpResponse.h\<close> and \<^verbatim>\<open>http/HttpResponse.cpp\<close>: the request object the
  parser fills from pointers into the input buffer, and the response object with its
  serialisation into an output buffer. Both keep their headers in a \<^verbatim>\<open>std::map\<close>.
\<close>

section \<open>HttpRequest\<close>

datatype Method = kInvalid | kGet | kPost | kHead | kPut | kDelete
datatype Version = kUnknown | kHttp10 | kHttp11

record HttpRequest =
  request_method :: Method
  version :: Version
  path :: bytes
  query :: bytes
  receiveTime :: TimeStamp
  headers :: "(bytes \<times> bytes) list"

definition new_HttpRequest :: HttpRequest where
  "new_HttpRequest = \<lparr>request_method = kInvalid, version = kUnknown, path = [], query = [],
     receiveTime = TimeStamp 0, headers = []\<rparr>"

definition setVersion :: "Version \<Rightarrow> HttpRequest \<Rightarrow> HttpRequest" where
  "setVersion v r = r\<lparr>version := v\<rparr>"

text \<open>The method named by a word; \<open>kInvalid\<close> for an unknown one.\<close>

definition method_of :: "bytes \<Rightarrow> Method" where
  "method_of m =
     (if m = ''GET'' then kGet else if m = ''POST'' then kPost else if m = ''HEAD'' then kHead
      else if m = ''PUT'' then kPut else if m = ''DELETE'' then kDelete else kInvalid)"

text \<open>Pointer arguments are offsets into the memory \<open>mem\<close> of the buffer.\<close>

definition setMethod :: "bytes \<Rightarrow> nat \<Rightarrow> nat \<Rightarrow> HttpRequest \<Rightarrow> (bool \<times> HttpRequest) result" where
  "setMethod mem start fin r =
     asserting (request_method r = kInvalid)
       (let r' = r\<lparr>request_method := method_of (block mem start fin)\<rparr> in Inr (request_method r' \<noteq> kInvalid, r'))"

definition methodString :: "HttpRequest \<Rightarrow> string" where
  "methodString r =
     (case request_method r of kGet \<Rightarrow> ''GET'' | kPost \<Rightarrow> ''POST'' | kHead \<Rightarrow> ''HEAD'' | kPut \<Rightarrow> ''PUT''
      | kDelete \<Rightarrow> ''DELETE'' | kInvalid \<Rightarrow> ''UNKNOWN'')"

definition setPath :: "bytes \<Rightarrow> nat \<Rightarrow> nat \<Rightarrow> HttpRequest \<Rightarrow> HttpRequest" where
  "setPath mem start fin r = r\<lparr>path := block mem start fin\<rparr>"

definition setQuery :: "bytes \<Rightarrow> nat \<Rightarrow> nat \<Rightarrow> HttpRequest \<Rightarrow> HttpRequest" where
  "setQuery mem start fin r = r\<lparr>query := block mem start fin\<rparr>"

definition setReceiveTime :: "TimeStamp \<Rightarrow> HttpRequest \<Rightarrow> HttpRequest" where
  "setReceiveTime t r = r\<lparr>receiveTime := t\<rparr>"

text \<open>
  \<^verbatim>\<open>std::isspace\<close> in the C locale, and the two loops that trim a header value. Where \<^verbatim>\<open>char\<close> is signed a byte from 0x80 on is
  given to \<^verbatim>\<open>isspace\<close> as a negative number, for which the standard leaves the call undefined; the model takes the answer of the common C libraries, that it is no space.
\<close>

definition isspace :: "char \<Rightarrow> bool" where
  "isspace c \<longleftrightarrow> c \<in> {CHR 0x20, CHR 0x09, CHR 0x0A, CHR 0x0B, CHR 0x0C, CHR 0x0D}"

function skip_spaces :: "bytes \<Rightarrow> nat \<Rightarrow> nat \<Rightarrow> nat" where
  "skip_spaces mem colon fin =
     (if colon < fin \<and> isspace (mem ! colon) then skip_spaces mem (Suc colon) fin else colon)"
  by pat_completeness auto
termination
  by (relation "measure (\<lambda>(mem, colon, fin). fin - colon)") auto

function strip_back :: "bytes \<Rightarrow> bytes" where
  "strip_back val = (if val \<noteq> [] \<and> isspace (last val) then strip_back (butlast val) else val)"
  by pat_completeness auto
termination
  by (relation "measure length") auto

declare skip_spaces.simps [simp del] strip_back.simps [simp del]

definition addHeader :: "bytes \<Rightarrow> nat \<Rightarrow> nat \<Rightarrow> nat \<Rightarrow> HttpRequest \<Rightarrow> HttpRequest" where
  "addHeader mem start colon fin r =
     (let field = block mem start colon;
          colon' = skip_spaces mem (Suc colon) fin;
          val = strip_back (block mem colon' fin)
      in r\<lparr>headers := map_set field val (headers r)\<rparr>)"

definition getHeader :: "bytes \<Rightarrow> HttpRequest \<Rightarrow> bytes" where
  "getHeader field r = (case map_of (headers r) field of Some v \<Rightarrow> v | None \<Rightarrow> [])"

definition swap_HttpRequest :: "HttpRequest \<Rightarrow> HttpRequest \<Rightarrow> HttpRequest \<times> HttpRequest" where
  "swap_HttpRequest self rhs =
     (self\<lparr>request_method := request_method rhs, version := version rhs, path := path rhs, query := query rhs,
           receiveTime := receiveTime rhs, headers := headers rhs\<rparr>,
      rhs\<lparr>request_method := request_method self, version := version self, path := path self, query := query self,
           receiveTime := receiveTime self, headers := headers self\<rparr>)"

section \<open>HttpResponse\<close>

datatype HttpStatusCode = kUnknownStatus | k200OK | k301MovePermanently | k400BadRequest | k404NotFound

fun status_int :: "HttpStatusCode \<Rightarrow> int" where
  "status_int kUnknownStatus = 0"
| "status_int k200OK = 200"
| "status_int k301MovePermanently = 301"
| "status_int k400BadRequest = 400"
| "status_int k404NotFound = 404"

record HttpResponse =
  resp_headers :: "(bytes \<times> bytes) list"
  statusCode :: HttpStatusCode
  statusMessage :: bytes
  closeConnection :: bool
  body :: bytes

definition new_HttpResponse :: "bool \<Rightarrow> HttpResponse" where
  "new_HttpResponse close = \<lparr>resp_headers = [], statusCode = kUnknownStatus, statusMessage = [],
     closeConnection = close, body = []\<rparr>"

definition setStatusCode :: "HttpStatusCode \<Rightarrow> HttpResponse \<Rightarrow> HttpResponse" where
  "setStatusCode code r = r\<lparr>statusCode := code\<rparr>"

definition setStatusMessage :: "bytes \<Rightarrow> HttpResponse \<Rightarrow> HttpResponse" where
  "setStatusMessage message r = r\<lparr>statusMessage := message\<rparr>"

definition setCloseConnection :: "bool \<Rightarrow> HttpResponse \<Rightarrow> HttpResponse" where
  "setCloseConnection on r = r\<lparr>closeConnection := on\<rparr>"

definition resp_addHeader :: "bytes \<Rightarrow> bytes \<Rightarrow> HttpResponse \<Rightarrow> HttpResponse" where
  "resp_addHeader key val r = r\<lparr>resp_headers := map_set key val (resp_headers r)\<rparr>"

definition setContentType :: "bytes \<Rightarrow> HttpResponse \<Rightarrow> HttpResponse" where
  "setContentType contentType = resp_addHeader ''Content-Type'' contentType"

definition setBody :: "bytes \<Rightarrow> HttpResponse \<Rightarrow> HttpResponse" where
  "setBody bd r = r\<lparr>body := bd\<rparr>"

text \<open>The pieces of text of \<^verbatim>\<open>appendToBuffer\<close>.\<close>

definition status_line :: "HttpResponse \<Rightarrow> bytes" where
  "status_line r = ''HTTP/1.1 '' @ show_int (status_int (statusCode r)) @ '' ''"

definition content_length_line :: "HttpResponse \<Rightarrow> bytes" where
  "content_length_line r = ''Content-Length: '' @ show_int (int (length (body r))) @ kCRLF"

definition close_line :: bytes where
  "close_line = ''Connection: close'' @ kCRLF"

definition keep_alive_line :: bytes where
  "keep_alive_line = ''Connection: Keep-Alive'' @ kCRLF"

definition append_header :: "bytes \<times> bytes \<Rightarrow> buffer \<Rightarrow> buffer result" where
  "append_header h output =
     bind_r (append_bytes (fst h) output) (\<lambda>o1.
     bind_r (append_bytes '': '' o1) (\<lambda>o2.
     bind_r (append_bytes (snd h) o2) (append_bytes kCRLF)))"

definition appendToBuffer :: "HttpResponse \<Rightarrow> buffer \<Rightarrow> buffer result" where
  "appendToBuffer r output =
     bind_r (append_bytes (snprintf 32 (status_line r)) output) (\<lambda>o1.
     bind_r (append_bytes (statusMessage r) o1) (\<lambda>o2.
     bind_r (append_bytes kCRLF o2) (\<lambda>o3.
     bind_r (if closeConnection r then append_bytes close_line o3
             else bind_r (append_bytes (snprintf 32 (content_length_line r)) o3)
                    (append_bytes keep_alive_line)) (\<lambda>o4.
     bind_r (for_r (resp_headers r) append_header o4) (\<lambda>o5.
     bind_r (append_bytes kCRLF o5) (append_bytes (body r)))))))"

section \<open>Trimming\<close>

text \<open>\<open>trim\<close> is what the two loops compute, on the bytes between the colon and the line end.\<close>

definition trim :: "bytes \<Rightarrow> bytes" where
  "trim s = strip_back (dropWhile isspace s)"

lemma skip_spaces_block:
  "colon \<le> fin \<Longrightarrow> fin \<le> length mem \<Longrightarrow>
    block mem (skip_spaces mem colon fin) fin = dropWhile isspace (block mem colon fin)"
proof (induction mem colon fin rule: skip_spaces.induct)
  case (1 mem colon fin)
  show ?case
  proof (cases "colon < fin")
    case True
    with 1 show ?thesis
      by (cases "isspace (mem ! colon)")
        (simp_all add: skip_spaces.simps [of mem colon fin] block_Cons [of colon fin mem])
  next
    case False
    with 1 show ?thesis by (auto simp: skip_spaces.simps [of mem fin fin])
  qed
qed

lemma strip_back_id: "s = [] \<or> \<not> isspace (last s) \<Longrightarrow> strip_back s = s"
  by (auto simp: strip_back.simps [of s])

lemma trim_id: "s = [] \<or> (\<not> isspace (hd s) \<and> \<not> isspace (last s)) \<Longrightarrow> trim s = s"
  by (cases s) (auto simp: trim_def strip_back_id)

lemma addHeader_block:
  assumes "colon < fin" and "fin \<le> length mem"
  shows "addHeader mem start colon fin r =
    r\<lparr>headers := map_set (block mem start colon) (trim (block mem (Suc colon) fin)) (headers r)\<rparr>"
  using assms by (simp add: addHeader_def Let_def trim_def skip_spaces_block)

section \<open>Serialisation\<close>

text \<open>The text of a response: status line, connection headers, the map's headers in key order,
  an empty line, the body.\<close>

definition header_text :: "bytes \<times> bytes \<Rightarrow> bytes" where
  "header_text h = fst h @ '': '' @ snd h @ kCRLF"

definition response_text :: "HttpResponse \<Rightarrow> bytes" where
  "response_text r =
     status_line r @ statusMessage r @ kCRLF @
     (if closeConnection r then close_line else content_length_line r @ keep_alive_line) @
     concat (map header_text (resp_headers r)) @ kCRLF @ body r"

lemma append_header_eq: "append_header h b = for_r [fst h, '': '', snd h, kCRLF] append_bytes b"
  by (auto simp: append_header_def bind_r_def split: sum.splits)

lemma append_headers:
  assumes "buffer_inv b"
  shows "\<exists>b'. for_r hs append_header b = Inr b' \<and> buffer_inv b' \<and>
    contents b' = contents b @ concat (map header_text hs)"
  using assms
proof (induction hs arbitrary: b)
  case Nil
  then show ?case by simp
next
  case (Cons h hs)
  from bq.put_all [OF Cons.prems, of "[fst h, '': '', snd h, kCRLF]"] obtain b1 where
    b1: "append_header h b = Inr b1" "buffer_inv b1" "contents b1 = contents b @ header_text h"
    by (auto simp: append_header_eq header_text_def simp del: for_r.simps)
  from Cons.IH [OF b1(2)] b1 show ?case by auto
qed

lemma status_line_fits: "snprintf 32 (status_line r) = status_line r"
  using length_show_int [of "status_int (statusCode r)" 3]
  by (intro snprintf_fits) (cases "statusCode r"; simp add: status_line_def)

lemma content_length_fits: "length (body r) < 10 ^ 13 \<Longrightarrow> snprintf 32 (content_length_line r) = content_length_line r"
  using length_digits [of "length (body r)" 13]
  by (simp add: content_length_line_def show_int_nat snprintf_fits kCRLF_def)

lemma appendToBuffer_ok:
  assumes inv: "buffer_inv b" and small: "length (body r) < 10 ^ 13"
  shows "\<exists>b'. appendToBuffer r b = Inr b' \<and> buffer_inv b' \<and> contents b' = contents b @ response_text r"
proof -
  let ?pre = "[status_line r, statusMessage r, kCRLF] @
    (if closeConnection r then [close_line] else [content_length_line r, keep_alive_line])"
  obtain b4 where b4: "for_r ?pre append_bytes b = Inr b4" "buffer_inv b4" "contents b4 = contents b @ concat ?pre"
    using bq.put_all [OF inv] by blast
  obtain b5 where b5: "for_r (resp_headers r) append_header b4 = Inr b5" "buffer_inv b5"
    "contents b5 = contents b4 @ concat (map header_text (resp_headers r))"
    using append_headers [OF b4(2)] by blast
  obtain b6 where b6: "for_r [kCRLF, body r] append_bytes b5 = Inr b6" "buffer_inv b6"
    "contents b6 = contents b5 @ kCRLF @ body r"
    using bq.put_all [OF b5(2), of "[kCRLF, body r]"] by auto
  have "appendToBuffer r b = Inr b6"
    using b4(1) b5(1) b6(1)
    by (auto simp: appendToBuffer_def status_line_fits content_length_fits [OF small] result_simps split: if_splits)
  moreover have "contents b6 = contents b @ response_text r"
    by (simp add: b6(3) b5(3) b4(3) response_text_def)
  ultimately show ?thesis using b6(2) by blast
qed

text \<open>
  C34 (functional). Serialising a response whose body is shorter than 10 TB appends exactly
  the text of the response, with its headers in key order, to the output buffer; neither
  32-byte scratch array truncates. The header map keeps one value per key, the last set.
\<close>

theorem appendToBuffer_text:
  assumes "buffer_inv b" and "length (body r) < 10 ^ 13" and "map_invar (resp_headers r)"
  shows "(\<exists>b'. appendToBuffer r b = Inr b' \<and> buffer_inv b' \<and> contents b' = contents b @ response_text r) \<and>
    map_invar (resp_headers (resp_addHeader k v r)) \<and>
    map_of (resp_headers (resp_addHeader k v r)) = (map_of (resp_headers r))(k \<mapsto> v)"
  using appendToBuffer_ok [OF assms(1,2)] om.invar_assign [OF assms(3)] om.lookup_assign [OF assms(3)]
  by (simp add: resp_addHeader_def)

theorem appendToBuffer_text_witness:
  "\<exists>b'. appendToBuffer (setCloseConnection True (setStatusMessage ''OK'' (setStatusCode k200OK (new_HttpResponse False))))
      \<lparr>storage = ''........'', readerIndex = 8, writerIndex = 8\<rparr> = Inr b' \<and>
    contents b' = ''HTTP/1.1 200 OK'' @ kCRLF @ ''Connection: close'' @ kCRLF @ kCRLF"
  using appendToBuffer_text [of "\<lparr>storage = ''........'', readerIndex = 8, writerIndex = 8\<rparr>"
      "setCloseConnection True (setStatusMessage ''OK'' (setStatusCode k200OK (new_HttpResponse False)))" "[]" "[]"]
  by (auto simp: buffer_inv_def contents_def response_text_def status_line_def close_line_def setCloseConnection_def setStatusMessage_def
      setStatusCode_def new_HttpResponse_def show_int_def digits.simps char_of_def bit_0)

end
