(* ===== verification/Http_Context.thy ===== *)
theory Http_Context
  imports Http_Message
begin

text \<open>
  \<^verbatim>\<open>http/HttpContext.h\<close> and \<^verbatim>\<open>http/HttpContext.cpp\<close>: the incremental request parser. The request
  line and the header lines are taken from the input buffer through pointers into its
  storage; the loop of \<^verbatim>\<open>parseRequest\<close> is a partial function whose \<open>None\<close> is a loop that never
  ends. The parser is shown to agree with a reference parser on byte lists, to return for
  every context it is called with by the server, to loop forever in its two other states,
  and to recover every well-formed request from its text.
\<close>

section \<open>The class\<close>

datatype HttpRequestParseState = kExpectRequestLine | kExpectHeaders | kExpectody | kGotAll

record HttpContext =
  state :: HttpRequestParseState
  request :: HttpRequest

definition new_HttpContext :: HttpContext where
  "new_HttpContext = \<lparr>state = kExpectRequestLine, request = new_HttpRequest\<rparr>"

definition gotAll :: "HttpContext \<Rightarrow> bool" where
  "gotAll c \<longleftrightarrow> state c = kGotAll"

definition reset_HttpContext :: "HttpContext \<Rightarrow> HttpContext" where
  "reset_HttpContext c =
     c\<lparr>state := kExpectRequestLine, request := fst (swap_HttpRequest (request c) new_HttpRequest)\<rparr>"

text \<open>
  The request line between two pointers, in the three steps of the code: the method, the
  target with its path and query, and the version. A request that fails half way keeps the
  parts that were already set.
\<close>

definition setTarget :: "bytes \<Rightarrow> nat \<Rightarrow> nat \<Rightarrow> HttpRequest \<Rightarrow> HttpRequest" where
  "setTarget mem start space r =
     (let question = std_find mem start space (CHR ''?'') in
      if question \<noteq> space then setQuery mem question space (setPath mem start question r)
      else setPath mem start space r)"

definition checkVersion :: "bytes \<Rightarrow> nat \<Rightarrow> nat \<Rightarrow> Version option" where
  "checkVersion mem start fin =
     (if fin - start = 8 \<and> block mem start (fin - 1) = ''HTTP/1.''
      then if mem ! (fin - 1) = CHR ''1'' then Some kHttp11
           else if mem ! (fin - 1) = CHR ''0'' then Some kHttp10
           else None
      else None)"

definition processRequestLine :: "bytes \<Rightarrow> nat \<Rightarrow> nat \<Rightarrow> HttpContext \<Rightarrow> (bool \<times> HttpContext) result" where
  "processRequestLine mem begn fin c =
     (let space = std_find mem begn fin (CHR '' '') in
      if space = fin then Inr (False, c)
      else bind_r (setMethod mem begn space (request c)) (\<lambda>(known, r1).
        if \<not> known then Inr (False, c\<lparr>request := r1\<rparr>)
        else let start = Suc space; space = std_find mem start fin (CHR '' '') in
          if space = fin then Inr (False, c\<lparr>request := r1\<rparr>)
          else let r2 = setTarget mem start space r1 in
            case checkVersion mem (Suc space) fin of
              Some v \<Rightarrow> Inr (True, c\<lparr>request := setVersion v r2\<rparr>)
            | None \<Rightarrow> Inr (False, c\<lparr>request := r2\<rparr>)))"

text \<open>One iteration of the loop: the new \<^verbatim>\<open>ok\<close>, \<^verbatim>\<open>hasMore\<close>, context and buffer.\<close>

definition parse_step ::
    "TimeStamp \<Rightarrow> bool \<Rightarrow> HttpContext \<Rightarrow> buffer \<Rightarrow> (bool \<times> bool \<times> HttpContext \<times> buffer) result" where
  "parse_step now ok c b =
     (case state c of
        kExpectRequestLine \<Rightarrow>
          (case findCRLF b of
             Some crlf \<Rightarrow>
               bind_r (processRequestLine (storage b) (peek b) crlf c) (\<lambda>(ok', c1).
                 if ok' then
                   bind_r (retrieveUntil (crlf + 2) b) (\<lambda>b'.
                     Inr (True, True,
                       c1\<lparr>request := setReceiveTime now (request c1), state := kExpectHeaders\<rparr>, b'))
                 else Inr (False, False, c1, b))
           | None \<Rightarrow> Inr (ok, False, c, b))
      | kExpectHeaders \<Rightarrow>
          (case findCRLF b of
             Some crlf \<Rightarrow>
               let colon = std_find (storage b) (peek b) crlf (CHR '':'');
                   (c1, hasMore) =
                     (if colon \<noteq> crlf
                      then (c\<lparr>request := addHeader (storage b) (peek b) colon crlf (request c)\<rparr>, True)
                      else (c\<lparr>state := kGotAll\<rparr>, False))
               in bind_r (retrieveUntil (crlf + 2) b) (\<lambda>b'. Inr (ok, hasMore, c1, b'))
           | None \<Rightarrow> Inr (ok, False, c, b))
      | kExpectody \<Rightarrow> Inr (ok, True, c, b)
      | kGotAll \<Rightarrow> Inr (ok, True, c, b))"

partial_function (option) parse_loop ::
    "TimeStamp \<Rightarrow> bool \<Rightarrow> HttpContext \<Rightarrow> buffer \<Rightarrow> (bool \<times> HttpContext \<times> buffer) result option" where
  "parse_loop now ok c b =
     (case parse_step now ok c b of
        Inl e \<Rightarrow> Some (Inl e)
      | Inr (ok', hasMore, c', b') \<Rightarrow>
          if hasMore then parse_loop now ok' c' b' else Some (Inr (ok', c', b')))"

definition parseRequest ::
    "TimeStamp \<Rightarrow> HttpContext \<Rightarrow> buffer \<Rightarrow> (bool \<times> HttpContext \<times> buffer) result option" where
  "parseRequest now c b = parse_loop now True c b"

section \<open>The reference parser\<close>

text \<open>Splitting bytes at the first line end, and a line at the first occurrence of a character.\<close>

definition split_line :: "bytes \<Rightarrow> (bytes \<times> bytes) option" where
  "split_line s = map_option (\<lambda>i. (take i s, drop (i + 2) s)) (memmem s kCRLF)"

definition before :: "char \<Rightarrow> bytes \<Rightarrow> bytes" where "before c s = takeWhile (\<lambda>x. x \<noteq> c) s"
definition after :: "char \<Rightarrow> bytes \<Rightarrow> bytes" where "after c s = tl (dropWhile (\<lambda>x. x \<noteq> c) s)"

definition version_of :: "bytes \<Rightarrow> Version option" where
  "version_of s = (if s = ''HTTP/1.1'' then Some kHttp11 else if s = ''HTTP/1.0'' then Some kHttp10 else None)"

text \<open>A request line is a known method, a blank, a target, a blank and a version.\<close>

definition request_line :: "bytes \<Rightarrow> (Method \<times> bytes \<times> bytes \<times> Version) option" where
  "request_line l =
     (if CHR '' '' \<in> set l \<and> method_of (before (CHR '' '') l) \<noteq> kInvalid \<and>
         CHR '' '' \<in> set (after (CHR '' '') l)
      then let target = before (CHR '' '') (after (CHR '' '') l) in
        map_option (\<lambda>v. (method_of (before (CHR '' '') l), before (CHR ''?'') target,
            dropWhile (\<lambda>x. x \<noteq> CHR ''?'') target, v))
          (version_of (after (CHR '' '') (after (CHR '' '') l)))
      else None)"

definition header_of_line :: "bytes \<Rightarrow> bytes \<times> bytes" where
  "header_of_line l = (before (CHR '':'') l, trim (after (CHR '':'') l))"

lemma split_line_shorter: "split_line s = Some (l, rest) \<Longrightarrow> length rest < length s"
  by (auto simp: split_line_def kCRLF_def dest: memmem_bound)

function parse_headers :: "HttpRequest \<Rightarrow> bytes \<Rightarrow> bool \<times> HttpRequest \<times> bytes" where
  "parse_headers r s =
     (case split_line s of
        None \<Rightarrow> (False, r, s)
      | Some (l, rest) \<Rightarrow>
          if CHR '':'' \<in> set l
          then parse_headers (r\<lparr>headers := map_set (fst (header_of_line l)) (snd (header_of_line l)) (headers r)\<rparr>) rest
          else (True, r, rest))"
  by pat_completeness auto
termination
  by (relation "measure (\<lambda>(r, s). length s)") (auto dest: split_line_shorter)

declare parse_headers.simps [simp del]

datatype parsed = BadRequest | Parsed HttpContext bytes

definition reference_headers :: "HttpRequest \<Rightarrow> bytes \<Rightarrow> parsed" where
  "reference_headers r s =
     (case parse_headers r s of
        (complete, r', rest) \<Rightarrow>
          Parsed \<lparr>state = (if complete then kGotAll else kExpectHeaders), request = r'\<rparr> rest)"

definition reference_parse :: "TimeStamp \<Rightarrow> HttpContext \<Rightarrow> bytes \<Rightarrow> parsed" where
  "reference_parse now c s =
     (if state c = kExpectHeaders then reference_headers (request c) s
      else case split_line s of
        None \<Rightarrow> Parsed c s
      | Some (l, rest) \<Rightarrow>
          (case request_line l of
             None \<Rightarrow> BadRequest
           | Some (m, p, q, v) \<Rightarrow>
               reference_headers ((request c)\<lparr>request_method := m, path := p, query := q, version := v,
                 receiveTime := now\<rparr>) rest))"

text \<open>The contexts the parser can be resumed with: a new one, and one whose request line is done.\<close>

definition ready :: "HttpContext \<Rightarrow> bool" where
  "ready c \<longleftrightarrow> c = new_HttpContext \<or> state c = kExpectHeaders"

section \<open>Agreement with the reference parser\<close>

lemma after_block:
  assumes "lo \<le> hi" and "hi \<le> length m" and "std_find m lo hi c \<noteq> hi"
  shows "std_find m lo hi c < hi" and "block m (Suc (std_find m lo hi c)) hi = after c (block m lo hi)"
proof -
  let ?f = "std_find m lo hi c"
  show lt: "?f < hi" using std_find_bounds [OF assms(1), of m c] assms(3) by simp
  have "m ! ?f # block m (Suc ?f) hi = dropWhile (\<lambda>x. x \<noteq> c) (block m lo hi)"
    using std_find_blocks(2) [OF assms(1,2), of c] block_Cons [OF lt assms(2)] by simp
  then show "block m (Suc ?f) hi = after c (block m lo hi)"
    unfolding after_def by (metis list.sel(3))
qed

lemma block_snoc: "lo < hi \<Longrightarrow> hi \<le> length m \<Longrightarrow> block m lo hi = block m lo (hi - 1) @ [m ! (hi - 1)]"
  using block_append [of lo "hi - 1" hi m] block_Cons [of "hi - 1" hi m] by simp

lemma checkVersion_block:
  assumes "start \<le> fin" and "fin \<le> length mem"
  shows "checkVersion mem start fin = version_of (block mem start fin)"
proof (cases "fin - start = 8")
  case True
  then have "block mem start fin = block mem start (fin - 1) @ [mem ! (fin - 1)]"
    using assms by (intro block_snoc) auto
  with True show ?thesis by (auto simp: checkVersion_def version_of_def)
next
  case False
  then have "length (block mem start fin) \<noteq> 8" using assms by (simp add: length_block)
  with False show ?thesis by (auto simp: checkVersion_def version_of_def)
qed

lemma setTarget_block:
  assumes "start \<le> space" and "space \<le> length mem" and "query r = []"
  defines "t \<equiv> block mem start space"
  shows "setTarget mem start space r = r\<lparr>path := before (CHR ''?'') t, query := dropWhile (\<lambda>x. x \<noteq> CHR ''?'') t\<rparr>"
proof -
  note b = std_find_blocks [OF assms(1,2), of "CHR ''?''", folded t_def]
  show ?thesis
  proof (cases "std_find mem start space (CHR ''?'') = space")
    case True
    with b(3) have "CHR ''?'' \<notin> set t" by simp
    then have t: "before (CHR ''?'') t = t" "dropWhile (\<lambda>x. x \<noteq> CHR ''?'') t = []"
      by (auto simp: before_def takeWhile_eq_all_conv)
    have "setTarget mem start space r = r\<lparr>path := t, query := []\<rparr>"
      using True assms(3) by (cases r) (simp add: setTarget_def setPath_def t_def)
    then show ?thesis by (simp only: t)
  next
    case False
    with b(1,2) show ?thesis by (simp add: setTarget_def setPath_def setQuery_def before_def Let_def)
  qed
qed

lemma processRequestLine_spec:
  assumes bounds: "begn \<le> fin" "fin \<le> length mem" and fresh: "request_method (request c) = kInvalid" "query (request c) = []"
  shows "case request_line (block mem begn fin) of
      None \<Rightarrow> \<exists>r. processRequestLine mem begn fin c = Inr (False, c\<lparr>request := r\<rparr>)
    | Some (m, p, q, v) \<Rightarrow> processRequestLine mem begn fin c =
        Inr (True, c\<lparr>request := (request c)\<lparr>request_method := m, path := p, query := q, version := v\<rparr>\<rparr>)"
proof -
  let ?l = "block mem begn fin"
  let ?s1 = "std_find mem begn fin (CHR '' '')"
  note b1 = std_find_blocks [OF bounds, of "CHR '' ''"]
  show ?thesis
  proof (cases "?s1 = fin")
    case True
    with b1(3) show ?thesis
      by (auto simp: request_line_def processRequestLine_def intro: exI [of _ "request c"])
  next
    case False
    note a1 = after_block [OF bounds False]
    let ?r1 = "(request c)\<lparr>request_method := method_of (before (CHR '' '') ?l)\<rparr>"
    have m: "setMethod mem begn ?s1 (request c) = Inr (request_method ?r1 \<noteq> kInvalid, ?r1)"
      using fresh b1(1) by (simp add: setMethod_def before_def)
    let ?s2 = "std_find mem (Suc ?s1) fin (CHR '' '')"
    have bounds2: "Suc ?s1 \<le> fin" using a1(1) by simp
    note b2 = std_find_blocks [OF bounds2 bounds(2), of "CHR '' ''"]
    consider (bad) "request_method ?r1 = kInvalid \<or> ?s2 = fin" | (good) "request_method ?r1 \<noteq> kInvalid" "?s2 \<noteq> fin"
      by blast
    then show ?thesis
    proof cases
      case bad
      with b2(3) a1(2) have "request_line ?l = None" by (auto simp: request_line_def)
      with bad False m show ?thesis by (auto simp: processRequestLine_def Let_def)
    next
      case good
      note a2 = after_block [OF bounds2 bounds(2) good(2)]
      have tgt: "block mem (Suc ?s1) ?s2 = before (CHR '' '') (after (CHR '' '') ?l)"
        using b2(1) a1(2) by (simp add: before_def)
      have v: "checkVersion mem (Suc ?s2) fin = version_of (after (CHR '' '') (after (CHR '' '') ?l))"
        using a2 a1(2) bounds by (simp add: checkVersion_block)
      have sp: "Suc ?s1 \<le> ?s2" "?s2 \<le> length mem"
        using std_find_bounds [OF bounds2, of mem "CHR '' ''"] bounds(2) by auto
      have r2: "setTarget mem (Suc ?s1) ?s2 ?r1 = ?r1\<lparr>path := before (CHR ''?'') (before (CHR '' '') (after (CHR '' '') ?l)),
          query := dropWhile (\<lambda>x. x \<noteq> CHR ''?'') (before (CHR '' '') (after (CHR '' '') ?l))\<rparr>"
        using setTarget_block [OF sp, of ?r1] fresh tgt by simp
      have sets: "CHR '' '' \<in> set ?l" "CHR '' '' \<in> set (after (CHR '' '') ?l)"
        using b1(3) b2(3) False good(2) a1(2) by auto
      show ?thesis
        using False good m r2 v sets
        by (auto simp: processRequestLine_def request_line_def Let_def setVersion_def
            split: option.splits)
    qed
  qed
qed

lemma findCRLF_split:
  assumes inv: "buffer_inv b"
  shows "case split_line (contents b) of
      None \<Rightarrow> findCRLF b = None
    | Some (l, rest) \<Rightarrow> \<exists>crlf b'. findCRLF b = Some crlf \<and> peek b \<le> crlf \<and> crlf \<le> length (storage b) \<and>
        block (storage b) (peek b) crlf = l \<and> retrieveUntil (crlf + 2) b = Inr b' \<and>
        buffer_inv b' \<and> contents b' = rest"
proof (cases "memmem (contents b) kCRLF")
  case None
  then show ?thesis by (simp add: split_line_def findCRLF_contents [OF inv])
next
  case (Some i)
  then have f: "findCRLF b = Some (peek b + i)" by (simp add: findCRLF_contents [OF inv])
  note bnd = findCRLF_bounds [OF inv f]
  have le: "peek b + i \<le> writerIndex b" and sz: "writerIndex b \<le> length (storage b)"
    using bnd inv by (auto simp: beginWrite_def buffer_inv_def)
  have "block (storage b) (peek b) (peek b + i) = take i (contents b)"
    using block_take [OF le, of "storage b" "peek b"] by (simp add: contents_def peek_def)
  moreover obtain b' where "retrieveUntil (peek b + i + 2) b = Inr b'" "buffer_inv b'"
      "contents b' = drop (i + 2) (contents b)"
    using retrieveUntil_ok [OF inv, of "peek b + i + 2"] bnd by auto
  ultimately show ?thesis using Some f le sz by (auto simp: split_line_def)
qed

lemma headers_loop:
  assumes "buffer_inv b" and "state c = kExpectHeaders" and "parse_headers (request c) (contents b) = (complete, r, rest)"
  shows "\<exists>b'. parse_loop now ok c b =
      Some (Inr (ok, c\<lparr>state := (if complete then kGotAll else kExpectHeaders), request := r\<rparr>, b')) \<and>
    buffer_inv b' \<and> contents b' = rest"
  using assms
proof (induction "request c" "contents b" arbitrary: c b rule: parse_headers.induct)
  case 1
  note inv = "1.prems"(1) and st = "1.prems"(2) and ph = "1.prems"(3)
  note step = parse_loop.simps [of now ok c b]
  show ?case
  proof (cases "split_line (contents b)")
    case None
    with ph have "complete = False" "r = request c" "rest = contents b" by (simp_all add: parse_headers.simps)
    moreover from None have "findCRLF b = None" using findCRLF_split [OF inv] by simp
    ultimately show ?thesis using st inv by (auto simp: step parse_step_def)
  next
    case (Some lr)
    obtain l rs where lr: "lr = (l, rs)" by fastforce
    from Some lr findCRLF_split [OF inv] obtain crlf b1 where
      f: "findCRLF b = Some crlf" "peek b \<le> crlf" "crlf \<le> length (storage b)"
        "block (storage b) (peek b) crlf = l" "retrieveUntil (crlf + 2) b = Inr b1"
        "buffer_inv b1" "contents b1 = rs" by auto
    note fb = std_find_blocks [OF f(2,3), of "CHR '':''", unfolded f(4)]
    show ?thesis
    proof (cases "CHR '':'' \<in> set l")
      case False
      with ph Some lr have "complete" "r = request c" "rest = rs" by (simp_all add: parse_headers.simps)
      with False f st fb(3) show ?thesis by (simp add: step parse_step_def Let_def)
    next
      case True
      with fb(3) have ne: "std_find (storage b) (peek b) crlf (CHR '':'') \<noteq> crlf" by simp
      note ab = after_block [OF f(2,3) ne, unfolded f(4)]
      define c1 where "c1 = c\<lparr>request := (request c)\<lparr>headers := map_set (fst (header_of_line l)) (snd (header_of_line l)) (headers (request c))\<rparr>\<rparr>"
      have add: "c\<lparr>request := addHeader (storage b) (peek b) (std_find (storage b) (peek b) crlf (CHR '':'')) crlf (request c)\<rparr> = c1"
        by (simp add: c1_def addHeader_block [OF ab(1) f(3)] ab(2) fb(1) header_of_line_def before_def)
      have loop: "parse_loop now ok c b = parse_loop now ok c1 b1"
        using st f ne add by (simp add: step parse_step_def Let_def)
      have ph1: "parse_headers (request c1) (contents b1) = (complete, r, rest)"
        using ph True Some lr f(7) by (simp add: parse_headers.simps [of "request c" "contents b"] c1_def)
      have st1: "state c1 = kExpectHeaders" using st by (simp add: c1_def)
      have "\<exists>b'. parse_loop now ok c1 b1 =
          Some (Inr (ok, c1\<lparr>state := (if complete then kGotAll else kExpectHeaders), request := r\<rparr>, b')) \<and>
        buffer_inv b' \<and> contents b' = rest"
        using "1.hyps" [OF Some _ True _ f(6) st1 ph1] lr f(7) by (simp add: c1_def)
      then show ?thesis by (simp add: loop c1_def)
    qed
  qed
qed

lemma parseRequest_agrees:
  assumes ready: "ready c" and inv: "buffer_inv b"
  shows "\<exists>ok c' b'. parseRequest now c b = Some (Inr (ok, c', b')) \<and> buffer_inv b' \<and>
    (case reference_parse now c (contents b) of
       BadRequest \<Rightarrow> \<not> ok \<and> \<not> gotAll c' \<and> b' = b
     | Parsed c1 rest \<Rightarrow> ok \<and> c' = c1 \<and> contents b' = rest)"
proof (cases "state c = kExpectHeaders")
  case True
  obtain complete r rest where ph: "parse_headers (request c) (contents b) = (complete, r, rest)"
    by (metis prod_cases3)
  from headers_loop [OF inv True ph, of now True] True ph show ?thesis
    by (auto simp: parseRequest_def reference_parse_def reference_headers_def)
next
  case False
  with ready have c: "c = new_HttpContext" by (simp add: ready_def)
  then have fresh: "request_method (request c) = kInvalid" "query (request c) = []" and st: "state c = kExpectRequestLine"
    by (simp_all add: new_HttpContext_def new_HttpRequest_def)
  note step = parse_loop.simps [of now True c b]
  show ?thesis
  proof (cases "split_line (contents b)")
    case None
    with findCRLF_split [OF inv] inv st show ?thesis
      by (auto simp: parseRequest_def step parse_step_def reference_parse_def)
  next
    case (Some lr)
    obtain l rs where lr: "lr = (l, rs)" by fastforce
    from Some lr findCRLF_split [OF inv] obtain crlf b1 where
      f: "findCRLF b = Some crlf" "peek b \<le> crlf" "crlf \<le> length (storage b)"
        "block (storage b) (peek b) crlf = l" "retrieveUntil (crlf + 2) b = Inr b1"
        "buffer_inv b1" "contents b1 = rs" by auto
    note line = processRequestLine_spec [OF f(2,3) fresh, unfolded f(4)]
    show ?thesis
    proof (cases "request_line l")
      case None
      with line obtain r where "processRequestLine (storage b) (peek b) crlf c = Inr (False, c\<lparr>request := r\<rparr>)" by auto
      with None Some lr f st inv show ?thesis
        by (auto simp: parseRequest_def step parse_step_def reference_parse_def gotAll_def)
    next
      case (Some mpqv)
      obtain m p q v where mpqv: "mpqv = (m, p, q, v)" by (metis prod_cases4)
      define c1 where "c1 = c\<lparr>request := (request c)\<lparr>request_method := m, path := p, query := q,
        version := v, receiveTime := now\<rparr>, state := kExpectHeaders\<rparr>"
      have loop: "parseRequest now c b = parse_loop now True c1 b1"
        using line Some mpqv f st
        by (simp add: parseRequest_def step parse_step_def c1_def setReceiveTime_def)
      obtain complete r rest where ph: "parse_headers (request c1) (contents b1) = (complete, r, rest)"
        by (metis prod_cases3)
      from headers_loop [OF f(6) _ ph, of now True] ph loop st f(7) Some mpqv
        \<open>split_line (contents b) = Some lr\<close> lr show ?thesis
        by (auto simp: reference_parse_def reference_headers_def c1_def)
    qed
  qed
qed

section \<open>Properties\<close>

text \<open>
  C2 (equivalence). On a context it can be resumed with, \<^verbatim>\<open>parseRequest\<close> returns (its loop
  ends and no assertion fires), and the result is that of the reference parser on the
  readable bytes: a bad request line is reported and leaves the buffer as it was; otherwise
  the context and the unread bytes are those of the reference.
\<close>

theorem parseRequest_reference:
  assumes "ready c" and "buffer_inv b"
  shows "\<exists>ok c' b'. parseRequest now c b = Some (Inr (ok, c', b')) \<and> buffer_inv b' \<and>
    (case reference_parse now c (contents b) of
       BadRequest \<Rightarrow> \<not> ok \<and> \<not> gotAll c' \<and> b' = b
     | Parsed c1 rest \<Rightarrow> ok \<and> c' = c1 \<and> contents b' = rest)"
  using assms by (rule parseRequest_agrees)

theorem parseRequest_reference_witness:
  "\<exists>c' b'. parseRequest (TimeStamp 7) new_HttpContext
      \<lparr>storage = ''BAD / HTTP/1.1'' @ kCRLF, readerIndex = 0, writerIndex = 16\<rparr> = Some (Inr (False, c', b'))"
proof -
  let ?s = "''BAD / HTTP/1.1'' @ kCRLF"
  have "memmem ?s kCRLF = Some 14" by (simp add: kCRLF_def)
  then have "reference_parse (TimeStamp 7) new_HttpContext ?s = BadRequest"
    by (simp add: reference_parse_def split_line_def request_line_def before_def after_def method_of_def
        new_HttpContext_def)
  then show ?thesis
    using parseRequest_reference [of new_HttpContext "\<lparr>storage = ?s, readerIndex = 0, writerIndex = 16\<rparr>" "TimeStamp 7"]
    by (auto simp: ready_def buffer_inv_def contents_def kCRLF_def)
qed

subsection \<open>Round trip\<close>

text \<open>The text of a request, written with the code's own \<^verbatim>\<open>methodString\<close>, and the requests whose
  text is unambiguous.\<close>

fun version_text :: "Version \<Rightarrow> bytes" where
  "version_text kHttp11 = ''HTTP/1.1''"
| "version_text kHttp10 = ''HTTP/1.0''"
| "version_text kUnknown = []"

definition line_text :: "HttpRequest \<Rightarrow> bytes" where
  "line_text r = methodString r @ '' '' @ path r @ query r @ '' '' @ version_text (version r)"

definition request_text :: "HttpRequest \<Rightarrow> (bytes \<times> bytes) list \<Rightarrow> bytes" where
  "request_text r hs = line_text r @ kCRLF @ concat (map header_text hs) @ kCRLF"

definition plain :: "char set \<Rightarrow> bytes \<Rightarrow> bool" where
  "plain bad s \<longleftrightarrow> (\<forall>c \<in> set s. c \<notin> bad)"

definition header_ok :: "bytes \<times> bytes \<Rightarrow> bool" where
  "header_ok h \<longleftrightarrow> plain {CHR '':'', CHR 0x0D} (fst h) \<and> plain {CHR 0x0D} (snd h) \<and>
     (snd h = [] \<or> \<not> isspace (hd (snd h)) \<and> \<not> isspace (last (snd h)))"

definition request_ok :: "HttpRequest \<Rightarrow> bool" where
  "request_ok r \<longleftrightarrow> request_method r \<noteq> kInvalid \<and> version r \<noteq> kUnknown \<and>
     plain {CHR '' '', CHR ''?'', CHR 0x0D} (path r) \<and> plain {CHR '' '', CHR 0x0D} (query r) \<and>
     (query r = [] \<or> hd (query r) = CHR ''?'')"

lemma before_append: "c \<notin> set a \<Longrightarrow> before c (a @ c # s) = a \<and> after c (a @ c # s) = s"
  unfolding before_def after_def by (induction a) auto

lemma memmem_line: "CHR 0x0D \<notin> set l \<Longrightarrow> memmem (l @ kCRLF @ s) kCRLF = Some (length l)"
proof (induction l)
  case Nil
  then show ?case by (simp add: kCRLF_def)
next
  case (Cons x l)
  then show ?case by (auto simp: kCRLF_def)
qed

lemma split_line_text: "CHR 0x0D \<notin> set l \<Longrightarrow> split_line (l @ kCRLF @ s) = Some (l, s)"
  by (simp add: split_line_def memmem_line) (simp add: kCRLF_def)

lemma header_of_line_text:
  assumes "header_ok h"
  shows "header_of_line (fst h @ '': '' @ snd h) = h"
proof -
  have "CHR '':'' \<notin> set (fst h)" using assms by (auto simp: header_ok_def plain_def)
  moreover have "dropWhile isspace ('' '' @ snd h) = dropWhile isspace (snd h)" by (simp add: isspace_def)
  then have "trim ('' '' @ snd h) = snd h"
    using assms trim_id [of "snd h"] by (auto simp: trim_def header_ok_def)
  ultimately show ?thesis
    using before_append [of "CHR '':''" "fst h" "'' '' @ snd h"] by (simp add: header_of_line_def)
qed

lemma parse_headers_line:
  assumes "header_ok h"
  shows "parse_headers r (header_text h @ s) = parse_headers (r\<lparr>headers := map_set (fst h) (snd h) (headers r)\<rparr>) s"
proof -
  let ?l = "fst h @ '': '' @ snd h"
  have "CHR 0x0D \<notin> set ?l" using assms by (auto simp: header_ok_def plain_def)
  then have "split_line (header_text h @ s) = Some (?l, s)" using split_line_text [of ?l s] by (simp add: header_text_def)
  then show ?thesis using header_of_line_text [OF assms] by (subst parse_headers.simps) (simp only: option.case prod.case, simp)
qed

lemma parse_headers_text:
  "\<forall>h \<in> set hs. header_ok h \<Longrightarrow> parse_headers r (concat (map header_text hs) @ kCRLF @ rest) =
    (True, r\<lparr>headers := fold (\<lambda>(k, v). map_set k v) hs (headers r)\<rparr>, rest)"
proof (induction hs arbitrary: r)
  case Nil
  then show ?case using split_line_text [of "[]" rest] by (simp add: parse_headers.simps)
next
  case (Cons h hs)
  with parse_headers_line [of h r] show ?case by (simp add: case_prod_unfold)
qed

text \<open>Header lines with an incomplete one behind them.\<close>

lemma parse_headers_partial:
  "\<forall>h \<in> set hs. header_ok h \<Longrightarrow> split_line t = None \<Longrightarrow>
    \<exists>r'. parse_headers r (concat (map header_text hs) @ t) = (False, r', t)"
proof (induction hs arbitrary: r)
  case Nil
  then show ?case by (simp add: parse_headers.simps)
next
  case (Cons h hs)
  with parse_headers_line [of h r] show ?case by simp
qed

lemma methodString_plain:
  "request_method r \<noteq> kInvalid \<Longrightarrow> method_of (methodString r) = request_method r \<and>
    CHR '' '' \<notin> set (methodString r) \<and> CHR 0x0D \<notin> set (methodString r)"
  by (cases "request_method r") (auto simp: method_of_def methodString_def)

lemma version_text_of: "version r \<noteq> kUnknown \<Longrightarrow> version_of (version_text (version r)) = Some (version r) \<and>
    CHR 0x0D \<notin> set (version_text (version r))"
  by (cases "version r") (auto simp: version_of_def)

lemma request_line_text:
  assumes "request_ok r"
  shows "request_line (line_text r) = Some (request_method r, path r, query r, version r) \<and> CHR 0x0D \<notin> set (line_text r)"
proof -
  define t where "t = path r @ query r"
  let ?v = "version_text (version r)"
  have m: "method_of (methodString r) = request_method r" "request_method r \<noteq> kInvalid" "CHR '' '' \<notin> set (methodString r)"
      "CHR 0x0D \<notin> set (methodString r)"
    and v: "version_of ?v = Some (version r)" "CHR 0x0D \<notin> set ?v"
    using assms methodString_plain [of r] version_text_of [of r] by (auto simp: request_ok_def)
  have sp: "CHR '' '' \<notin> set t" and cr: "CHR 0x0D \<notin> set t"
    using assms by (auto simp: t_def request_ok_def plain_def)
  have l: "line_text r = methodString r @ CHR '' '' # t @ CHR '' '' # ?v"
    by (simp add: line_text_def t_def)
  have "\<forall>c \<in> set (path r). c \<noteq> CHR ''?''" using assms by (auto simp: request_ok_def plain_def)
  then have qm: "before (CHR ''?'') t = path r" "dropWhile (\<lambda>x. x \<noteq> CHR ''?'') t = query r"
    using assms unfolding t_def
    by (cases "query r"; auto simp: request_ok_def before_def takeWhile_eq_all_conv)+
  note a1 = before_append [OF m(3), of "t @ CHR '' '' # ?v"] and a2 = before_append [OF sp, of ?v]
  have "request_line (line_text r) = Some (request_method r, path r, query r, version r)"
    unfolding l by (simp add: request_line_def a1 a2 m v qm Let_def)
  moreover have "CHR 0x0D \<notin> set (line_text r)" using cr m v by (auto simp: l)
  ultimately show ?thesis by blast
qed

lemma fold_map_set: "fold (\<lambda>(k, v). map_set k v) hs [] = om.assign_all hs []"
  by (simp add: om.assign_all_def)

lemma request_text_parses:
  assumes "request_ok r" and "\<forall>h \<in> set hs. header_ok h" and "buffer_inv b"
    and "contents b = request_text r hs @ rest"
  shows "\<exists>r' b'. parseRequest now new_HttpContext b = Some (Inr (True, \<lparr>state = kGotAll, request = r'\<rparr>, b')) \<and>
    contents b' = rest \<and> buffer_inv b' \<and> request_method r' = request_method r \<and> path r' = path r \<and> query r' = query r \<and>
    version r' = version r \<and> receiveTime r' = now \<and> map_of (headers r') = map_of (rev hs)"
proof -
  let ?r = "new_HttpRequest\<lparr>request_method := request_method r, path := path r, query := query r, version := version r, receiveTime := now\<rparr>"
  let ?r' = "?r\<lparr>headers := fold (\<lambda>(k, v). map_set k v) hs []\<rparr>"
  have split: "split_line (contents b) = Some (line_text r, concat (map header_text hs) @ kCRLF @ rest)"
    using split_line_text request_line_text [OF assms(1)] assms(4) by (simp add: request_text_def)
  have "reference_parse now new_HttpContext (contents b) = Parsed \<lparr>state = kGotAll, request = ?r'\<rparr> rest"
    using split request_line_text [OF assms(1)] parse_headers_text [OF assms(2), of ?r rest]
    by (simp add: reference_parse_def reference_headers_def new_HttpContext_def) (simp add: new_HttpRequest_def)
  then obtain b' where "parseRequest now new_HttpContext b = Some (Inr (True, \<lparr>state = kGotAll, request = ?r'\<rparr>, b'))"
      "contents b' = rest" "buffer_inv b'"
    using parseRequest_agrees [OF _ assms(3), of new_HttpContext now] by (auto simp: ready_def)
  then show ?thesis by (auto simp: fold_map_set om.lookup_assign_all)
qed

text \<open>
  C3 (roundtrip). The text of every well-formed request parses, in one call on a new
  context, to that request: method, path, query, version, and for each header name the value
  given last; the bytes behind the empty line, such as a message body, stay in the buffer.
\<close>

theorem parseRequest_roundtrip:
  assumes "request_ok r" and "\<forall>h \<in> set hs. header_ok h" and "buffer_inv b"
    and "contents b = request_text r hs @ rest"
  shows "\<exists>r' b'. parseRequest now new_HttpContext b = Some (Inr (True, \<lparr>state = kGotAll, request = r'\<rparr>, b')) \<and>
    contents b' = rest \<and> request_method r' = request_method r \<and> path r' = path r \<and> query r' = query r \<and>
    version r' = version r \<and> receiveTime r' = now \<and> map_of (headers r') = map_of (rev hs)"
  using request_text_parses [OF assms] by blast

theorem parseRequest_roundtrip_witness:
  "\<exists>r' b'. parseRequest (TimeStamp 5) new_HttpContext
      \<lparr>storage = request_text (new_HttpRequest\<lparr>request_method := kGet, path := ''/'', version := kHttp11\<rparr>)
          [(''Host'', ''a b''), (''Host'', ''c'')] @ ''body'',
        readerIndex = 0,
        writerIndex = length (request_text (new_HttpRequest\<lparr>request_method := kGet, path := ''/'', version := kHttp11\<rparr>)
          [(''Host'', ''a b''), (''Host'', ''c'')] @ ''body'')\<rparr>
      = Some (Inr (True, \<lparr>state = kGotAll, request = r'\<rparr>, b')) \<and>
    contents b' = ''body'' \<and> path r' = ''/'' \<and> getHeader ''Host'' r' = ''c''"
proof -
  let ?r = "new_HttpRequest\<lparr>request_method := kGet, path := ''/'', version := kHttp11\<rparr>"
  let ?hs = "[(''Host'', ''a b''), (''Host'', ''c'')]"
  let ?t = "request_text ?r ?hs @ ''body''"
  have ok: "request_ok ?r" "\<forall>h \<in> set ?hs. header_ok h"
    by (simp_all add: request_ok_def header_ok_def plain_def isspace_def new_HttpRequest_def)
  have b: "buffer_inv \<lparr>storage = ?t, readerIndex = 0, writerIndex = length ?t\<rparr>"
    "contents \<lparr>storage = ?t, readerIndex = 0, writerIndex = length ?t\<rparr> = ?t"
    by (simp_all add: buffer_inv_def contents_def)
  from parseRequest_roundtrip [OF ok b, of "TimeStamp 5"] show ?thesis by (auto simp: getHeader_def)
qed

subsection \<open>Parsing in pieces\<close>

lemma split_line_append: "split_line s = Some (l, rest) \<Longrightarrow> split_line (s @ d) = Some (l, rest @ d)"
proof -
  assume "split_line s = Some (l, rest)"
  then obtain i where i: "memmem s kCRLF = Some i" "l = take i s" "rest = drop (i + 2) s"
    by (auto simp: split_line_def)
  have ne: "kCRLF \<noteq> []" and len: "length kCRLF = 2" by (simp_all add: kCRLF_def)
  have le: "i + 2 \<le> length s" using memmem_bound [OF i(1)] by (simp add: len)
  have same: "take 2 (drop k (s @ d)) = take 2 (drop k s)" if "k \<le> i" for k
    using that le by (simp add: take_append)
  have first: "take 2 (drop i s) = kCRLF" "\<forall>k<i. take 2 (drop k s) \<noteq> kCRLF"
    using iffD1 [OF memmem_Some_iff [OF ne] i(1)] unfolding len by (rule conjunct1, rule conjunct2)
  have "take 2 (drop i (s @ d)) = kCRLF" "\<forall>k<i. take 2 (drop k (s @ d)) \<noteq> kCRLF"
    using first same by (metis order_refl, metis less_imp_le)
  then have "memmem (s @ d) kCRLF = Some i"
    by (simp only: memmem_Some_iff [OF ne] len)
  with i le show ?thesis by (simp add: split_line_def)
qed

lemma parse_headers_append:
  "parse_headers r s = (False, r1, rest) \<Longrightarrow> parse_headers r (s @ d) = parse_headers r1 (rest @ d)"
proof (induction r s arbitrary: r1 rest rule: parse_headers.induct)
  case (1 r s)
  show ?case
  proof (cases "split_line s")
    case None
    with "1.prems" show ?thesis by (simp add: parse_headers.simps [of r s])
  next
    case (Some lr)
    obtain l rs where lr: "lr = (l, rs)" by fastforce
    note app = split_line_append [OF Some [unfolded lr], of d]
    from "1.prems" Some lr have "CHR '':'' \<in> set l" by (auto simp: parse_headers.simps [of r s] split: if_splits)
    with "1.prems" "1.IH" [OF Some lr [symmetric]] Some lr app show ?thesis
      by (simp add: parse_headers.simps [of r s] parse_headers.simps [of r "s @ d"])
  qed
qed

lemma reference_parse_append:
  assumes "ready c" and "reference_parse now c s = Parsed c1 rest" and "\<not> gotAll c1"
  shows "ready c1 \<and> reference_parse now c (s @ d) = reference_parse now c1 (rest @ d)"
proof -
  have hd: "reference_headers r s' = Parsed c1 rest \<Longrightarrow> state c1 = kExpectHeaders \<and>
      reference_headers r (s' @ d) = reference_headers (request c1) (rest @ d)" for r s'
    using assms(3) parse_headers_append [of r s' _ rest d]
    by (auto simp: reference_headers_def gotAll_def split: prod.splits if_splits)
  show ?thesis
  proof (cases "state c = kExpectHeaders")
    case True
    with hd [of "request c" s] assms(2) show ?thesis by (simp add: reference_parse_def ready_def)
  next
    case False
    with assms(1) have c: "c = new_HttpContext" by (simp add: ready_def)
    show ?thesis
    proof (cases "split_line s")
      case None
      with False c assms(2) show ?thesis by (simp add: reference_parse_def ready_def)
    next
      case (Some lr)
      with False assms(2) split_line_append [of s "fst lr" "snd lr" d] hd show ?thesis
        by (cases lr) (auto simp: reference_parse_def ready_def split: option.splits)
    qed
  qed
qed

text \<open>
  C32 (functional). A parser that keeps its context between calls is insensitive to how the
  bytes arrive: if one call consumes what it can of a part of a request and more bytes are
  then appended, the next call on the kept context ends as a single call on all the bytes
  would have, with the same verdict and, when the bytes are accepted, the same request and
  the same unread bytes.
\<close>

theorem parseRequest_incremental:
  assumes "ready c" and "buffer_inv b" and "parseRequest now c b = Some (Inr (True, c1, b1))" and "\<not> gotAll c1"
    and "append_bytes d b1 = Inr b2" and "append_bytes d b = Inr whole"
  shows "\<exists>ok c2 b3 c2' b3'. parseRequest now c1 b2 = Some (Inr (ok, c2, b3)) \<and>
    parseRequest now c whole = Some (Inr (ok, c2', b3')) \<and> (ok \<longrightarrow> c2 = c2' \<and> contents b3 = contents b3')"
proof -
  obtain rest where ref: "reference_parse now c (contents b) = Parsed c1 rest" "contents b1 = rest" "buffer_inv b1"
    using parseRequest_agrees [OF assms(1,2), of now] assms(3)
    by (cases "reference_parse now c (contents b)") fastforce+
  note app = reference_parse_append [OF assms(1) ref(1) assms(4), of d]
  have b2: "buffer_inv b2" "contents b2 = rest @ d" and whole: "buffer_inv whole" "contents whole = contents b @ d"
    using append_bytes_Inr [OF ref(3) assms(5)] append_bytes_Inr [OF assms(2,6)] ref(2) by auto
  obtain ok2 c2 b3 where second: "parseRequest now c1 b2 = Some (Inr (ok2, c2, b3))"
      "case reference_parse now c (contents b @ d) of BadRequest \<Rightarrow> \<not> ok2 \<and> \<not> gotAll c2 \<and> b3 = b2
        | Parsed c' rest' \<Rightarrow> ok2 \<and> c2 = c' \<and> contents b3 = rest'"
    using parseRequest_agrees [OF conjunct1 [OF app] b2(1), of now] b2(2) conjunct2 [OF app] by metis
  obtain ok3 c3 b4 where single: "parseRequest now c whole = Some (Inr (ok3, c3, b4))"
      "case reference_parse now c (contents b @ d) of BadRequest \<Rightarrow> \<not> ok3 \<and> \<not> gotAll c3 \<and> b4 = whole
        | Parsed c' rest' \<Rightarrow> ok3 \<and> c3 = c' \<and> contents b4 = rest'"
    using parseRequest_agrees [OF assms(1) whole(1), of now] whole(2) by metis
  have "ok2 = ok3 \<and> (ok2 \<longrightarrow> c2 = c3 \<and> contents b3 = contents b4)"
    using second(2) single(2) by (cases "reference_parse now c (contents b @ d)") simp_all
  with second(1) single(1) show ?thesis by blast
qed

theorem parseRequest_incremental_witness:
  "let b = \<lparr>storage = ''GET / HTTP/1.1'' @ kCRLF @ ''A'', readerIndex = 0, writerIndex = 17\<rparr> in
   \<exists>c1 b1 b2 whole ok c2 b3 c2' b3'. parseRequest (TimeStamp 5) new_HttpContext b = Some (Inr (True, c1, b1)) \<and>
    append_bytes ('': b'' @ kCRLF) b1 = Inr b2 \<and> append_bytes ('': b'' @ kCRLF) b = Inr whole \<and>
    parseRequest (TimeStamp 5) c1 b2 = Some (Inr (ok, c2, b3)) \<and>
    parseRequest (TimeStamp 5) new_HttpContext whole = Some (Inr (ok, c2', b3')) \<and>
    (ok \<longrightarrow> c2 = c2' \<and> contents b3 = contents b3')"
proof -
  let ?b = "\<lparr>storage = ''GET / HTTP/1.1'' @ kCRLF @ ''A'', readerIndex = 0, writerIndex = 17\<rparr>"
  let ?c1 = "\<lparr>state = kExpectHeaders, request = new_HttpRequest\<lparr>request_method := kGet, path := ''/'', version := kHttp11,
      receiveTime := TimeStamp 5\<rparr>\<rparr>"
  have inv: "buffer_inv ?b" by (simp add: buffer_inv_def kCRLF_def)
  have rd: "ready new_HttpContext" by (simp add: ready_def)
  have "reference_parse (TimeStamp 5) new_HttpContext (contents ?b) = Parsed ?c1 ''A''" by code_simp
  then obtain b1 where b1: "parseRequest (TimeStamp 5) new_HttpContext ?b = Some (Inr (True, ?c1, b1))" "buffer_inv b1"
    using parseRequest_agrees [OF rd inv, of "TimeStamp 5"] by fastforce
  obtain b2 whole where app: "append_bytes ('': b'' @ kCRLF) b1 = Inr b2" "append_bytes ('': b'' @ kCRLF) ?b = Inr whole"
    using append_bytes_ok [OF b1(2)] append_bytes_ok [OF inv] by blast
  have "\<not> gotAll ?c1" by (simp add: gotAll_def)
  from parseRequest_incremental [OF rd inv b1(1) this app] b1(1) app show ?thesis by (simp only: Let_def) blast
qed

subsection \<open>The states the loop does not handle\<close>

lemma parse_loop_returns: "parse_loop now ok c b = Some y \<Longrightarrow> state c \<notin> {kExpectody, kGotAll}"
proof -
  assume ret: "parse_loop now ok c b = Some y"
  show ?thesis
  proof (rule parse_loop.raw_induct [where P = "\<lambda>now ok c b y. state c \<notin> {kExpectody, kGotAll}", OF _ ret])
    fix loop now ok c b y
    assume "\<And>now ok c b y. loop now ok c b = Some y \<Longrightarrow> state c \<notin> {kExpectody, kGotAll}"
      and "(case parse_step now ok c b of Inl e \<Rightarrow> Some (Inl e)
        | Inr (ok', hasMore, c', b') \<Rightarrow> if hasMore then loop now ok' c' b' else Some (Inr (ok', c', b'))) = Some y"
    then show "state c \<notin> {kExpectody, kGotAll}" by (auto simp: parse_step_def)
  qed
qed

lemma parse_loop_stuck: "state c \<in> {kExpectody, kGotAll} \<Longrightarrow> parse_loop now ok c b = None"
  using parse_loop_returns [of now ok c b] by (cases "parse_loop now ok c b") auto

text \<open>
  C40 (termination). \<^verbatim>\<open>parseRequest\<close> never returns on a context that already holds a complete
  request, or that is in the body state: its loop has no branch that would change anything.
\<close>

theorem parseRequest_diverges:
  assumes "state c = kGotAll \<or> state c = kExpectody"
  shows "parseRequest now c b = None"
  using assms parse_loop_stuck [of c] by (auto simp: parseRequest_def)

theorem parseRequest_diverges_witness:
  "parseRequest (TimeStamp 1) (new_HttpContext\<lparr>state := kGotAll\<rparr>) \<lparr>storage = [], readerIndex = 0, writerIndex = 0\<rparr> = None"
  by (rule parseRequest_diverges) simp

subsection \<open>Well-formed requests\<close>

text \<open>
  What the handler of a complete request can rely on: a known method and version, a path and a query split at the first question mark
  and free of blanks, header fields without a colon, in the order of the map, and values without space at either end.
\<close>

definition trimmed :: "bytes \<Rightarrow> bool" where
  "trimmed v \<longleftrightarrow> v = [] \<or> \<not> isspace (hd v) \<and> \<not> isspace (last v)"

definition wf_request :: "HttpRequest \<Rightarrow> bool" where
  "wf_request r \<longleftrightarrow> request_method r \<noteq> kInvalid \<and> version r \<noteq> kUnknown \<and>
     CHR '' '' \<notin> set (path r) \<union> set (query r) \<and> CHR ''?'' \<notin> set (path r) \<and> (query r = [] \<or> hd (query r) = CHR ''?'') \<and>
     map_invar (headers r) \<and> (\<forall>(k, v) \<in> set (headers r). CHR '':'' \<notin> set k \<and> trimmed v)"

definition wf_context :: "HttpContext \<Rightarrow> bool" where
  "wf_context c \<longleftrightarrow> c = new_HttpContext \<or> state c \<in> {kExpectHeaders, kGotAll} \<and> wf_request (request c)"

lemma strip_back_prefix: "\<exists>zs. val = strip_back val @ zs"
proof (induction val rule: strip_back.induct)
  case (1 val)
  show ?case
  proof (cases "val \<noteq> [] \<and> isspace (last val)")
    case True
    then obtain zs where "butlast val = strip_back val @ zs" using 1 strip_back.simps [of val] by auto
    then have "val = strip_back val @ zs @ [last val]" using True append_butlast_last_id [of val] by simp
    then show ?thesis by blast
  next
    case False
    then have "strip_back val = val" by (subst strip_back.simps) auto
    then show ?thesis by simp
  qed
qed

lemma strip_back_last: "strip_back val \<noteq> [] \<Longrightarrow> \<not> isspace (last (strip_back val))"
proof (induction val rule: strip_back.induct)
  case (1 val)
  then show ?case by (cases "val \<noteq> [] \<and> isspace (last val)") (simp_all add: strip_back.simps [of val])
qed

lemma trimmed_trim: "trimmed (trim s)"
proof (cases "trim s = []")
  case False
  obtain zs where z: "dropWhile isspace s = trim s @ zs" using strip_back_prefix [of "dropWhile isspace s"] by (auto simp: trim_def)
  with False have "hd (trim s) = hd (dropWhile isspace s)" "dropWhile isspace s \<noteq> []" by auto
  with hd_dropWhile [of isspace s] strip_back_last [of "dropWhile isspace s"] False show ?thesis
    by (simp add: trimmed_def trim_def)
qed (simp add: trimmed_def)

lemma not_in_before: "c \<notin> set (before c s)"
  by (auto simp: before_def dest: set_takeWhileD)

lemma set_map_set: "set (map_set k v m) \<subseteq> insert (k, v) (set m)"
  by (induction k v m rule: map_set.induct) auto

lemma wf_add_header:
  assumes "wf_request r"
  shows "wf_request (r\<lparr>headers := map_set (fst (header_of_line l)) (snd (header_of_line l)) (headers r)\<rparr>)"
proof -
  let ?k = "fst (header_of_line l)" and ?v = "snd (header_of_line l)"
  have "CHR '':'' \<notin> set ?k" "trimmed ?v" by (simp_all add: header_of_line_def not_in_before trimmed_trim)
  with assms set_map_set [of ?k ?v "headers r"] have "\<forall>(k, v) \<in> set (map_set ?k ?v (headers r)). CHR '':'' \<notin> set k \<and> trimmed v"
    unfolding wf_request_def by fastforce
  moreover have "map_invar (map_set ?k ?v (headers r))" using assms by (intro map_invar_map_set) (simp add: wf_request_def)
  ultimately show ?thesis using assms unfolding wf_request_def by simp
qed

lemma parse_headers_wf: "wf_request r \<Longrightarrow> parse_headers r s = (complete, r', rest) \<Longrightarrow> wf_request r'"
proof (induction r s rule: parse_headers.induct)
  case (1 r s)
  show ?case
  proof (cases "split_line s")
    case None
    with 1(2,3) show ?thesis by (simp add: parse_headers.simps [of r s])
  next
    case (Some lr)
    obtain l rest' where lr: "lr = (l, rest')" by fastforce
    show ?thesis
    proof (cases "CHR '':'' \<in> set l")
      case True
      with 1(1) [OF Some lr [symmetric] True wf_add_header [OF 1(2)]] 1(3) Some lr show ?thesis by (simp add: parse_headers.simps [of r s])
    next
      case False
      with 1(2,3) Some lr show ?thesis by (simp add: parse_headers.simps [of r s])
    qed
  qed
qed

lemma request_line_wf:
  assumes "request_line l = Some (m, p, q, v)" and "headers r = []"
  shows "wf_request (r\<lparr>request_method := m, path := p, query := q, version := v, receiveTime := now\<rparr>)"
proof -
  let ?t = "before (CHR '' '') (after (CHR '' '') l)"
  have m: "m \<noteq> kInvalid" "p = before (CHR ''?'') ?t" "q = dropWhile (\<lambda>x. x \<noteq> CHR ''?'') ?t" "v \<noteq> kUnknown"
    using assms(1) by (auto simp: request_line_def Let_def version_of_def split: if_splits)
  have "set p \<subseteq> set ?t" "set q \<subseteq> set ?t"
    using m(2,3) by (auto simp: before_def dest: set_takeWhileD set_dropWhileD)
  then have "CHR '' '' \<notin> set p \<union> set q" using not_in_before [of "CHR '' ''"] by blast
  moreover have "q = [] \<or> hd q = CHR ''?''" using m(3) hd_dropWhile [of "\<lambda>x. x \<noteq> CHR ''?''" ?t] by blast
  ultimately show ?thesis using m assms(2) not_in_before [of "CHR ''?''" ?t] by (simp add: wf_request_def)
qed

lemma reference_wf:
  assumes "wf_context c" and "\<not> gotAll c" and "reference_parse now c s = Parsed c' rest"
  shows "wf_context c'"
proof (cases "state c = kExpectHeaders")
  case True
  then have "wf_request (request c)" using assms(1) by (auto simp: wf_context_def new_HttpContext_def)
  with True assms(3) parse_headers_wf show ?thesis
    by (auto simp: reference_parse_def reference_headers_def wf_context_def split: prod.splits)
next
  case False
  then have c: "c = new_HttpContext" using assms(1,2) by (auto simp: wf_context_def gotAll_def)
  show ?thesis
  proof (cases "split_line s")
    case None
    with c assms(3) show ?thesis by (auto simp: reference_parse_def wf_context_def new_HttpContext_def)
  next
    case (Some lr)
    obtain l rest' where lr: "lr = (l, rest')" by fastforce
    obtain m p q v where line: "request_line l = Some (m, p, q, v)"
      using assms(3) False Some lr by (auto simp: reference_parse_def split: option.splits)
    have "headers (request c) = []" by (simp add: c new_HttpContext_def new_HttpRequest_def)
    note wf = parse_headers_wf [OF request_line_wf [OF line this, of now]]
    from False Some lr line assms(3) show ?thesis
      by (auto simp: reference_parse_def reference_headers_def wf_context_def dest: wf split: prod.splits)
  qed
qed

text \<open>
  C24 (type). The parser produces well-formed requests only: from a new context, or one it left after an earlier call with a request
  line already read, \<^verbatim>\<open>parseRequest\<close> returns, and unless it reports a bad request its context is well-formed again; in particular every
  complete request is.
\<close>

theorem parseRequest_wf:
  assumes "wf_context c" and "\<not> gotAll c" and "buffer_inv b"
  shows "\<exists>ok c' b'. parseRequest now c b = Some (Inr (ok, c', b')) \<and> buffer_inv b' \<and> (ok \<longrightarrow> wf_context c') \<and>
    (gotAll c' \<longrightarrow> wf_request (request c'))"
proof -
  have ready: "ready c" using assms(1,2) by (auto simp: wf_context_def ready_def gotAll_def)
  obtain ok c' b' where p: "parseRequest now c b = Some (Inr (ok, c', b'))" "buffer_inv b'"
      "case reference_parse now c (contents b) of BadRequest \<Rightarrow> \<not> ok \<and> \<not> gotAll c' \<and> b' = b | Parsed c1 rest \<Rightarrow> ok \<and> c' = c1 \<and> contents b' = rest"
    using parseRequest_agrees [OF ready assms(3), of now] by blast
  have wf: "wf_context c' \<or> \<not> ok \<and> \<not> gotAll c'"
    using p(3) reference_wf [OF assms(1,2), of now "contents b"] by (cases "reference_parse now c (contents b)") auto
  moreover have "wf_context c' \<Longrightarrow> gotAll c' \<Longrightarrow> wf_request (request c')"
    by (auto simp: wf_context_def gotAll_def new_HttpContext_def)
  ultimately show ?thesis using p(1,2) by blast
qed

theorem parseRequest_wf_witness:
  "\<exists>ok c' b'. parseRequest (TimeStamp 7) new_HttpContext
      \<lparr>storage = ''GET /a?b HTTP/1.1'' @ kCRLF, readerIndex = 0, writerIndex = 19\<rparr> = Some (Inr (ok, c', b')) \<and> (ok \<longrightarrow> wf_context c')"
proof -
  have "buffer_inv \<lparr>storage = ''GET /a?b HTTP/1.1'' @ kCRLF, readerIndex = 0, writerIndex = 19\<rparr>"
    by (simp add: buffer_inv_def kCRLF_def)
  from parseRequest_wf [of new_HttpContext, OF _ _ this, of "TimeStamp 7"] show ?thesis
    by (auto simp: wf_context_def gotAll_def new_HttpContext_def)
qed

end
