(* ===== verification/Channel_Poller.thy ===== *)
theory Channel_Poller
  imports Time_Stamp Std_Containers
begin

unbundle bit_operations_syntax

text \<open>
  \<^verbatim>\<open>net/Channel.h\<close>, \<^verbatim>\<open>net/Channel.cpp\<close>, \<^verbatim>\<open>net/Poller.h\<close>, \<^verbatim>\<open>net/Poller.cpp\<close> and the part of
  \<^verbatim>\<open>net/EventLoop.cpp\<close> that registers channels and dispatches their events. Channels are objects on
  a heap, known by their address; the poller keeps an array of \<^verbatim>\<open>pollfd\<close>s and a map from descriptors to
  channels, and each channel its index in the array. Event masks are machine words: 32 bits in a
  channel, 16 bits in a \<^verbatim>\<open>pollfd\<close>. What \<^verbatim>\<open>poll\<close> delivers is an argument, and the callbacks of a
  channel are parameters. The array and the map are shown to implement a map from descriptors to
  interests.
\<close>

section \<open>Event masks\<close>

definition POLLIN :: "32 word" where "POLLIN = 0x1"
definition POLLPRI :: "32 word" where "POLLPRI = 0x2"
definition POLLOUT :: "32 word" where "POLLOUT = 0x4"
definition POLLERR :: "32 word" where "POLLERR = 0x8"
definition POLLHUP :: "32 word" where "POLLHUP = 0x10"
definition POLLNVAL :: "32 word" where "POLLNVAL = 0x20"
definition POLLRDHUP :: "32 word" where "POLLRDHUP = 0x2000"

definition kNoneEvent :: "32 word" where "kNoneEvent = 0"
definition kReadEvent :: "32 word" where "kReadEvent = POLLIN OR POLLPRI"
definition kWriteEvent :: "32 word" where "kWriteEvent = POLLOUT"

section \<open>Channel\<close>

text \<open>A callback that is set is called; \<open>callbacks\<close> holds the kinds that are set.\<close>

datatype event_kind = ReadEv | WriteEv | CloseEv | ErrorEv

record Channel =
  ownerLoop :: nat
  fd :: int
  events :: "32 word"
  revents :: "32 word"
  index :: int
  logHup :: bool
  tied :: bool
  eventHandling :: bool
  addedToLoop :: bool
  callbacks :: "event_kind list"

definition new_Channel :: "nat \<Rightarrow> int \<Rightarrow> Channel" where
  "new_Channel lp f = \<lparr>ownerLoop = lp, fd = f, events = 0, revents = 0, index = -1, logHup = True,
     tied = False, eventHandling = False, addedToLoop = False, callbacks = []\<rparr>"

definition setCallback :: "event_kind \<Rightarrow> Channel \<Rightarrow> Channel" where
  "setCallback k c = c\<lparr>callbacks := k # callbacks c\<rparr>"

definition set_tie :: "Channel \<Rightarrow> Channel" where
  "set_tie c = c\<lparr>tied := True\<rparr>"

definition set_revents :: "32 word \<Rightarrow> Channel \<Rightarrow> Channel" where
  "set_revents r c = c\<lparr>revents := r\<rparr>"

definition set_index :: "int \<Rightarrow> Channel \<Rightarrow> Channel" where
  "set_index i c = c\<lparr>index := i\<rparr>"

definition doNotLogHup :: "Channel \<Rightarrow> Channel" where
  "doNotLogHup c = c\<lparr>logHup := False\<rparr>"

definition isNoneEvent :: "Channel \<Rightarrow> bool" where
  "isNoneEvent c \<longleftrightarrow> events c = kNoneEvent"

definition isWriting :: "Channel \<Rightarrow> bool" where
  "isWriting c \<longleftrightarrow> events c AND kWriteEvent \<noteq> 0"

definition isReading :: "Channel \<Rightarrow> bool" where
  "isReading c \<longleftrightarrow> events c AND kReadEvent \<noteq> 0"

definition eventsToString :: "int \<Rightarrow> 32 word \<Rightarrow> string" where
  "eventsToString f ev =
     show_int f @ '': '' @
     (if ev AND POLLIN \<noteq> 0 then ''IN '' else []) @
     (if ev AND POLLPRI \<noteq> 0 then ''PRI '' else []) @
     (if ev AND POLLOUT \<noteq> 0 then ''OUT '' else []) @
     (if ev AND POLLHUP \<noteq> 0 then ''HUP '' else []) @
     (if ev AND POLLRDHUP \<noteq> 0 then ''RDHUP '' else []) @
     (if ev AND POLLERR \<noteq> 0 then ''ERR '' else []) @
     (if ev AND POLLNVAL \<noteq> 0 then ''NVAL'' else [])"

section \<open>Poller\<close>

record pollfd =
  pfd_fd :: int
  pfd_events :: "16 word"
  pfd_revents :: "16 word"

text \<open>
  The state of one event loop that concerns channels: its poller, the channels that are alive, and
  the loop's record of the channels being handled.
\<close>

record Loop =
  self :: nat
  chans :: "nat \<rightharpoonup> Channel"
  pollfds :: "pollfd list"
  channels :: "(int \<times> nat) list"
  activeChannels :: "nat list"
  currentActiveChannel :: "nat option"
  handlingEvents :: bool

definition new_Loop :: "nat \<Rightarrow> Loop" where
  "new_Loop lp = \<lparr>self = lp, chans = Map.empty, pollfds = [], channels = [], activeChannels = [],
     currentActiveChannel = None, handlingEvents = False\<rparr>"

definition get_chan :: "nat \<Rightarrow> Loop \<Rightarrow> Channel result" where
  "get_chan a s = (case chans s a of None \<Rightarrow> Inl UseAfterFree | Some c \<Rightarrow> Inr c)"

definition put_chan :: "nat \<Rightarrow> Channel \<Rightarrow> Loop \<Rightarrow> Loop" where
  "put_chan a c s = s\<lparr>chans := (chans s)(a \<mapsto> c)\<rparr>"

definition poller_hasChannel :: "nat \<Rightarrow> Loop \<Rightarrow> bool result" where
  "poller_hasChannel a s = bind_r (get_chan a s) (\<lambda>c. Inr (map_of (channels s) (fd c) = Some a))"

definition poller_updateChannel :: "nat \<Rightarrow> Loop \<Rightarrow> Loop result" where
  "poller_updateChannel a s =
     bind_r (get_chan a s) (\<lambda>c.
       if index c < 0 then
         asserting (map_of (channels s) (fd c) = None)
           (let pfd = \<lparr>pfd_fd = fd c, pfd_events = ucast (events c), pfd_revents = 0\<rparr>;
                s1 = s\<lparr>pollfds := pollfds s @ [pfd]\<rparr>;
                idx = int (length (pollfds s1) - 1)
            in Inr ((put_chan a (set_index idx c) s1)\<lparr>channels := map_set (fd c) a (channels s1)\<rparr>))
       else
         asserting (map_of (channels s) (fd c) \<noteq> None)
           (asserting (map_of (channels s) (fd c) = Some a)
             (let idx = index c in
              asserting (0 \<le> idx \<and> idx < int (length (pollfds s)))
                (let pfd = pollfds s ! nat idx in
                 asserting (pfd_fd pfd = fd c \<or> pfd_fd pfd = - fd c - 1)
                   (Inr (s\<lparr>pollfds := (pollfds s)[nat idx :=
                      \<lparr>pfd_fd = (if isNoneEvent c then - fd c - 1 else fd c),
                       pfd_events = ucast (events c), pfd_revents = 0\<rparr>]\<rparr>))))))"

definition poller_removeChannel :: "nat \<Rightarrow> Loop \<Rightarrow> Loop result" where
  "poller_removeChannel a s =
     bind_r (get_chan a s) (\<lambda>c.
       asserting (map_of (channels s) (fd c) \<noteq> None)
         (asserting (map_of (channels s) (fd c) = Some a)
           (asserting (isNoneEvent c)
             (let idx = index c in
              asserting (0 \<le> idx \<and> idx < int (length (pollfds s)))
                (let pfd = pollfds s ! nat idx in
                 asserting (pfd_fd pfd = - fd c - 1 \<and> scast (pfd_events pfd) = events c)
                   (let (chs, n) = map_erase (fd c) (channels s); s1 = s\<lparr>channels := chs\<rparr> in
                    asserting (n = 1)
                      (if nat idx = length (pollfds s1) - 1 then
                         Inr (s1\<lparr>pollfds := butlast (pollfds s1)\<rparr>)
                       else
                         let channelAtEnd = pfd_fd (last (pollfds s1));
                             swapped = (pollfds s1)[nat idx := last (pollfds s1), length (pollfds s1) - 1 := pfd];
                             channelAtEnd = (if channelAtEnd < 0 then - channelAtEnd - 1 else channelAtEnd)
                         in case map_of (channels s1) channelAtEnd of
                              None \<Rightarrow> Inl UseAfterFree
                            | Some b \<Rightarrow>
                                bind_r (get_chan b s1) (\<lambda>cb.
                                  Inr ((put_chan b (set_index idx cb) s1)\<lparr>pollfds := butlast swapped\<rparr>)))))))))"

text \<open>The walk over the array; \<open>n\<close> is the number of events still to be found.\<close>

fun fillActiveChannels :: "int \<Rightarrow> pollfd list \<Rightarrow> Loop \<Rightarrow> Loop result" where
  "fillActiveChannels n [] s = Inr s"
| "fillActiveChannels n (pfd # pfds) s =
     (if n > 0 then
        if sint (pfd_revents pfd) > 0 then
          (case map_of (channels s) (pfd_fd pfd) of
             None \<Rightarrow> Inl AssertFail
           | Some a \<Rightarrow>
               bind_r (get_chan a s) (\<lambda>c.
                 asserting (fd c = pfd_fd pfd)
                   (fillActiveChannels (n - 1) pfds
                     ((put_chan a (set_revents (scast (pfd_revents pfd)) c) s)
                       \<lparr>activeChannels := activeChannels s @ [a]\<rparr>))))
        else fillActiveChannels n pfds s
      else Inr s)"

text \<open>What the system call \<^verbatim>\<open>poll\<close> returns, and the \<^verbatim>\<open>revents\<close> fields it writes.\<close>

record poll_out =
  numEvents :: int
  reported :: "16 word list"

definition poller_poll :: "poll_out \<Rightarrow> Loop \<Rightarrow> Loop result" where
  "poller_poll out s =
     (let s1 = s\<lparr>pollfds := map2 (\<lambda>p r. p\<lparr>pfd_revents := r\<rparr>) (pollfds s) (reported out)\<rparr> in
      if numEvents out > 0 then fillActiveChannels (numEvents out) (pollfds s1) s1 else Inr s1)"

section \<open>EventLoop: registration\<close>

definition updateChannel :: "nat \<Rightarrow> Loop \<Rightarrow> Loop result" where
  "updateChannel a s =
     bind_r (get_chan a s) (\<lambda>c. asserting (ownerLoop c = self s) (poller_updateChannel a s))"

definition removeChannel :: "nat \<Rightarrow> Loop \<Rightarrow> Loop result" where
  "removeChannel a s =
     bind_r (get_chan a s) (\<lambda>c. asserting (ownerLoop c = self s)
       (asserting (handlingEvents s \<longrightarrow> currentActiveChannel s = Some a \<or> a \<notin> set (activeChannels s))
         (poller_removeChannel a s)))"

definition hasChannel :: "nat \<Rightarrow> Loop \<Rightarrow> bool result" where
  "hasChannel a s = bind_r (get_chan a s) (\<lambda>c. asserting (ownerLoop c = self s) (poller_hasChannel a s))"

text \<open>\<^verbatim>\<open>Channel::update\<close> and the operations on the event mask that call it.\<close>

definition update :: "nat \<Rightarrow> (32 word \<Rightarrow> 32 word) \<Rightarrow> Loop \<Rightarrow> Loop result" where
  "update a f s = bind_r (get_chan a s) (\<lambda>c.
     updateChannel a (put_chan a (c\<lparr>events := f (events c), addedToLoop := True\<rparr>) s))"

definition enableReading :: "nat \<Rightarrow> Loop \<Rightarrow> Loop result" where
  "enableReading a s = update a (\<lambda>e. e OR kReadEvent) s"

definition disableReading :: "nat \<Rightarrow> Loop \<Rightarrow> Loop result" where
  "disableReading a s = update a (\<lambda>e. e AND NOT kReadEvent) s"

definition enableWriting :: "nat \<Rightarrow> Loop \<Rightarrow> Loop result" where
  "enableWriting a s = update a (\<lambda>e. e OR kWriteEvent) s"

definition disableWriting :: "nat \<Rightarrow> Loop \<Rightarrow> Loop result" where
  "disableWriting a s = update a (\<lambda>e. e AND NOT kWriteEvent) s"

definition disableAll :: "nat \<Rightarrow> Loop \<Rightarrow> Loop result" where
  "disableAll a s = update a (\<lambda>_. kNoneEvent) s"

definition channel_remove :: "nat \<Rightarrow> Loop \<Rightarrow> Loop result" where
  "channel_remove a s =
     bind_r (get_chan a s) (\<lambda>c. asserting (isNoneEvent c)
       (removeChannel a (put_chan a (c\<lparr>addedToLoop := False\<rparr>) s)))"

definition destroy_Channel :: "nat \<Rightarrow> Loop \<Rightarrow> Loop result" where
  "destroy_Channel a s =
     bind_r (get_chan a s) (\<lambda>c.
       asserting (\<not> eventHandling c) (asserting (\<not> addedToLoop c)
         (bind_r (hasChannel a s) (\<lambda>has. asserting (\<not> has) (Inr (s\<lparr>chans := (chans s)(a := None)\<rparr>))))))"

section \<open>EventLoop: dispatch\<close>

text \<open>
  The callbacks act on the loop's state; \<open>alive a\<close> says whether the object a channel is tied to
  still exists when its event is handled.
\<close>

type_synonym handlers = "nat \<Rightarrow> event_kind \<Rightarrow> Loop \<Rightarrow> Loop result"

definition call_if :: "handlers \<Rightarrow> nat \<Rightarrow> (32 word \<Rightarrow> bool) \<Rightarrow> event_kind \<Rightarrow> Loop \<Rightarrow> Loop result" where
  "call_if h a cond k s =
     bind_r (get_chan a s) (\<lambda>c. if cond (revents c) \<and> k \<in> set (callbacks c) then h a k s else Inr s)"

definition handleEventWithGuard :: "handlers \<Rightarrow> nat \<Rightarrow> Loop \<Rightarrow> Loop result" where
  "handleEventWithGuard h a s =
     bind_r (get_chan a s) (\<lambda>c.
     bind_r (call_if h a (\<lambda>r. r AND POLLHUP \<noteq> 0 \<and> r AND POLLIN = 0) CloseEv (put_chan a (c\<lparr>eventHandling := True\<rparr>) s)) (\<lambda>s1.
     bind_r (call_if h a (\<lambda>r. r AND (POLLERR OR POLLNVAL) \<noteq> 0) ErrorEv s1) (\<lambda>s2.
     bind_r (call_if h a (\<lambda>r. r AND (POLLIN OR POLLPRI OR POLLRDHUP) \<noteq> 0) ReadEv s2) (\<lambda>s3.
     bind_r (call_if h a (\<lambda>r. r AND POLLOUT \<noteq> 0) WriteEv s3) (\<lambda>s4.
     bind_r (get_chan a s4) (\<lambda>c4. Inr (put_chan a (c4\<lparr>eventHandling := False\<rparr>) s4)))))))"

definition handleEvent :: "handlers \<Rightarrow> (nat \<Rightarrow> bool) \<Rightarrow> nat \<Rightarrow> Loop \<Rightarrow> Loop result" where
  "handleEvent h alive a s =
     bind_r (get_chan a s) (\<lambda>c.
       if tied c then if alive a then handleEventWithGuard h a s else Inr s
       else handleEventWithGuard h a s)"

text \<open>One iteration of \<^verbatim>\<open>EventLoop::loop\<close> up to the pending functors.\<close>

definition loop_events :: "handlers \<Rightarrow> (nat \<Rightarrow> bool) \<Rightarrow> poll_out \<Rightarrow> Loop \<Rightarrow> Loop result" where
  "loop_events h alive out s =
     bind_r (poller_poll out (s\<lparr>activeChannels := []\<rparr>)) (\<lambda>s1.
     bind_r (for_r (activeChannels s1)
         (\<lambda>a s. handleEvent h alive a (s\<lparr>currentActiveChannel := Some a\<rparr>))
         (s1\<lparr>handlingEvents := True\<rparr>)) (\<lambda>s2.
     Inr (s2\<lparr>currentActiveChannel := None, handlingEvents := False\<rparr>)))"

section \<open>The interests of a poller\<close>

text \<open>
  Every registered channel has a slot of the array that carries its descriptor (or its complement,
  which makes \<^verbatim>\<open>poll\<close> skip the slot), and every slot belongs to a registered channel.
\<close>

definition slot_ok :: "Loop \<Rightarrow> int \<Rightarrow> Channel \<Rightarrow> bool" where
  "slot_ok s f c \<longleftrightarrow> 0 \<le> f \<and> fd c = f \<and> 0 \<le> index c \<and> nat (index c) < length (pollfds s) \<and>
     pfd_fd (pollfds s ! nat (index c)) \<in> {f, - f - 1}"

definition poller_inv :: "Loop \<Rightarrow> bool" where
  "poller_inv s \<longleftrightarrow> map_invar (channels s) \<and>
     (\<forall>f a. map_of (channels s) f = Some a \<longrightarrow> (\<exists>c. chans s a = Some c \<and> slot_ok s f c)) \<and>
     (\<forall>i < length (pollfds s). \<exists>f a c. map_of (channels s) f = Some a \<and> chans s a = Some c \<and> index c = int i)"

text \<open>What the poller promises: for each descriptor, the request it makes of \<^verbatim>\<open>poll\<close>.\<close>

definition interest :: "Loop \<Rightarrow> int \<rightharpoonup> pollfd" where
  "interest s f = Option.bind (map_of (channels s) f) (\<lambda>a.
     map_option (\<lambda>c. pollfds s ! nat (index c)) (chans s a))"

lemma poller_inv_reg:
  assumes "poller_inv s" and "map_of (channels s) f = Some a"
  obtains c where "chans s a = Some c" and "slot_ok s f c"
  using assms unfolding poller_inv_def by blast

lemma poller_inv_slot:
  assumes "poller_inv s" and "i < length (pollfds s)"
  obtains f a c where "map_of (channels s) f = Some a" and "chans s a = Some c" and "index c = int i" and "slot_ok s f c"
proof -
  from assms obtain f a c where "map_of (channels s) f = Some a" "chans s a = Some c" "index c = int i"
    unfolding poller_inv_def by blast
  moreover from this assms(1) have "slot_ok s f c" unfolding poller_inv_def by force
  ultimately show ?thesis by (rule that)
qed

lemma new_Loop_inv: "poller_inv (new_Loop lp)"
  by (simp add: poller_inv_def new_Loop_def)

text \<open>Distinct descriptors have distinct slots and distinct channels.\<close>

lemma slot_inj: "slot_ok s f c \<Longrightarrow> slot_ok s g d \<Longrightarrow> index c = index d \<Longrightarrow> f = g"
  by (auto simp: slot_ok_def)

lemma get_chan_Some [simp]: "chans s a = Some c \<Longrightarrow> get_chan a s = Inr c"
  by (simp add: get_chan_def)

text \<open>The fields of the loop that registration does not touch.\<close>

definition same_loop :: "Loop \<Rightarrow> Loop \<Rightarrow> bool" where
  "same_loop s s' \<longleftrightarrow> self s' = self s \<and> activeChannels s' = activeChannels s \<and>
     currentActiveChannel s' = currentActiveChannel s \<and> handlingEvents s' = handlingEvents s"

subsection \<open>Updating\<close>

lemma poller_update_new:
  assumes inv: "poller_inv s" and c: "chans s a = Some c" "0 \<le> fd c" "index c < 0"
    and free: "map_of (channels s) (fd c) = None"
  shows "\<exists>s'. poller_updateChannel a s = Inr s' \<and> poller_inv s' \<and>
    interest s' = (interest s)(fd c \<mapsto> \<lparr>pfd_fd = fd c, pfd_events = ucast (events c), pfd_revents = 0\<rparr>) \<and>
    chans s' = (chans s)(a \<mapsto> set_index (int (length (pollfds s))) c) \<and> same_loop s s' \<and>
    map_of (channels s') = (map_of (channels s))(fd c \<mapsto> a)"
proof -
  let ?pfd = "\<lparr>pfd_fd = fd c, pfd_events = ucast (events c), pfd_revents = 0\<rparr>" and ?n = "length (pollfds s)"
  let ?s = "s\<lparr>chans := (chans s)(a \<mapsto> set_index (int ?n) c), pollfds := pollfds s @ [?pfd],
      channels := map_set (fd c) a (channels s)\<rparr>"
  have mi: "map_invar (channels s)" using inv by (simp add: poller_inv_def)
  note lk = om.lookup_assign [OF mi, of "fd c" a]
  have notreg: "map_of (channels s) f \<noteq> Some a" for f
    using poller_inv_reg [OF inv, of f a] c free by (metis option.inject option.simps(3) slot_ok_def)
  have reg: "\<exists>c'. chans ?s b = Some c' \<and> slot_ok ?s f c'" if "map_of (channels ?s) f = Some b" for f b
  proof (cases "f = fd c")
    case True
    with that lk c(2) show ?thesis by (auto simp: slot_ok_def set_index_def)
  next
    case False
    with that lk have b: "map_of (channels s) f = Some b" by simp
    with notreg have "b \<noteq> a" by blast
    with poller_inv_reg [OF inv b] show ?thesis by (auto simp: slot_ok_def nth_append)
  qed
  have slots: "\<exists>f b c'. map_of (channels ?s) f = Some b \<and> chans ?s b = Some c' \<and> index c' = int i"
    if "i < length (pollfds ?s)" for i
  proof (cases "i < ?n")
    case True
    from poller_inv_slot [OF inv True] obtain f b c' where
      b: "map_of (channels s) f = Some b" "chans s b = Some c'" "index c' = int i" by blast
    with notreg free have "b \<noteq> a" "f \<noteq> fd c" by auto
    with b lk show ?thesis by (intro exI [of _ f] exI [of _ b] exI [of _ c']) simp
  next
    case False
    with that lk show ?thesis by (intro exI [of _ "fd c"] exI [of _ a]) (simp add: set_index_def)
  qed
  have inv': "poller_inv ?s" using om.invar_assign [OF mi] reg slots by (auto simp: poller_inv_def)
  have "interest ?s f = ((interest s)(fd c \<mapsto> ?pfd)) f" for f
  proof (cases "f = fd c \<or> map_of (channels s) f = None")
    case True
    with lk show ?thesis by (auto simp: interest_def set_index_def)
  next
    case False
    then obtain b where b: "map_of (channels s) f = Some b" by auto
    with notreg have "b \<noteq> a" by blast
    moreover obtain c' where "chans s b = Some c'" "slot_ok s f c'" using poller_inv_reg [OF inv b] .
    ultimately show ?thesis using False b lk by (simp add: interest_def nth_append slot_ok_def)
  qed
  moreover have "poller_updateChannel a s = Inr ?s"
    using c free by (simp add: poller_updateChannel_def put_chan_def Let_def)
  ultimately show ?thesis using inv' lk by (intro exI [of _ ?s]) (auto simp: same_loop_def)
qed

lemma poller_update_old:
  assumes inv: "poller_inv s" and c: "chans s a = Some c" and reg: "map_of (channels s) (fd c) = Some a"
  defines "pfd \<equiv> \<lparr>pfd_fd = (if isNoneEvent c then - fd c - 1 else fd c), pfd_events = ucast (events c), pfd_revents = 0\<rparr>"
  shows "\<exists>s'. poller_updateChannel a s = Inr s' \<and> poller_inv s' \<and> interest s' = (interest s)(fd c \<mapsto> pfd) \<and>
    chans s' = chans s \<and> channels s' = channels s \<and> same_loop s s'"
proof -
  let ?i = "nat (index c)"
  let ?s = "s\<lparr>pollfds := (pollfds s)[?i := pfd]\<rparr>"
  have ok: "slot_ok s (fd c) c" using poller_inv_reg [OF inv reg] c by auto
  have other: "nat (index d) \<noteq> ?i" if "slot_ok s g d" "g \<noteq> fd c" for g d
    using slot_inj [OF that(1) ok] that ok by (auto simp: slot_ok_def)
  have regs: "\<exists>d. chans ?s b = Some d \<and> slot_ok ?s g d" if "map_of (channels ?s) g = Some b" for g b
  proof -
    from that have b: "map_of (channels s) g = Some b" by simp
    obtain d where d: "chans s b = Some d" "slot_ok s g d" using poller_inv_reg [OF inv b] .
    show ?thesis
    proof (cases "g = fd c")
      case True
      with b reg have "b = a" by simp
      with c ok True show ?thesis by (auto simp: slot_ok_def pfd_def)
    next
      case False
      with other [OF d(2)] d show ?thesis by (auto simp: slot_ok_def)
    qed
  qed
  have inv': "poller_inv ?s" using inv regs by (simp add: poller_inv_def)
  have "interest ?s g = ((interest s)(fd c \<mapsto> pfd)) g" for g
  proof (cases "map_of (channels s) g")
    case None
    with reg show ?thesis by (auto simp: interest_def)
  next
    case (Some b)
    obtain d where d: "chans s b = Some d" "slot_ok s g d" using poller_inv_reg [OF inv Some] .
    show ?thesis
    proof (cases "g = fd c")
      case True
      with c reg ok show ?thesis by (simp add: interest_def slot_ok_def)
    next
      case False
      with other [OF d(2)] d Some show ?thesis by (simp add: interest_def)
    qed
  qed
  moreover have "poller_updateChannel a s = Inr ?s"
    using c reg ok by (auto simp: poller_updateChannel_def slot_ok_def pfd_def Let_def nat_less_iff)
  ultimately show ?thesis using inv' by (intro exI [of _ ?s]) (auto simp: same_loop_def)
qed

subsection \<open>Removing\<close>

lemma butlast_swap:
  "i < length xs - 1 \<Longrightarrow> butlast (xs[i := last xs, length xs - 1 := p]) = (butlast xs)[i := last xs]"
  by (simp add: butlast_list_update)

text \<open>
  The slot of the removed channel is filled with the last one, whose channel learns its new index.
  The next lemma describes the state after that, whether or not the two slots are the same.
\<close>

lemma slot_differs:
  assumes "slot_ok s f c" and "slot_ok s g d" and "g \<noteq> f"
  shows "nat (index d) \<noteq> nat (index c)"
  using slot_inj [OF assms(2,1)] assms by (auto simp: slot_ok_def)

lemma filled_slot:
  assumes ok: "slot_ok s (fd c) c" "slot_ok s g d" "g \<noteq> fd c"
    and pfds: "pollfds s' = (butlast (pollfds s))[nat (index c) := last (pollfds s)]"
    and d': "d' = (if nat (index d) = length (pollfds s) - 1 then set_index (index c) d else d)"
  shows "slot_ok s' g d' \<and> pollfds s' ! nat (index d') = pollfds s ! nat (index d)"
proof -
  let ?i = "nat (index c)" and ?n = "length (pollfds s) - 1"
  have i: "?i \<le> ?n" "pollfds s \<noteq> []" "0 \<le> index c" using ok(1) by (auto simp: slot_ok_def)
  have nth: "pollfds s' ! j = (if j = ?i then pollfds s ! ?n else pollfds s ! j)" if "j < ?n" for j
    using that i(1,2) by (auto simp: pfds nth_list_update nth_butlast last_conv_nth)
  have len': "length (pollfds s') = ?n" by (simp add: pfds)
  note other = slot_differs [OF ok]
  show ?thesis
  proof (cases "nat (index d) = ?n")
    case True
    with other i(1) have "?i < ?n" by simp
    with True d' ok(2) i(3) len' nth [of ?i] show ?thesis by (auto simp: slot_ok_def set_index_def)
  next
    case False
    with ok(2) have "nat (index d) < ?n" by (auto simp: slot_ok_def)
    with False d' ok(2) other len' nth show ?thesis by (auto simp: slot_ok_def)
  qed
qed

lemma poller_inv_filled:
  assumes inv: "poller_inv s" and c: "chans s a = Some c" and reg: "map_of (channels s) (fd c) = Some a"
  defines "i \<equiv> nat (index c)" and "n \<equiv> length (pollfds s) - 1"
  assumes chs: "map_invar (channels s')" "map_of (channels s') = (map_of (channels s))(fd c := None)"
    and pfds: "pollfds s' = (butlast (pollfds s))[i := last (pollfds s)]"
    and moved: "\<And>g b d. g \<noteq> fd c \<Longrightarrow> map_of (channels s) g = Some b \<Longrightarrow> chans s b = Some d \<Longrightarrow>
      chans s' b = Some (if nat (index d) = n then set_index (index c) d else d)"
  shows "poller_inv s'" and "interest s' = (interest s)(fd c := None)"
proof -
  have ok: "slot_ok s (fd c) c" using poller_inv_reg [OF inv reg] c by auto
  then have i: "i \<le> n" "pollfds s \<noteq> []" "index c = int i" by (auto simp: slot_ok_def i_def n_def)
  note new = filled_slot [OF ok _ _ pfds [unfolded i_def], folded n_def]
  have len: "length (pollfds s') = n" by (simp add: pfds n_def)
  show "poller_inv s'"
    unfolding poller_inv_def
  proof (intro conjI allI impI)
    show "map_invar (channels s')" by (rule chs)
    fix g b assume "map_of (channels s') g = Some b"
    with chs(2) have g: "g \<noteq> fd c" "map_of (channels s) g = Some b" by (auto split: if_splits)
    obtain d where d: "chans s b = Some d" "slot_ok s g d" using poller_inv_reg [OF inv g(2)] .
    from moved [OF g d(1)] new [OF d(2) g(1) refl] show "\<exists>d. chans s' b = Some d \<and> slot_ok s' g d" by blast
  next
    fix j assume j: "j < length (pollfds s')"
    define k where "k = (if j = i then n else j)"
    have k: "k < length (pollfds s)" "k \<noteq> i" using j len i(1,2) by (auto simp: k_def n_def split: if_splits)
    obtain g b d where d: "map_of (channels s) g = Some b" "chans s b = Some d" "index d = int k" "slot_ok s g d"
      using poller_inv_slot [OF inv k(1)] .
    have g: "g \<noteq> fd c" using d(1-3) reg c k(2) by (auto simp: i_def)
    have "index (if nat (index d) = n then set_index (index c) d else d) = int j"
      using d(3) i(3) j len by (auto simp: k_def set_index_def split: if_splits)
    with moved [OF g d(1,2)] g d(1) chs(2)
    show "\<exists>g b d. map_of (channels s') g = Some b \<and> chans s' b = Some d \<and> index d = int j"
      by (metis fun_upd_other)
  qed
  have "interest s' g = ((interest s)(fd c := None)) g" for g
  proof (cases "g = fd c \<or> map_of (channels s) g = None")
    case False
    then obtain b where b: "map_of (channels s) g = Some b" by auto
    obtain d where d: "chans s b = Some d" "slot_ok s g d" using poller_inv_reg [OF inv b] .
    with False b chs(2) moved [OF _ b d(1)] new [OF d(2) _ refl] show ?thesis by (simp add: interest_def)
  qed (use chs(2) in \<open>auto simp: interest_def\<close>)
  then show "interest s' = (interest s)(fd c := None)" by blast
qed

text \<open>A registered channel that \<^verbatim>\<open>removeChannel\<close> accepts, and what it gets: the slot is the last one, or another.\<close>

definition removable :: "nat \<Rightarrow> Channel \<Rightarrow> pollfd \<Rightarrow> Loop \<Rightarrow> bool" where
  "removable a c pfd s \<longleftrightarrow> poller_inv s \<and> chans s a = Some c \<and> map_of (channels s) (fd c) = Some a \<and> isNoneEvent c \<and>
     interest s (fd c) = Some pfd \<and> pfd_fd pfd = - fd c - 1 \<and> pfd_events pfd = 0"

definition removed :: "nat \<Rightarrow> Channel \<Rightarrow> Loop \<Rightarrow> Loop \<Rightarrow> bool" where
  "removed a c s s' \<longleftrightarrow> poller_inv s' \<and> interest s' = (interest s)(fd c := None) \<and>
     map_of (channels s') = (map_of (channels s))(fd c := None) \<and> chans s' a = Some c \<and> same_loop s s' \<and>
     (\<forall>b d. chans s b = Some d \<longrightarrow> (\<exists>i. chans s' b = Some (d\<lparr>index := i\<rparr>)))"

lemma removableD:
  assumes "removable a c pfd s"
  shows "poller_inv s" "chans s a = Some c" "map_of (channels s) (fd c) = Some a" "isNoneEvent c" "slot_ok s (fd c) c"
    "0 \<le> index c" "index c < int (length (pollfds s))" "pollfds s ! nat (index c) = pfd" "pollfds s \<noteq> []" "pfd_fd pfd = - fd c - 1"
    "scast (pfd_events pfd) = events c" "snd (map_erase (fd c) (channels s)) = 1"
    "map_of (fst (map_erase (fd c) (channels s))) = (map_of (channels s))(fd c := None)"
    "map_invar (fst (map_erase (fd c) (channels s)))"
proof -
  have r: "poller_inv s" "chans s a = Some c" "map_of (channels s) (fd c) = Some a" "isNoneEvent c" "interest s (fd c) = Some pfd"
    "pfd_fd pfd = - fd c - 1" "pfd_events pfd = 0" using assms by (simp_all add: removable_def)
  have ok: "slot_ok s (fd c) c" using poller_inv_reg [OF r(1,3)] r(2) by auto
  have mi: "map_invar (channels s)" using r(1) by (simp add: poller_inv_def)
  show "poller_inv s" "chans s a = Some c" "map_of (channels s) (fd c) = Some a" "isNoneEvent c" "slot_ok s (fd c) c"
    "pfd_fd pfd = - fd c - 1" by (fact r ok)+
  show "0 \<le> index c" "index c < int (length (pollfds s))" "pollfds s ! nat (index c) = pfd" "pollfds s \<noteq> []"
    using ok r(2,3,5) by (auto simp: slot_ok_def interest_def nat_less_iff)
  show "scast (pfd_events pfd) = events c" using r(4,7) by (simp add: isNoneEvent_def kNoneEvent_def)
  show "snd (map_erase (fd c) (channels s)) = 1" using r(3) by (simp add: om.erase_count)
  show "map_of (fst (map_erase (fd c) (channels s))) = (map_of (channels s))(fd c := None)"
    "map_invar (fst (map_erase (fd c) (channels s)))" using om.lookup_erase [OF mi] om.invar_erase [OF mi] by simp_all
qed

lemma poller_remove_last:
  assumes r: "removable a c pfd s" and last: "nat (index c) = length (pollfds s) - 1"
  shows "\<exists>s'. poller_removeChannel a s = Inr s' \<and> removed a c s s'"
proof -
  let ?i = "nat (index c)" and ?n = "length (pollfds s) - 1"
  let ?s = "s\<lparr>channels := fst (map_erase (fd c) (channels s)), pollfds := (butlast (pollfds s))[?i := last (pollfds s)]\<rparr>"
  note d = removableD [OF r]
  have run: "poller_removeChannel a s = Inr ?s"
    using d last by (simp add: poller_removeChannel_def Let_def case_prod_beta list_update_beyond)
  have kept: "chans ?s b = Some (if nat (index e) = ?n then set_index (index c) e else e)"
    if g: "g \<noteq> fd c" "map_of (channels s) g = Some b" "chans s b = Some e" for g b e
    using poller_inv_reg [OF d(1) g(2)] g slot_differs [OF d(5), of g e] last by auto
  have "poller_inv ?s" "interest ?s = (interest s)(fd c := None)"
    using poller_inv_filled [OF d(1-3), of ?s] d(13,14) kept by simp_all
  moreover have "\<exists>i. chans ?s b = Some (e\<lparr>index := i\<rparr>)" if "chans s b = Some e" for b e
    using that by (intro exI [of _ "index e"]) simp
  ultimately show ?thesis using run d(2,13) by (simp add: removed_def same_loop_def)
qed

lemma poller_remove_inner:
  assumes r: "removable a c pfd s" and inner: "nat (index c) \<noteq> length (pollfds s) - 1"
  shows "\<exists>s'. poller_removeChannel a s = Inr s' \<and> removed a c s s'"
proof -
  let ?i = "nat (index c)" and ?n = "length (pollfds s) - 1"
  note d = removableD [OF r]
  have lt: "?i < ?n" using d(6,7) inner by (simp add: nat_less_iff)
  obtain g b e where e: "map_of (channels s) g = Some b" "chans s b = Some e" "index e = int ?n" "slot_ok s g e"
    using poller_inv_slot [OF d(1), of ?n] d(9) by (metis diff_less length_greater_0_conv zero_less_one)
  have g: "g \<noteq> fd c" "b \<noteq> a" using e d(2,3) inner by (auto simp: slot_ok_def)
  have atEnd: "(if pfd_fd (last (pollfds s)) < 0 then - pfd_fd (last (pollfds s)) - 1 else pfd_fd (last (pollfds s))) = g"
    using e(3,4) d(9) by (auto simp: slot_ok_def last_conv_nth)
  let ?s = "s\<lparr>channels := fst (map_erase (fd c) (channels s)), chans := (chans s)(b \<mapsto> set_index (index c) e),
      pollfds := (butlast (pollfds s))[?i := last (pollfds s)]\<rparr>"
  have run: "poller_removeChannel a s = Inr ?s"
    using d inner atEnd e(1,2) g butlast_swap [OF lt, of pfd]
    by (simp add: poller_removeChannel_def Let_def case_prod_beta put_chan_def)
  have kept: "chans ?s b' = Some (if nat (index e') = ?n then set_index (index c) e' else e')"
    if g': "g' \<noteq> fd c" "map_of (channels s) g' = Some b'" "chans s b' = Some e'" for g' b' e'
  proof (cases "b' = b")
    case True
    with g'(3) e(2,3) show ?thesis by simp
  next
    case False
    have ok': "slot_ok s g' e'" using poller_inv_reg [OF d(1) g'(2)] g'(3) by auto
    have "g' \<noteq> g" using False e(1) g'(2) by auto
    then have "nat (index e') \<noteq> ?n" using slot_differs [OF e(4) ok'] e(3) by simp
    with False g'(3) show ?thesis by simp
  qed
  have "poller_inv ?s" "interest ?s = (interest s)(fd c := None)"
    using poller_inv_filled [OF d(1-3), of ?s] d(13,14) kept by simp_all
  moreover have "\<exists>i. chans ?s b' = Some (e'\<lparr>index := i\<rparr>)" if "chans s b' = Some e'" for b' e'
    using that e(2) by (cases "b' = b") (auto simp: set_index_def intro: exI [of _ "index e'"])
  ultimately show ?thesis using run d(2,13) g(2) by (simp add: removed_def same_loop_def)
qed

lemma poller_remove_ok:
  assumes inv: "poller_inv s" and c: "chans s a = Some c" and reg: "map_of (channels s) (fd c) = Some a"
    and none: "isNoneEvent c"
    and pfd: "interest s (fd c) = Some pfd" "pfd_fd pfd = - fd c - 1" "pfd_events pfd = 0"
  shows "\<exists>s'. poller_removeChannel a s = Inr s' \<and> poller_inv s' \<and> interest s' = (interest s)(fd c := None) \<and>
    map_of (channels s') = (map_of (channels s))(fd c := None) \<and> chans s' a = Some c \<and> same_loop s s' \<and>
    (\<forall>b d. chans s b = Some d \<longrightarrow> (\<exists>i. chans s' b = Some (d\<lparr>index := i\<rparr>)))"
proof -
  have "removable a c pfd s" using assms by (simp add: removable_def)
  then have "\<exists>s'. poller_removeChannel a s = Inr s' \<and> removed a c s s'"
    using poller_remove_last poller_remove_inner by blast
  then show ?thesis by (simp add: removed_def)
qed

subsection \<open>Properties of registration\<close>

text \<open>
  C16 (refinement). \<^verbatim>\<open>updateChannel\<close> is an update of the map of interests: on a new channel whose
  descriptor is free, and on a registered channel, it succeeds, keeps the invariant and
  changes the request for that descriptor only; in every other case an \<^verbatim>\<open>assert\<close> fails.
\<close>

theorem poller_update_refines:
  assumes "poller_inv s" and "chans s a = Some c" and "0 \<le> fd c"
  shows "if map_of (channels s) (fd c) = (if index c < 0 then None else Some a)
    then \<exists>s'. poller_updateChannel a s = Inr s' \<and> poller_inv s' \<and>
      interest s' = (interest s)(fd c \<mapsto>
        \<lparr>pfd_fd = (if isNoneEvent c \<and> 0 \<le> index c then - fd c - 1 else fd c),
         pfd_events = ucast (events c), pfd_revents = 0\<rparr>)
    else poller_updateChannel a s = Inl AssertFail"
proof (cases "map_of (channels s) (fd c) = (if index c < 0 then None else Some a)")
  case True
  then show ?thesis
  proof (cases "index c < 0")
    case new: True
    with True obtain s' where "poller_updateChannel a s = Inr s'" "poller_inv s'"
      "interest s' = (interest s)(fd c \<mapsto> \<lparr>pfd_fd = fd c, pfd_events = ucast (events c), pfd_revents = 0\<rparr>)"
      using poller_update_new [OF assms] by auto
    with True new show ?thesis by simp
  next
    case False
    with True obtain s' where "poller_updateChannel a s = Inr s'" "poller_inv s'"
      "interest s' = (interest s)(fd c \<mapsto> \<lparr>pfd_fd = (if isNoneEvent c then - fd c - 1 else fd c),
        pfd_events = ucast (events c), pfd_revents = 0\<rparr>)"
      using poller_update_old [OF assms(1,2)] by auto
    with True False show ?thesis by simp
  qed
next
  case False
  with assms(2) show ?thesis by (auto simp: poller_updateChannel_def asserting_def)
qed

definition sample_loop :: Loop where
  "sample_loop = (new_Loop 1)\<lparr>chans := [10 \<mapsto> (new_Channel 1 5)\<lparr>events := kReadEvent\<rparr>]\<rparr>"

theorem poller_update_refines_witness:
  "\<exists>s'. poller_updateChannel 10 sample_loop = Inr s' \<and> poller_inv s' \<and>
    interest s' = [5 \<mapsto> \<lparr>pfd_fd = 5, pfd_events = 3, pfd_revents = 0\<rparr>]"
proof -
  have "poller_inv sample_loop" by (simp add: poller_inv_def sample_loop_def new_Loop_def)
  moreover have "interest sample_loop = Map.empty" by (auto simp: interest_def sample_loop_def new_Loop_def)
  moreover have "ucast kReadEvent = (3 :: 16 word)" by (simp add: kReadEvent_def POLLIN_def POLLPRI_def)
  ultimately show ?thesis
    using poller_update_refines [of sample_loop 10 "(new_Channel 1 5)\<lparr>events := kReadEvent\<rparr>"]
    by (simp add: sample_loop_def new_Channel_def new_Loop_def)
qed

lemma scast_16_eq_0: "scast (w :: 16 word) = (0 :: 32 word) \<longleftrightarrow> w = 0"
proof
  assume "scast w = (0 :: 32 word)"
  then have "sint (scast w :: 32 word) = 0" by simp
  moreover have "sint (scast w :: 32 word) = sint w" by (rule sint_up_scast) (simp add: is_up)
  ultimately show "w = 0" by (simp add: signed_eq_0_iff)
qed simp

text \<open>
  C15 (refinement). \<^verbatim>\<open>removeChannel\<close> deletes one descriptor from the map of interests and keeps the
  requests for all others, although it moves the last slot of the array into the gap and
  renumbers its channel. It succeeds for exactly the registered channels without interests whose
  slot is already marked as one to skip.
\<close>

theorem poller_remove_refines:
  assumes "poller_inv s" and "chans s a = Some c"
  shows "if map_of (channels s) (fd c) = Some a \<and> isNoneEvent c \<and>
      (\<exists>r. interest s (fd c) = Some \<lparr>pfd_fd = - fd c - 1, pfd_events = 0, pfd_revents = r\<rparr>)
    then \<exists>s'. poller_removeChannel a s = Inr s' \<and> poller_inv s' \<and> interest s' = (interest s)(fd c := None)
    else poller_removeChannel a s = Inl AssertFail"
proof (cases "map_of (channels s) (fd c) = Some a \<and> isNoneEvent c \<and>
      (\<exists>r. interest s (fd c) = Some \<lparr>pfd_fd = - fd c - 1, pfd_events = 0, pfd_revents = r\<rparr>)")
  case True
  with poller_remove_ok [OF assms] show ?thesis by auto
next
  case False
  have "poller_removeChannel a s = Inl AssertFail"
  proof (cases "map_of (channels s) (fd c) = Some a \<and> isNoneEvent c")
    case reg: True
    then have ok: "slot_ok s (fd c) c" using poller_inv_reg [OF assms(1), of "fd c" a] assms(2) by auto
    let ?p = "pollfds s ! nat (index c)"
    have i: "interest s (fd c) = Some ?p" using reg assms(2) by (simp add: interest_def)
    have no: "\<not> (pfd_fd ?p = - fd c - 1 \<and> scast (pfd_events ?p) = events c)"
    proof
      assume "pfd_fd ?p = - fd c - 1 \<and> scast (pfd_events ?p) = events c"
      then have "?p = \<lparr>pfd_fd = - fd c - 1, pfd_events = 0, pfd_revents = pfd_revents ?p\<rparr>"
        using reg scast_16_eq_0 [of "pfd_events ?p"] by (simp add: isNoneEvent_def kNoneEvent_def)
      with False reg i show False by metis
    qed
    show ?thesis using reg ok assms(2) by (auto simp: poller_removeChannel_def Let_def no asserting_def)
  next
    case False
    with assms(2) show ?thesis by (auto simp: poller_removeChannel_def asserting_def)
  qed
  with False show ?thesis by (simp only: if_False)
qed

definition sample_removable :: Loop where
  "sample_removable = (new_Loop 1)\<lparr>
     chans := [10 \<mapsto> (new_Channel 1 5)\<lparr>index := 0\<rparr>, 20 \<mapsto> (new_Channel 1 6)\<lparr>index := 1, events := kReadEvent\<rparr>],
     pollfds := [\<lparr>pfd_fd = -6, pfd_events = 0, pfd_revents = 0\<rparr>, \<lparr>pfd_fd = 6, pfd_events = 3, pfd_revents = 0\<rparr>],
     channels := [(5, 10), (6, 20)]\<rparr>"

lemma sample_removable_inv: "poller_inv sample_removable"
  by (auto simp: poller_inv_def sample_removable_def new_Loop_def new_Channel_def slot_ok_def less_Suc_eq numeral_2_eq_2)
    (rule exI [of _ 5], simp)

lemma sample_removable_interest:
  "interest sample_removable 5 = Some \<lparr>pfd_fd = -6, pfd_events = 0, pfd_revents = 0\<rparr>"
  "interest sample_removable 6 = Some \<lparr>pfd_fd = 6, pfd_events = 3, pfd_revents = 0\<rparr>"
  by (simp_all add: interest_def sample_removable_def new_Channel_def)

theorem poller_remove_refines_witness:
  "\<exists>s'. poller_removeChannel 10 sample_removable = Inr s' \<and> poller_inv s' \<and>
    interest s' 5 = None \<and> interest s' 6 = Some \<lparr>pfd_fd = 6, pfd_events = 3, pfd_revents = 0\<rparr>"
proof -
  let ?c = "(new_Channel 1 5)\<lparr>index := 0\<rparr>"
  have "chans sample_removable 10 = Some ?c" "map_of (channels sample_removable) 5 = Some 10"
    by (simp_all add: sample_removable_def)
  then show ?thesis
    using poller_remove_refines [OF sample_removable_inv, of 10 ?c] sample_removable_interest
    by (auto simp: new_Channel_def isNoneEvent_def kNoneEvent_def)
qed

subsection \<open>The life of a channel\<close>

lemma poller_inv_same:
  assumes inv: "poller_inv s" and chs: "channels s' = channels s" and pfds: "map pfd_fd (pollfds s') = map pfd_fd (pollfds s)"
    and cs: "\<And>a c. chans s a = Some c \<Longrightarrow> \<exists>c'. chans s' a = Some c' \<and> fd c' = fd c \<and> index c' = index c"
  shows "poller_inv s'"
  unfolding poller_inv_def
proof (intro conjI allI impI)
  have len: "length (pollfds s') = length (pollfds s)" using pfds by (metis length_map)
  have nth: "pfd_fd (pollfds s' ! i) = pfd_fd (pollfds s ! i)" if "i < length (pollfds s)" for i
    using that len pfds by (metis nth_map)
  show "map_invar (channels s')" using inv chs by (simp add: poller_inv_def)
  { fix f b assume "map_of (channels s') f = Some b"
    then have b: "map_of (channels s) f = Some b" by (simp add: chs)
    obtain d where d: "chans s b = Some d" "slot_ok s f d" using poller_inv_reg [OF inv b] .
    from cs [OF d(1)] d(2) len nth show "\<exists>d. chans s' b = Some d \<and> slot_ok s' f d" by (auto simp: slot_ok_def) }
  { fix i assume "i < length (pollfds s')"
    then have i: "i < length (pollfds s)" by (simp add: len)
    obtain f b d where d: "map_of (channels s) f = Some b" "chans s b = Some d" "index d = int i"
      using poller_inv_slot [OF inv i] .
    from cs [OF d(2)] d show "\<exists>f b d. map_of (channels s') f = Some b \<and> chans s' b = Some d \<and> index d = int i"
      by (metis chs) }
qed

lemma poller_inv_put:
  assumes "poller_inv s" and "chans s a = Some c" and "fd c' = fd c" and "index c' = index c"
  shows "poller_inv (put_chan a c' s)" and "interest (put_chan a c' s) = interest s"
proof -
  show "poller_inv (put_chan a c' s)"
    by (rule poller_inv_same [OF assms(1)]) (use assms(2-4) in \<open>auto simp: put_chan_def\<close>)
  show "interest (put_chan a c' s) = interest s"
    using assms(2-4) by (auto simp: interest_def put_chan_def fun_eq_iff split: bind_split)
qed

lemma update_ok:
  assumes inv: "poller_inv s" and c: "chans s a = Some c" "0 \<le> fd c" "ownerLoop c = self s"
    and reg: "map_of (channels s) (fd c) = (if index c < 0 then None else Some a)"
  shows "\<exists>s' i. update a f s = Inr s' \<and> poller_inv s' \<and> same_loop s s' \<and>
    interest s' = (interest s)(fd c \<mapsto> \<lparr>pfd_fd = (if f (events c) = kNoneEvent \<and> 0 \<le> index c then - fd c - 1 else fd c),
      pfd_events = ucast (f (events c)), pfd_revents = 0\<rparr>) \<and>
    map_of (channels s') = (map_of (channels s))(fd c \<mapsto> a) \<and> 0 \<le> i \<and>
    chans s' = (chans s)(a \<mapsto> c\<lparr>events := f (events c), addedToLoop := True, index := i\<rparr>)"
proof -
  let ?c = "c\<lparr>events := f (events c), addedToLoop := True\<rparr>"
  let ?s = "put_chan a ?c s"
  have inv1: "poller_inv ?s" "interest ?s = interest s" using poller_inv_put [OF inv c(1), of ?c] by simp_all
  have c1: "chans ?s a = Some ?c" "channels ?s = channels s" "self ?s = self s" "same_loop s ?s"
    by (simp_all add: put_chan_def same_loop_def)
  have upd: "update a f s = poller_updateChannel a ?s"
    using c c1 by (simp add: update_def updateChannel_def)
  show ?thesis
  proof (cases "index c < 0")
    case True
    with poller_update_new [OF inv1(1) c1(1)] c1 c reg inv1(2) obtain s' where
      s': "poller_updateChannel a ?s = Inr s'" "poller_inv s'" "same_loop ?s s'"
        "interest s' = (interest s)(fd c \<mapsto> \<lparr>pfd_fd = fd c, pfd_events = ucast (f (events c)), pfd_revents = 0\<rparr>)"
        "chans s' = (chans ?s)(a \<mapsto> set_index (int (length (pollfds ?s))) ?c)"
        "map_of (channels s') = (map_of (channels s))(fd c \<mapsto> a)" by auto
    with True c1(4) upd show ?thesis
      by (intro exI [of _ s'] exI [of _ "int (length (pollfds ?s))"]) (simp add: set_index_def same_loop_def put_chan_def)
  next
    case False
    with poller_update_old [OF inv1(1) c1(1)] c1 reg inv1(2) obtain s' where
      s': "poller_updateChannel a ?s = Inr s'" "poller_inv s'" "same_loop ?s s'" "chans s' = chans ?s" "channels s' = channels s"
        "interest s' = (interest s)(fd c \<mapsto> \<lparr>pfd_fd = (if f (events c) = kNoneEvent then - fd c - 1 else fd c),
          pfd_events = ucast (f (events c)), pfd_revents = 0\<rparr>)" by (auto simp: isNoneEvent_def)
    with False c1(1,4) upd reg show ?thesis
      by (intro exI [of _ s'] exI [of _ "index c"]) (auto simp: same_loop_def put_chan_def fun_eq_iff)
  qed
qed

lemma enable_disable_remove:
  assumes "poller_inv s" and "chans s a = Some c" and "0 \<le> fd c" and "ownerLoop c = self s" and "index c < 0"
    and "map_of (channels s) (fd c) = None" and "\<not> handlingEvents s"
  shows "\<exists>s1 s2 s3. enableReading a s = Inr s1 \<and> disableAll a s1 = Inr s2 \<and> channel_remove a s2 = Inr s3 \<and>
    poller_inv s3 \<and> interest s3 = interest s \<and> enableReading a s3 = Inl AssertFail"
proof -
  have none: "interest s (fd c) = None" using assms(6) by (simp add: interest_def)
  obtain s1 i1 where s1: "enableReading a s = Inr s1" "poller_inv s1" "same_loop s s1" "map_of (channels s1) (fd c) = Some a"
      "interest s1 = (interest s)(fd c \<mapsto> \<lparr>pfd_fd = fd c, pfd_events = ucast (events c OR kReadEvent), pfd_revents = 0\<rparr>)"
      "0 \<le> i1" "chans s1 a = Some (c\<lparr>events := events c OR kReadEvent, addedToLoop := True, index := i1\<rparr>)"
    using update_ok [OF assms(1-4), of "\<lambda>e. e OR kReadEvent"] assms(5,6) by (auto simp: enableReading_def)
  obtain s2 i2 where s2: "disableAll a s1 = Inr s2" "poller_inv s2" "same_loop s1 s2" "map_of (channels s2) (fd c) = Some a"
      "interest s2 = (interest s1)(fd c \<mapsto> \<lparr>pfd_fd = - fd c - 1, pfd_events = 0, pfd_revents = 0\<rparr>)"
      "0 \<le> i2" "chans s2 a = Some (c\<lparr>events := kNoneEvent, addedToLoop := True, index := i2\<rparr>)"
    using update_ok [OF s1(2,7), of "\<lambda>_. kNoneEvent"] s1 assms(3,4)
    by (auto simp: disableAll_def same_loop_def kNoneEvent_def)
  let ?c3 = "c\<lparr>events := kNoneEvent, index := i2, addedToLoop := False\<rparr>"
  let ?s2 = "put_chan a ?c3 s2"
  have p: "poller_inv ?s2" "interest ?s2 = interest s2" using poller_inv_put [OF s2(2,7), of ?c3] by simp_all
  have c3: "chans ?s2 a = Some ?c3" "channels ?s2 = channels s2" "same_loop s2 ?s2" by (simp_all add: put_chan_def same_loop_def)
  obtain s3 where s3: "poller_removeChannel a ?s2 = Inr s3" "poller_inv s3" "interest s3 = (interest s2)(fd c := None)"
      "map_of (channels s3) (fd c) = None" "chans s3 a = Some ?c3" "same_loop ?s2 s3"
    using poller_remove_ok [OF p(1) c3(1), of "\<lparr>pfd_fd = - fd c - 1, pfd_events = 0, pfd_revents = 0\<rparr>"] s2(4,5) c3(2) p(2)
    by (auto simp: isNoneEvent_def)
  have "channel_remove a s2 = Inr s3"
    using s2(3,7) s1(3) s3(1) assms(4,7) c3
    by (simp add: channel_remove_def removeChannel_def isNoneEvent_def same_loop_def)
  moreover have "interest s3 = interest s" using s3(3) s2(5) s1(5) none by auto
  moreover have "enableReading a s3 = Inl AssertFail"
    using s3(4,5,6) c3(3) s2(3,6) s1(3) assms(4)
    by (simp add: enableReading_def update_def updateChannel_def poller_updateChannel_def put_chan_def same_loop_def)
  ultimately show ?thesis using s1(1) s2(1) s3(2) by blast
qed

lemma disable_remove_fails:
  assumes "poller_inv s" and "chans s a = Some c" and "0 \<le> fd c" and "ownerLoop c = self s" and "index c < 0"
    and "map_of (channels s) (fd c) = None" and "\<not> handlingEvents s"
  shows "\<exists>s1. disableAll a s = Inr s1 \<and> channel_remove a s1 = Inl AssertFail"
proof -
  obtain s4 i4 where s4: "disableAll a s = Inr s4" "poller_inv s4" "same_loop s s4" "map_of (channels s4) (fd c) = Some a"
      "interest s4 = (interest s)(fd c \<mapsto> \<lparr>pfd_fd = fd c, pfd_events = 0, pfd_revents = 0\<rparr>)"
      "0 \<le> i4" "chans s4 a = Some (c\<lparr>events := kNoneEvent, addedToLoop := True, index := i4\<rparr>)"
    using update_ok [OF assms(1-4), of "\<lambda>_. kNoneEvent"] assms(5,6) by (auto simp: disableAll_def kNoneEvent_def)
  have "interest s4 (fd c) = Some (pollfds s4 ! nat i4)" using s4(4,7) by (simp add: interest_def)
  then have "pollfds s4 ! nat i4 = \<lparr>pfd_fd = fd c, pfd_events = 0, pfd_revents = 0\<rparr>" unfolding s4(5) by simp
  with s4 assms(3,4,7) have "channel_remove a s4 = Inl AssertFail"
    by (auto simp: channel_remove_def removeChannel_def isNoneEvent_def same_loop_def put_chan_def poller_removeChannel_def
        Let_def asserting_def)
  with s4(1) show ?thesis by blast
qed

text \<open>
  C27 (functional). The life of a channel. Enabling a new channel, disabling it and removing it
  succeeds and leaves the interests of all others as they were. Removing a channel that was
  never enabled fails an \<^verbatim>\<open>assert\<close>, since disabling it adds a slot that is not marked as one to
  skip; and a channel that was removed keeps its old index and cannot be enabled again.
\<close>

theorem channel_lifecycle:
  assumes "poller_inv s" and "chans s a = Some c" and "0 \<le> fd c" and "ownerLoop c = self s" and "index c < 0"
    and "map_of (channels s) (fd c) = None" and "\<not> handlingEvents s"
  shows "(\<exists>s1 s2 s3. enableReading a s = Inr s1 \<and> disableAll a s1 = Inr s2 \<and> channel_remove a s2 = Inr s3 \<and>
      poller_inv s3 \<and> interest s3 = interest s \<and> enableReading a s3 = Inl AssertFail) \<and>
    (\<exists>s1. disableAll a s = Inr s1 \<and> channel_remove a s1 = Inl AssertFail)"
  using enable_disable_remove [OF assms] disable_remove_fails [OF assms] by (rule conjI)

theorem channel_lifecycle_witness:
  "\<exists>s1 s2 s3. enableReading 10 sample_loop = Inr s1 \<and> disableAll 10 s1 = Inr s2 \<and> channel_remove 10 s2 = Inr s3 \<and>
    interest s3 = interest sample_loop"
proof -
  have "poller_inv sample_loop" by (simp add: poller_inv_def sample_loop_def new_Loop_def)
  then show ?thesis
    using channel_lifecycle [of sample_loop 10 "(new_Channel 1 5)\<lparr>events := kReadEvent\<rparr>"]
    by (auto simp: sample_loop_def new_Channel_def new_Loop_def)
qed

section \<open>Polling and dispatch\<close>

text \<open>
  What \<^verbatim>\<open>poll(2)\<close> documents: it reports one mask per slot, none for a slot with a negative descriptor,
  no mask has the sign bit of a \<^verbatim>\<open>short\<close>, and it returns the number of slots with a nonzero mask.
\<close>

definition poll_honest :: "poll_out \<Rightarrow> Loop \<Rightarrow> bool" where
  "poll_honest out s \<longleftrightarrow> length (reported out) = length (pollfds s) \<and>
     (\<forall>i < length (pollfds s). 0 \<le> sint (reported out ! i) \<and>
       (pfd_fd (pollfds s ! i) < 0 \<longrightarrow> reported out ! i = 0)) \<and>
     numEvents out = int (length (filter (\<lambda>r. r \<noteq> 0) (reported out)))"

definition ready_fds :: "pollfd list \<Rightarrow> (int \<times> 16 word) list" where
  "ready_fds pfds = map (\<lambda>p. (pfd_fd p, pfd_revents p)) (filter (\<lambda>p. 0 < sint (pfd_revents p)) pfds)"

lemma revents_self: "\<exists>r. c = c\<lparr>revents := r\<rparr> \<and> (P \<longrightarrow> r = revents c)"
  by (rule exI [of _ "revents c"]) simp

lemma fillActiveChannels_ok:
  assumes "\<forall>(f, r) \<in> set (ready_fds pfds). \<exists>a c. map_of (channels s) f = Some a \<and> chans s a = Some c \<and> fd c = f"
    and "n = int (length (ready_fds pfds))" and "distinct (map fst (ready_fds pfds))"
  shows "\<exists>s'. fillActiveChannels n pfds s = Inr s' \<and>
    activeChannels s' = activeChannels s @ map (\<lambda>(f, r). the (map_of (channels s) f)) (ready_fds pfds) \<and>
    channels s' = channels s \<and> pollfds s' = pollfds s \<and>
    (\<forall>a c. chans s a = Some c \<longrightarrow> (\<exists>r. chans s' a = Some (c\<lparr>revents := r\<rparr>) \<and>
      (map_of (channels s) (fd c) = Some a \<longrightarrow>
        (case map_of (ready_fds pfds) (fd c) of Some w \<Rightarrow> r = scast w | None \<Rightarrow> r = revents c))))"
  using assms
proof (induction pfds arbitrary: n s)
  case Nil
  then show ?case by (force simp: ready_fds_def)
next
  case (Cons p pfds)
  show ?case
  proof (cases "0 < sint (pfd_revents p)")
    case False
    with Cons show ?thesis by (cases "n > 0") (auto simp: ready_fds_def intro: revents_self)
  next
    case True
    then have rf: "ready_fds (p # pfds) = (pfd_fd p, pfd_revents p) # ready_fds pfds" by (simp add: ready_fds_def)
    with Cons.prems(1) obtain a c where ac: "map_of (channels s) (pfd_fd p) = Some a" "chans s a = Some c" "fd c = pfd_fd p"
      by auto
    let ?s = "(put_chan a (set_revents (scast (pfd_revents p)) c) s)\<lparr>activeChannels := activeChannels s @ [a]\<rparr>"
    have chs: "chans ?s = (chans s)(a \<mapsto> c\<lparr>revents := scast (pfd_revents p)\<rparr>)" "channels ?s = channels s"
      by (simp_all add: put_chan_def set_revents_def)
    have "\<forall>(f, r) \<in> set (ready_fds pfds). \<exists>a c. map_of (channels ?s) f = Some a \<and> chans ?s a = Some c \<and> fd c = f"
      using Cons.prems(1) ac unfolding rf chs by fastforce
    then obtain s' where s': "fillActiveChannels (n - 1) pfds ?s = Inr s'"
        "activeChannels s' = activeChannels ?s @ map (\<lambda>(f, r). the (map_of (channels ?s) f)) (ready_fds pfds)"
        "channels s' = channels ?s" "pollfds s' = pollfds ?s"
        "\<forall>a c. chans ?s a = Some c \<longrightarrow> (\<exists>r. chans s' a = Some (c\<lparr>revents := r\<rparr>) \<and>
          (map_of (channels ?s) (fd c) = Some a \<longrightarrow>
            (case map_of (ready_fds pfds) (fd c) of Some w \<Rightarrow> r = scast w | None \<Rightarrow> r = revents c)))"
      using Cons.IH [of ?s "n - 1"] Cons.prems(2,3) unfolding rf by auto
    have fresh: "map_of (ready_fds pfds) (pfd_fd p) = None" using Cons.prems(3) unfolding rf by (simp add: map_of_eq_None_iff)
    have "\<exists>r. chans s' b = Some (d\<lparr>revents := r\<rparr>) \<and> (map_of (channels s) (fd d) = Some b \<longrightarrow>
        (case map_of (ready_fds (p # pfds)) (fd d) of Some w \<Rightarrow> r = scast w | None \<Rightarrow> r = revents d))"
      if d: "chans s b = Some d" for b d
    proof (cases "b = a")
      case True
      with d ac have "d = c" by simp
      with s'(5) [rule_format, of a "c\<lparr>revents := scast (pfd_revents p)\<rparr>"] True fresh ac show ?thesis
        by (auto simp: chs rf)
    next
      case False
      with d s'(5) [rule_format, of b d] ac show ?thesis by (auto simp: chs rf)
    qed
    moreover have "n > 0" using Cons.prems(2) unfolding rf by simp
    ultimately show ?thesis
      using True ac s'(1-4) by (intro exI [of _ s']) (auto simp: rf put_chan_def)
  qed
qed

lemma pfd_fds_distinct:
  assumes "poller_inv s"
  shows "distinct (map pfd_fd (pollfds s))"
proof -
  have "pfd_fd (pollfds s ! i) \<noteq> pfd_fd (pollfds s ! j)" if ij: "i < j" "j < length (pollfds s)" for i j
  proof -
    obtain f a c where i: "map_of (channels s) f = Some a" "chans s a = Some c" "index c = int i" "slot_ok s f c"
      using poller_inv_slot [OF assms less_trans [OF ij]] .
    obtain g b d where j: "map_of (channels s) g = Some b" "chans s b = Some d" "index d = int j" "slot_ok s g d"
      using poller_inv_slot [OF assms ij(2)] .
    have "f \<noteq> g" using i(1-3) j(1-3) ij(1) by auto
    then show ?thesis using i(3,4) j(3,4) by (auto simp: slot_ok_def)
  qed
  then have "i \<noteq> j \<Longrightarrow> i < length (pollfds s) \<Longrightarrow> j < length (pollfds s) \<Longrightarrow>
      pfd_fd (pollfds s ! i) \<noteq> pfd_fd (pollfds s ! j)" for i j by (metis linorder_neqE_nat)
  then show ?thesis unfolding distinct_conv_nth by simp
qed

definition ready_pairs :: "poll_out \<Rightarrow> Loop \<Rightarrow> (int \<times> 16 word) list" where
  "ready_pairs out s = filter (\<lambda>(f, r). r \<noteq> 0) (zip (map pfd_fd (pollfds s)) (reported out))"

lemma ready_fds_polled:
  assumes "length rs = length ps" and "\<forall>r \<in> set rs. 0 \<le> sint r"
  shows "ready_fds (map2 (\<lambda>p r. p\<lparr>pfd_revents := r\<rparr>) ps rs) = filter (\<lambda>(f, r). r \<noteq> 0) (zip (map pfd_fd ps) rs)"
  using assms
proof (induction rs ps rule: list_induct2)
  case (Cons r rs p ps)
  have "0 < sint r \<longleftrightarrow> r \<noteq> 0" using Cons.prems by (auto simp: less_le signed_eq_0_iff)
  with Cons show ?case by (simp add: ready_fds_def)
qed (simp add: ready_fds_def)

lemma length_ready:
  "length rs = length fs \<Longrightarrow> length (filter (\<lambda>(f, r). r \<noteq> 0) (zip fs rs)) = length (filter (\<lambda>r. r \<noteq> (0 :: 16 word)) rs)"
  by (induction rs fs rule: list_induct2) auto

text \<open>Every descriptor that \<^verbatim>\<open>poll\<close> reports belongs to a registered channel.\<close>

lemma ready_registered:
  assumes inv: "poller_inv s" and honest: "poll_honest out s" and fr: "(f, r) \<in> set (ready_pairs out s)"
  shows "\<exists>a c. map_of (channels s) f = Some a \<and> chans s a = Some c \<and> fd c = f"
proof -
  have len: "length (reported out) = length (pollfds s)" using honest by (simp add: poll_honest_def)
  from fr obtain i where i: "i < length (pollfds s)" "f = pfd_fd (pollfds s ! i)" "r = reported out ! i" "r \<noteq> 0"
    using len by (auto simp: ready_pairs_def in_set_zip)
  obtain g a c where g: "map_of (channels s) g = Some a" "chans s a = Some c" "index c = int i" "slot_ok s g c"
    using poller_inv_slot [OF inv i(1)] .
  have "0 \<le> f" using honest i by (auto simp: poll_honest_def not_less [symmetric])
  with g(3,4) i(2) have "f = g" by (auto simp: slot_ok_def)
  with g show ?thesis by (auto simp: slot_ok_def)
qed

text \<open>\<^verbatim>\<open>poll\<close> fills in the channels whether or not it tests first that there are any.\<close>

lemma poller_poll_fills:
  assumes "fillActiveChannels (numEvents out) (pollfds s1) s1 = Inr s'"
    and "s1 = s\<lparr>pollfds := map2 (\<lambda>p r. p\<lparr>pfd_revents := r\<rparr>) (pollfds s) (reported out)\<rparr>"
  shows "poller_poll out s = Inr s'"
proof (cases "numEvents out > 0")
  case True
  with assms show ?thesis by (simp add: poller_poll_def Let_def)
next
  case False
  then have "fillActiveChannels (numEvents out) (pollfds s1) s1 = Inr s1" by (cases "pollfds s1") auto
  with assms False show ?thesis by (simp add: poller_poll_def Let_def)
qed

text \<open>
  C20 (functional). On the answers that \<^verbatim>\<open>poll(2)\<close> documents, \<^verbatim>\<open>Poller::poll\<close> fails no \<^verbatim>\<open>assert\<close>; the active
  channels are those of the descriptors that were reported, each once and in the order of the
  array, and each carries the mask reported for its own descriptor.
\<close>

theorem poller_poll_active:
  assumes inv: "poller_inv s" and honest: "poll_honest out s" and empty: "activeChannels s = []"
  shows "\<exists>s'. poller_poll out s = Inr s' \<and> poller_inv s' \<and>
    activeChannels s' = map (\<lambda>(f, r). the (map_of (channels s) f)) (ready_pairs out s) \<and>
    (\<forall>(f, r) \<in> set (ready_pairs out s). \<exists>a c. map_of (channels s) f = Some a \<and>
      chans s' a = Some c \<and> fd c = f \<and> revents c = scast r)"
proof -
  let ?s = "s\<lparr>pollfds := map2 (\<lambda>p r. p\<lparr>pfd_revents := r\<rparr>) (pollfds s) (reported out)\<rparr>"
  let ?R = "ready_pairs out s"
  have len: "length (reported out) = length (pollfds s)" using honest by (simp add: poll_honest_def)
  have "\<forall>r \<in> set (reported out). 0 \<le> sint r" using honest by (auto simp: poll_honest_def in_set_conv_nth)
  then have R: "ready_fds (pollfds ?s) = ?R" using ready_fds_polled [OF len] by (simp add: ready_pairs_def)
  have n: "numEvents out = int (length ?R)"
    using honest length_ready [of "reported out" "map pfd_fd (pollfds s)"] len by (simp add: poll_honest_def ready_pairs_def)
  have dist: "distinct (map fst ?R)"
    using pfd_fds_distinct [OF inv] len by (simp add: ready_pairs_def distinct_map_filter)
  note reg = ready_registered [OF inv honest]
  have regs: "\<forall>(f, r) \<in> set ?R. \<exists>a c. map_of (channels ?s) f = Some a \<and> chans ?s a = Some c \<and> fd c = f"
    by (auto dest: reg)
  obtain s' where s': "fillActiveChannels (numEvents out) (pollfds ?s) ?s = Inr s'"
      "activeChannels s' = activeChannels ?s @ map (\<lambda>(f, r). the (map_of (channels ?s) f)) ?R"
      "channels s' = channels ?s" "pollfds s' = pollfds ?s"
      "\<forall>a c. chans ?s a = Some c \<longrightarrow> (\<exists>r. chans s' a = Some (c\<lparr>revents := r\<rparr>) \<and>
        (map_of (channels ?s) (fd c) = Some a \<longrightarrow> (case map_of ?R (fd c) of Some w \<Rightarrow> r = scast w | None \<Rightarrow> r = revents c)))"
    using fillActiveChannels_ok [of "pollfds ?s" ?s "numEvents out", unfolded R, OF regs n dist] by blast
  have poll: "poller_poll out s = Inr s'" by (rule poller_poll_fills [OF s'(1) refl])
  have inv': "poller_inv s'"
  proof (rule poller_inv_same [OF inv])
    show "map pfd_fd (pollfds s') = map pfd_fd (pollfds s)" using s'(4) len by (simp add: map_equality_iff)
  qed (use s'(3,5) in force)+
  have "\<exists>a c. map_of (channels s) f = Some a \<and> chans s' a = Some c \<and> fd c = f \<and> revents c = scast r"
    if fr: "(f, r) \<in> set ?R" for f r
  proof -
    obtain a c where c: "map_of (channels s) f = Some a" "chans s a = Some c" "fd c = f" using reg [OF fr] by blast
    with map_of_is_SomeI [OF dist fr] s'(5) show ?thesis by force
  qed
  with poll inv' s'(2) empty show ?thesis by auto
qed

theorem poller_poll_active_witness:
  "\<exists>s'. poller_poll \<lparr>numEvents = 1, reported = [0, 0x11]\<rparr> sample_removable = Inr s' \<and> activeChannels s' = [20] \<and>
    (\<exists>c. chans s' 20 = Some c \<and> revents c = POLLHUP OR POLLIN)"
proof -
  let ?out = "\<lparr>numEvents = 1, reported = [0, 0x11]\<rparr>"
  have "poll_honest ?out sample_removable"
    by (auto simp: poll_honest_def sample_removable_def less_Suc_eq)
  moreover have "ready_pairs ?out sample_removable = [(6, 0x11)]" by (simp add: ready_pairs_def sample_removable_def)
  moreover have "activeChannels sample_removable = []" "map_of (channels sample_removable) 6 = Some 20"
    by (simp_all add: sample_removable_def new_Loop_def)
  ultimately show ?thesis
    using poller_poll_active [OF sample_removable_inv, of ?out] by (auto simp: POLLHUP_def POLLIN_def)
qed

text \<open>The callbacks an event mask asks for, in the order of the code.\<close>

definition kinds :: "32 word \<Rightarrow> event_kind list" where
  "kinds r =
     (if r AND POLLHUP \<noteq> 0 \<and> r AND POLLIN = 0 then [CloseEv] else []) @
     (if r AND (POLLERR OR POLLNVAL) \<noteq> 0 then [ErrorEv] else []) @
     (if r AND (POLLIN OR POLLPRI OR POLLRDHUP) \<noteq> 0 then [ReadEv] else []) @
     (if r AND POLLOUT \<noteq> 0 then [WriteEv] else [])"

text \<open>A handler that keeps the channel it is called for, with its mask and its callbacks.\<close>

definition keeps :: "(event_kind \<Rightarrow> Loop \<Rightarrow> Loop result) \<Rightarrow> nat \<Rightarrow> bool" where
  "keeps h a \<longleftrightarrow> (\<forall>k s s' c. chans s a = Some c \<and> h k s = Inr s' \<longrightarrow>
     (\<exists>c'. chans s' a = Some c' \<and> revents c' = revents c \<and> callbacks c' = callbacks c))"

lemma call_if_ok:
  assumes "keeps (h a) a" and "chans s a = Some c"
  shows "call_if h a P k s = for_r (filter (\<lambda>k. k \<in> set (callbacks c)) (if P (revents c) then [k] else [])) (h a) s"
    and "call_if h a P k s = Inr s' \<Longrightarrow> \<exists>c'. chans s' a = Some c' \<and> revents c' = revents c \<and> callbacks c' = callbacks c"
proof -
  have "bind_r r Inr = r" for r :: "Loop result" by (cases r) auto
  then have one: "for_r [k] (h a) s = h a k s" by (simp add: bind_r_def split: sum.splits)
  then show "call_if h a P k s = for_r (filter (\<lambda>k. k \<in> set (callbacks c)) (if P (revents c) then [k] else [])) (h a) s"
    using assms(2) by (auto simp: call_if_def)
  show "call_if h a P k s = Inr s' \<Longrightarrow> \<exists>c'. chans s' a = Some c' \<and> revents c' = revents c \<and> callbacks c' = callbacks c"
    using assms by (auto simp: call_if_def keeps_def split: if_splits)
qed

fun stages :: "handlers \<Rightarrow> nat \<Rightarrow> ((32 word \<Rightarrow> bool) \<times> event_kind) list \<Rightarrow> Loop \<Rightarrow> Loop result" where
  "stages h a [] s = Inr s"
| "stages h a ((P, k) # ps) s = bind_r (call_if h a P k s) (stages h a ps)"

lemma stages_ok:
  assumes "keeps (h a) a" and "chans s a = Some c"
  shows "stages h a ps s = for_r (filter (\<lambda>k. k \<in> set (callbacks c))
    (concat (map (\<lambda>(P, k). if P (revents c) then [k] else []) ps))) (h a) s"
  using assms(2)
proof (induction ps arbitrary: s c)
  case (Cons pk ps)
  obtain P k where pk: "pk = (P, k)" by fastforce
  note c1 = call_if_ok [where h = h and P = P and k = k, OF assms(1) Cons.prems]
  let ?rest = "filter (\<lambda>k. k \<in> set (callbacks c)) (concat (map (\<lambda>(P, k). if P (revents c) then [k] else []) ps))"
  have all: "for_r (filter (\<lambda>k. k \<in> set (callbacks c)) (concat (map (\<lambda>(P, k). if P (revents c) then [k] else []) (pk # ps))))
      (h a) s = bind_r (call_if h a P k s) (for_r ?rest (h a))"
    by (simp only: pk c1(1) list.map concat.simps filter_append for_r_append prod.case)
  have "bind_r (call_if h a P k s) (stages h a ps) = bind_r (call_if h a P k s) (for_r ?rest (h a))"
  proof (cases "call_if h a P k s")
    case (Inl e)
    then show ?thesis by simp
  next
    case (Inr s')
    from c1(2) [OF Inr] obtain c' where c': "chans s' a = Some c'" "revents c' = revents c" "callbacks c' = callbacks c" by blast
    from Cons.IH [OF c'(1)] c'(2,3) Inr show ?thesis by simp
  qed
  then show ?case unfolding all by (simp add: pk)
qed simp

text \<open>
  C26 (functional). An event is dispatched to the callbacks its mask asks for and that are set, in the
  order close, error, read, write, each seeing the state the previous one left; a hang-up closes
  the connection only when nothing is left to read. A fault in a callback ends the dispatch.
\<close>

theorem handleEvent_dispatch:
  assumes "keeps (h a) a" and "chans s a = Some c"
  shows "handleEventWithGuard h a s =
    bind_r (for_r (filter (\<lambda>k. k \<in> set (callbacks c)) (kinds (revents c))) (h a) (put_chan a (c\<lparr>eventHandling := True\<rparr>) s))
      (\<lambda>s'. bind_r (get_chan a s') (\<lambda>c'. Inr (put_chan a (c'\<lparr>eventHandling := False\<rparr>) s')))"
proof -
  let ?s = "put_chan a (c\<lparr>eventHandling := True\<rparr>) s" and ?c = "c\<lparr>eventHandling := True\<rparr>"
  let ?ps = "[((\<lambda>r. r AND POLLHUP \<noteq> 0 \<and> r AND POLLIN = 0), CloseEv),
      ((\<lambda>r. r AND (POLLERR OR POLLNVAL) \<noteq> 0), ErrorEv),
      ((\<lambda>r. r AND (POLLIN OR POLLPRI OR POLLRDHUP) \<noteq> 0), ReadEv), ((\<lambda>r. r AND POLLOUT \<noteq> 0), WriteEv)]"
  have "chans ?s a = Some ?c" by (simp add: put_chan_def)
  from stages_ok [where h = h and ps = ?ps, OF assms(1) this]
  have "stages h a ?ps ?s = for_r (filter (\<lambda>k. k \<in> set (callbacks c)) (kinds (revents c))) (h a) ?s"
    by (simp add: kinds_def)
  moreover have "handleEventWithGuard h a s = bind_r (stages h a ?ps ?s)
      (\<lambda>s'. bind_r (get_chan a s') (\<lambda>c'. Inr (put_chan a (c'\<lparr>eventHandling := False\<rparr>) s')))"
    using assms(2) by (simp add: handleEventWithGuard_def bind_r_assoc)
  ultimately show ?thesis by simp
qed

theorem handleEvent_dispatch_witness:
  "\<exists>s'. handleEventWithGuard (\<lambda>a k s. Inr (s\<lparr>activeChannels := activeChannels s @ [if k = ReadEv then 1 else 2]\<rparr>)) 10
      ((new_Loop 1)\<lparr>chans := [10 \<mapsto> (new_Channel 1 5)\<lparr>callbacks := [WriteEv, ReadEv], revents := 0x15\<rparr>]\<rparr>) = Inr s' \<and>
    activeChannels s' = [1, 2]"
proof -
  let ?h = "\<lambda>a k s. Inr (s\<lparr>activeChannels := activeChannels s @ [if k = ReadEv then 1 else 2]\<rparr>) :: Loop result"
  let ?c = "(new_Channel 1 5)\<lparr>callbacks := [WriteEv, ReadEv], revents := 0x15\<rparr>"
  have "keeps (?h 10) 10" by (auto simp: keeps_def)
  moreover have "kinds 0x15 = [ReadEv, WriteEv]"
    by (simp add: kinds_def POLLHUP_def POLLIN_def POLLERR_def POLLNVAL_def POLLPRI_def POLLRDHUP_def POLLOUT_def)
  ultimately show ?thesis
    using handleEvent_dispatch [of ?h 10 "(new_Loop 1)\<lparr>chans := [10 \<mapsto> ?c]\<rparr>" ?c]
    by (simp add: new_Loop_def new_Channel_def put_chan_def)
qed

end
