(* ===== verification/Channel_Registry.thy ===== *)
theory Channel_Registry
  imports Channel_Poller
begin

text \<open>
  What the owners of channels (the event loop, the acceptor, the connections) rely on: a channel they have
  registered stays registered with the mask they gave it, whatever happens to other channels, until they remove it.
  The locale \<open>channel_registry\<close> states this contract and \<open>cr\<close> is its interpretation on the poller.
\<close>

text \<open>The channel at the address \<open>a\<close> is registered, and its slot requests the events of its mask.\<close>

definition slot_of :: "Channel \<Rightarrow> pollfd" where
  "slot_of c = \<lparr>pfd_fd = (if isNoneEvent c then - fd c - 1 else fd c), pfd_events = ucast (events c), pfd_revents = 0\<rparr>"

definition registered :: "nat \<Rightarrow> Channel \<Rightarrow> Loop \<Rightarrow> bool" where
  "registered a c s \<longleftrightarrow> poller_inv s \<and> chans s a = Some c \<and> 0 \<le> fd c \<and> ownerLoop c = self s \<and> 0 \<le> index c \<and>
     map_of (channels s) (fd c) = Some a \<and>
     map_option (\<lambda>p. (pfd_fd p, pfd_events p)) (interest s (fd c)) = Some (pfd_fd (slot_of c), pfd_events (slot_of c))"

text \<open>What an operation on the channel at \<open>a\<close> leaves of the others.\<close>

definition others_kept :: "nat \<Rightarrow> int \<Rightarrow> Loop \<Rightarrow> Loop \<Rightarrow> bool" where
  "others_kept a f s s' \<longleftrightarrow> same_loop s s' \<and> poller_inv s' \<and>
     (\<forall>b d. b \<noteq> a \<and> chans s b = Some d \<longrightarrow> (\<exists>i. chans s' b = Some (d\<lparr>index := i\<rparr>))) \<and>
     (\<forall>g. g \<noteq> f \<longrightarrow> map_of (channels s') g = map_of (channels s) g \<and> interest s' g = interest s g)"

locale channel_registry =
  fixes reg :: "nat \<Rightarrow> Channel \<Rightarrow> Loop \<Rightarrow> bool"
    and keeps_others :: "nat \<Rightarrow> int \<Rightarrow> Loop \<Rightarrow> Loop \<Rightarrow> bool"
    and upd :: "nat \<Rightarrow> (32 word \<Rightarrow> 32 word) \<Rightarrow> Loop \<Rightarrow> Loop result"
  assumes upd_ok: "reg a c s \<Longrightarrow> \<exists>s' i. upd a f s = Inr s' \<and>
      reg a (c\<lparr>events := f (events c), addedToLoop := True, index := i\<rparr>) s' \<and> keeps_others a (fd c) s s'"
    and other_ok: "reg b d s \<Longrightarrow> keeps_others a g s s' \<Longrightarrow> a \<noteq> b \<Longrightarrow> g \<noteq> fd d \<Longrightarrow> \<exists>i. reg b (d\<lparr>index := i\<rparr>) s'"
begin

text \<open>Any number of changes of masks of two channels: each channel ends with its own changes.\<close>

lemma two_channels:
  assumes "reg a c s" and "reg b d s" and "a \<noteq> b" and "fd c \<noteq> fd d"
  shows "\<exists>s' i j. for_r us (\<lambda>(x, f). upd (if x then a else b) f) s = Inr s' \<and>
    (\<exists>u. reg a (c\<lparr>events := fold (\<lambda>(x, f) e. if x then f e else e) us (events c), addedToLoop := u, index := i\<rparr>) s') \<and>
    (\<exists>u. reg b (d\<lparr>events := fold (\<lambda>(x, f) e. if x then e else f e) us (events d), addedToLoop := u, index := j\<rparr>) s')"
  using assms
proof (induction us arbitrary: c d s)
  case Nil
  then show ?case
    by (intro exI [of _ s] exI [of _ "index c"] exI [of _ "index d"])
      (auto intro: exI [of _ "addedToLoop c"] exI [of _ "addedToLoop d"])
next
  case (Cons u us)
  obtain x f where u: "u = (x, f)" by fastforce
  show ?case
  proof (cases x)
    case True
    obtain s1 i where s1: "upd a f s = Inr s1" "reg a (c\<lparr>events := f (events c), addedToLoop := True, index := i\<rparr>) s1"
        "keeps_others a (fd c) s s1" using upd_ok [OF Cons.prems(1)] by blast
    obtain j where j: "reg b (d\<lparr>index := j\<rparr>) s1" using other_ok [OF Cons.prems(2) s1(3) Cons.prems(3,4)] by blast
    from Cons.IH [OF s1(2) j Cons.prems(3)] Cons.prems(4) s1(1) show ?thesis by (simp add: u True)
  next
    case False
    obtain s1 j where s1: "upd b f s = Inr s1" "reg b (d\<lparr>events := f (events d), addedToLoop := True, index := j\<rparr>) s1"
        "keeps_others b (fd d) s s1" using upd_ok [OF Cons.prems(2)] by blast
    obtain i where i: "reg a (c\<lparr>index := i\<rparr>) s1"
      using other_ok [OF Cons.prems(1) s1(3)] Cons.prems(3,4) by metis
    from Cons.IH [OF i s1(2) Cons.prems(3)] Cons.prems(4) s1(1) show ?thesis by (simp add: u False)
  qed
qed

end

lemma reindex_self: "\<exists>i. (d::Channel) = d\<lparr>index := i\<rparr>"
  by (intro exI [of _ "index d"]) simp

lemma registered_simps:
  assumes "registered a c s"
  shows "poller_inv s" "chans s a = Some c" "0 \<le> fd c" "ownerLoop c = self s" "0 \<le> index c" "map_of (channels s) (fd c) = Some a"
  using assms by (simp_all add: registered_def)

lemma update_registers:
  assumes inv: "poller_inv s" and c: "chans s a = Some c" "0 \<le> fd c" "ownerLoop c = self s"
    and reg: "map_of (channels s) (fd c) = (if index c < 0 then None else Some a)"
    and some: "0 \<le> index c \<or> f (events c) \<noteq> kNoneEvent"
  shows "\<exists>s' i. update a f s = Inr s' \<and> registered a (c\<lparr>events := f (events c), addedToLoop := True, index := i\<rparr>) s' \<and>
    others_kept a (fd c) s s'"
proof -
  obtain s' i where s': "update a f s = Inr s'" "poller_inv s'" "same_loop s s'"
      "interest s' = (interest s)(fd c \<mapsto> \<lparr>pfd_fd = (if f (events c) = kNoneEvent \<and> 0 \<le> index c then - fd c - 1 else fd c),
         pfd_events = ucast (f (events c)), pfd_revents = 0\<rparr>)"
      "map_of (channels s') = (map_of (channels s))(fd c \<mapsto> a)" "0 \<le> i"
      "chans s' = (chans s)(a \<mapsto> c\<lparr>events := f (events c), addedToLoop := True, index := i\<rparr>)"
    using update_ok [OF inv c reg, of f] by blast
  have "registered a (c\<lparr>events := f (events c), addedToLoop := True, index := i\<rparr>) s'"
    using s' c some by (auto simp: registered_def slot_of_def isNoneEvent_def same_loop_def)
  moreover have "others_kept a (fd c) s s'"
    using s' by (auto simp: others_kept_def reindex_self)
  ultimately show ?thesis using s'(1) by blast
qed

lemma update_registered:
  assumes "registered a c s"
  shows "\<exists>s' i. update a f s = Inr s' \<and> registered a (c\<lparr>events := f (events c), addedToLoop := True, index := i\<rparr>) s' \<and>
    others_kept a (fd c) s s'"
  using update_registers [of s a c f] assms by (auto simp: registered_def)

lemma registered_other:
  assumes reg: "registered b d s" and kept: "others_kept a f s s'" and ab: "a \<noteq> b" and f: "f \<noteq> fd d"
  shows "\<exists>i. registered b (d\<lparr>index := i\<rparr>) s'"
proof -
  obtain i where i: "chans s' b = Some (d\<lparr>index := i\<rparr>)" using reg kept ab unfolding registered_def others_kept_def by metis
  have m: "map_of (channels s') (fd d) = Some b" "interest s' (fd d) = interest s (fd d)" "poller_inv s'"
    using reg kept f by (auto simp: registered_def others_kept_def)
  obtain d' where "chans s' b = Some d'" "slot_ok s' (fd d) d'" using poller_inv_reg [OF m(3,1)] .
  then have "0 \<le> i" using i by (auto simp: slot_ok_def)
  with i m reg kept show ?thesis
    by (intro exI [of _ i]) (auto simp: registered_def others_kept_def slot_of_def isNoneEvent_def same_loop_def)
qed

interpretation cr: channel_registry registered others_kept update
  by unfold_locales (use update_registered registered_other in blast)+

text \<open>Registration of a new channel, and its removal.\<close>

lemma registers_new:
  assumes "poller_inv s" and "chans s a = Some c" and "0 \<le> fd c" and "ownerLoop c = self s" and "index c < 0"
    and "map_of (channels s) (fd c) = None" and "f (events c) \<noteq> kNoneEvent"
  shows "\<exists>s' i. update a f s = Inr s' \<and> registered a (c\<lparr>events := f (events c), addedToLoop := True, index := i\<rparr>) s' \<and>
    others_kept a (fd c) s s'"
  using update_registers [of s a c f] assms by simp

lemma remove_registered:
  assumes reg: "registered a c s" and none: "isNoneEvent c"
    and idle: "handlingEvents s \<longrightarrow> currentActiveChannel s = Some a \<or> a \<notin> set (activeChannels s)"
  shows "\<exists>s'. channel_remove a s = Inr s' \<and> others_kept a (fd c) s s' \<and> chans s' a = Some (c\<lparr>addedToLoop := False\<rparr>) \<and>
    map_of (channels s') (fd c) = None"
proof -
  let ?c = "c\<lparr>addedToLoop := False\<rparr>" and ?s = "put_chan a (c\<lparr>addedToLoop := False\<rparr>) s"
  note r = registered_simps [OF reg]
  have p: "poller_inv ?s" "interest ?s = interest s" using poller_inv_put [OF r(1,2), of ?c] by simp_all
  have c: "chans ?s a = Some ?c" "channels ?s = channels s" "same_loop s ?s" by (simp_all add: put_chan_def same_loop_def)
  obtain pfd where pfd: "interest s (fd c) = Some pfd" "pfd_fd pfd = - fd c - 1" "pfd_events pfd = 0"
    using reg none by (auto simp: registered_def slot_of_def isNoneEvent_def kNoneEvent_def)
  obtain s' where s': "poller_removeChannel a ?s = Inr s'" "poller_inv s'" "interest s' = (interest s)(fd c := None)"
      "map_of (channels s') = (map_of (channels s))(fd c := None)" "chans s' a = Some ?c" "same_loop ?s s'"
      "\<forall>b d. chans ?s b = Some d \<longrightarrow> (\<exists>i. chans s' b = Some (d\<lparr>index := i\<rparr>))"
    using poller_remove_ok [OF p(1) c(1), of pfd] r(6) pfd none p(2) c(2) by (auto simp: isNoneEvent_def)
  have "channel_remove a s = Inr s'"
    using r none idle s'(1) c by (simp add: channel_remove_def removeChannel_def isNoneEvent_def same_loop_def)
  moreover have "others_kept a (fd c) s s'"
    using s' c(3) by (auto simp: others_kept_def same_loop_def put_chan_def)
  ultimately show ?thesis using s'(4,5) by auto
qed

text \<open>Removing a channel that still asks for events fails an assert.\<close>

lemma remove_busy: "chans s a = Some c \<Longrightarrow> \<not> isNoneEvent c \<Longrightarrow> channel_remove a s = Inl AssertFail"
  by (simp add: channel_remove_def)

lemma new_channel_simps [simp]:
  "index (setCallback k c) = index c" "fd (setCallback k c) = fd c" "ownerLoop (setCallback k c) = ownerLoop c"
  "events (setCallback k c) = events c" "index (new_Channel l f) = -1" "fd (new_Channel l f) = f"
  "ownerLoop (new_Channel l f) = l" "events (new_Channel l f) = 0" "tied (setCallback k c) = tied c"
  by (simp_all add: setCallback_def new_Channel_def)

text \<open>A channel at an address that is not in use can be put into the loop.\<close>

lemma poller_inv_new:
  assumes "poller_inv s" and "chans s a = None"
  shows "poller_inv (put_chan a c s)" and "interest (put_chan a c s) = interest s"
proof -
  have fresh: "map_of (channels s) f = Some b \<Longrightarrow> b \<noteq> a" for f b
    using poller_inv_reg [OF assms(1)] assms(2) by (metis option.distinct(1))
  show "poller_inv (put_chan a c s)"
    by (rule poller_inv_same [OF assms(1)]) (use assms(2) in \<open>auto simp: put_chan_def\<close>)
  show "interest (put_chan a c s) = interest s"
    using fresh by (auto simp: interest_def put_chan_def fun_eq_iff split: bind_split)
qed

text \<open>An address and a descriptor that a sound loop does not use yet, where a new channel can be registered.\<close>

definition can_connect :: "nat \<Rightarrow> int \<Rightarrow> Loop \<Rightarrow> bool" where
  "can_connect a f l \<longleftrightarrow> poller_inv l \<and> chans l a = None \<and> 0 \<le> f \<and> map_of (channels l) f = None \<and> \<not> handlingEvents l"

lemma tied_registers:
  assumes l: "can_connect a (fd c) l" and c: "ownerLoop c = self l" "index c < 0" "events c = 0"
  shows "\<exists>l' i. update a (\<lambda>e. e OR kReadEvent) (put_chan a c l) = Inr l' \<and> same_loop l l' \<and>
    registered a (c\<lparr>events := events c OR kReadEvent, addedToLoop := True, index := i\<rparr>) l'"
proof -
  let ?l = "put_chan a c l"
  have inv: "poller_inv ?l" using poller_inv_new [of l a c] l by (simp add: can_connect_def)
  have p: "chans ?l a = Some c" "0 \<le> fd c" "ownerLoop c = self ?l" "map_of (channels ?l) (fd c) = None"
      "events c OR kReadEvent \<noteq> kNoneEvent" "same_loop l ?l"
    using l c
    by (simp_all add: put_chan_def can_connect_def same_loop_def kReadEvent_def kNoneEvent_def POLLIN_def POLLPRI_def)
  show ?thesis
    using registers_new [where f = "\<lambda>e. e OR kReadEvent", OF inv p(1-3) c(2) p(4,5)] p(6)
    by (auto simp: others_kept_def same_loop_def)
qed

lemma sample_can_connect: "can_connect 10 5 (new_Loop 1)"
  by (simp add: can_connect_def new_Loop_inv) (simp add: new_Loop_def)

text \<open>The end of a channel as its owners write it: disabled, removed and destroyed.\<close>

lemma dismantle_registered:
  assumes reg: "registered a c l" and idle: "\<not> handlingEvents l" "\<not> eventHandling c"
  shows "\<exists>l1 l2. disableAll a l = Inr l1 \<and> channel_remove a l1 = Inr l2 \<and>
    destroy_Channel a l2 = Inr (l2\<lparr>chans := (chans l2)(a := None)\<rparr>) \<and> others_kept a (fd c) l l1 \<and> others_kept a (fd c) l1 l2 \<and>
    map_of (channels l2) (fd c) = None \<and> poller_inv (l2\<lparr>chans := (chans l2)(a := None)\<rparr>)"
proof -
  obtain l1 i where l1: "disableAll a l = Inr l1" "others_kept a (fd c) l l1"
      "registered a (c\<lparr>events := kNoneEvent, addedToLoop := True, index := i\<rparr>) l1"
    using cr.upd_ok [OF reg, of "\<lambda>_. kNoneEvent"] by (auto simp: disableAll_def)
  have "\<not> handlingEvents l1" using l1(2) idle(1) by (simp add: others_kept_def same_loop_def)
  then obtain l2 where l2: "channel_remove a l1 = Inr l2" "others_kept a (fd c) l1 l2"
      "chans l2 a = Some (c\<lparr>events := kNoneEvent, addedToLoop := False, index := i\<rparr>)" "map_of (channels l2) (fd c) = None"
    using remove_registered [OF l1(3)] by (auto simp: isNoneEvent_def)
  have "ownerLoop c = self l2"
    using registered_simps(4) [OF reg] l1(2) l2(2) by (simp add: others_kept_def same_loop_def)
  then have "destroy_Channel a l2 = Inr (l2\<lparr>chans := (chans l2)(a := None)\<rparr>)"
    using l2(3,4) idle(2) by (simp add: destroy_Channel_def hasChannel_def poller_hasChannel_def)
  moreover have inv: "poller_inv l2" using l2(2) by (simp add: others_kept_def)
  moreover have "map_of (channels l2) f \<noteq> Some a" for f
    using poller_inv_reg [OF inv, of f a] l2(3,4) by (force simp: slot_ok_def)
  with inv have "poller_inv (l2\<lparr>chans := (chans l2)(a := None)\<rparr>)"
    unfolding poller_inv_def slot_ok_def by (auto; metis)
  ultimately show ?thesis using l1 l2 by (intro exI [of _ l1] exI [of _ l2]) auto
qed

end
