(* ===== verification/Timer_Queue.thy ===== *)
theory Timer_Queue
  imports Time_Stamp Std_Containers
begin

text \<open>
  \<^verbatim>\<open>net/Timer.h\<close>, \<^verbatim>\<open>net/Timer.cpp\<close>, \<^verbatim>\<open>net/TimerId.h\<close>, \<^verbatim>\<open>net/TimerQueue.h\<close> and
  \<^verbatim>\<open>net/TimerQueue.cpp\<close>: timers on the heap, owned by a queue that keeps them in a set ordered by
  expiration and in a set of active timers. Callbacks are application code: a parameter that
  says which timers a callback adds and cancels in the state it is called in. The allocator
  is a parameter too, and every reading of the clock is an argument. The invariant says who
  owns each timer on the heap; under it no \<^verbatim>\<open>assert\<close> fires, no dead timer is touched and every
  timer is freed once.
\<close>

section \<open>Timer\<close>

record Timer =
  callback :: nat
  expiration :: TimeStamp
  interval :: seconds
  repeat :: bool
  sequence :: int

type_synonym timer_heap = "nat \<rightharpoonup> Timer"

definition restart :: "TimeStamp \<Rightarrow> Timer \<Rightarrow> Timer result" where
  "restart now t =
     (if repeat t then bind_r (addTime now (interval t)) (\<lambda>e. Inr (t\<lparr>expiration := e\<rparr>))
      else Inr (t\<lparr>expiration := invalid\<rparr>))"

section \<open>TimerQueue\<close>

text \<open>
  \<open>armed\<close> is the last request made of the timer descriptor, with the clock reading it was
  computed from, until the descriptor reports that it fired. \<open>numCreated\<close> is the static
  counter of the class \<^verbatim>\<open>Timer\<close>.
\<close>

record timespec =
  tv_sec :: int
  tv_nsec :: int

record TimerQueue =
  heap :: timer_heap
  numCreated :: int
  timers :: "(TimeStamp \<times> nat) list"
  activeTimers :: "(nat \<times> int) list"
  callingExpiredTimers :: bool
  cancelingTimers :: "(nat \<times> int) list"
  armed :: "(TimeStamp \<times> timespec) option"

definition UINTPTR_MAX :: nat where "UINTPTR_MAX = 2 ^ 64 - 1"

definition new_TimerQueue :: "TimerQueue" where
  "new_TimerQueue = \<lparr>heap = Map.empty, numCreated = 0, timers = [], activeTimers = [],
     callingExpiredTimers = False, cancelingTimers = [], armed = None\<rparr>"

text \<open>Access to a timer through its address.\<close>

definition get_timer :: "nat \<Rightarrow> TimerQueue \<Rightarrow> Timer result" where
  "get_timer a q = (case heap q a of None \<Rightarrow> Inl UseAfterFree | Some t \<Rightarrow> Inr t)"

definition delete_timer :: "nat \<Rightarrow> TimerQueue \<Rightarrow> TimerQueue result" where
  "delete_timer a q = bind_r (get_timer a q) (\<lambda>_. Inr (q\<lparr>heap := (heap q)(a := None)\<rparr>))"

definition new_Timer ::
    "(timer_heap \<Rightarrow> nat option) \<Rightarrow> nat \<Rightarrow> TimeStamp \<Rightarrow> seconds \<Rightarrow> TimerQueue \<Rightarrow> (nat \<times> TimerQueue) result" where
  "new_Timer malloc cb when itv q =
     (case malloc (heap q) of
        None \<Rightarrow> Inl OutOfMemory
      | Some a \<Rightarrow> bind_r (int64 (numCreated q + 1)) (\<lambda>seq.
          Inr (a, q\<lparr>heap := (heap q)(a \<mapsto> \<lparr>callback = cb, expiration = when, interval = itv,
            repeat = positive itv, sequence = seq\<rparr>), numCreated := seq\<rparr>)))"

subsection \<open>The timer descriptor\<close>

definition howMuchTimeFromNow :: "TimeStamp \<Rightarrow> TimeStamp \<Rightarrow> timespec result" where
  "howMuchTimeFromNow clk when =
     bind_r (int64 (microSecondsSinceUnixEpoch when - microSecondsSinceUnixEpoch clk)) (\<lambda>us.
       let us = (if us < 100 then 100 else us) in
       Inr \<lparr>tv_sec = c_div us kMicroSecondsPerSeconds, tv_nsec = c_mod us kMicroSecondsPerSeconds * 1000\<rparr>)"

definition resetTimerfd :: "TimeStamp \<Rightarrow> TimeStamp \<Rightarrow> TimerQueue \<Rightarrow> TimerQueue result" where
  "resetTimerfd clk when q =
     bind_r (howMuchTimeFromNow clk when) (\<lambda>ts. Inr (q\<lparr>armed := Some (clk, ts)\<rparr>))"

text \<open>
  What \<^verbatim>\<open>read\<close> gives of the descriptor: its result and the variable it was to fill, which is not
  initialised when it fails. Eight bytes are read exactly when the descriptor fired. The log line prints
  \<^verbatim>\<open>now.toString().string()\<close>: \<open>stale\<close> is what that expression yields. By the rules of the language it is
  \<^term>\<open>to_string (toString now)\<close>, an access to an array that is gone; a machine that goes on reads some
  text there. \<^verbatim>\<open>ss.clear()\<close> resets the flags of the stream and not its text, so the second line repeats the
  first. The result is the texts given to the logger.
\<close>

record timerfd_read =
  got :: int
  howmany :: int

definition readTimerfd :: "timerfd_read \<Rightarrow> string result \<Rightarrow> TimerQueue \<Rightarrow> (string list \<times> TimerQueue) result" where
  "readTimerfd rd stale q =
     bind_r stale (\<lambda>str.
       let ss = ''TimerQueue::handleRead() '' @ show_int (howmany rd) @ '' at '' @ str;
           errors = (if got rd \<noteq> 8
             then [ss @ ''TimerQueue::handleRead() reads '' @ show_int (got rd) @ '' bytes instead of 8''] else [])
       in Inr (ss # errors, if got rd = 8 then q\<lparr>armed := None\<rparr> else q))"

subsection \<open>Adding and cancelling\<close>

definition insert_timer :: "nat \<Rightarrow> TimerQueue \<Rightarrow> (bool \<times> TimerQueue) result" where
  "insert_timer a q =
     asserting (length (timers q) = length (activeTimers q))
       (bind_r (get_timer a q) (\<lambda>t.
          let when = expiration t;
              earliestChanged = (timers q = [] \<or> when < fst (hd (timers q)));
              (ts, inserted) = set_insert (when, a) (timers q) in
          asserting inserted
            (let (acts, inserted) = set_insert (a, sequence t) (activeTimers q) in
             asserting inserted
               (asserting (length ts = length acts)
                 (Inr (earliestChanged, q\<lparr>timers := ts, activeTimers := acts\<rparr>))))))"

definition addTimerInLoop :: "TimeStamp \<Rightarrow> nat \<Rightarrow> TimerQueue \<Rightarrow> TimerQueue result" where
  "addTimerInLoop clk a q =
     bind_r (insert_timer a q) (\<lambda>(earliestChanged, q1).
       if earliestChanged then bind_r (get_timer a q1) (\<lambda>t. resetTimerfd clk (expiration t) q1)
       else Inr q1)"

definition addTimer ::
    "(timer_heap \<Rightarrow> nat option) \<Rightarrow> nat \<Rightarrow> TimeStamp \<Rightarrow> seconds \<Rightarrow> TimeStamp \<Rightarrow> TimerQueue \<Rightarrow>
     ((nat \<times> int) \<times> TimerQueue) result" where
  "addTimer malloc cb when itv clk q =
     bind_r (new_Timer malloc cb when itv q) (\<lambda>(a, q1).
     bind_r (addTimerInLoop clk a q1) (\<lambda>q2.
     bind_r (get_timer a q2) (\<lambda>t. Inr ((a, sequence t), q2))))"

definition cancelInLoop :: "nat \<times> int \<Rightarrow> TimerQueue \<Rightarrow> TimerQueue result" where
  "cancelInLoop timerId q =
     asserting (length (timers q) = length (activeTimers q))
       (bind_r
         (if timerId \<in> set (activeTimers q) then
            bind_r (get_timer (fst timerId) q) (\<lambda>t.
              let (ts, n) = set_erase (expiration t, fst timerId) (timers q) in
              asserting (n = 1)
                (bind_r (delete_timer (fst timerId) (q\<lparr>timers := ts\<rparr>)) (\<lambda>q1.
                   Inr (q1\<lparr>activeTimers := fst (set_erase timerId (activeTimers q1))\<rparr>))))
          else if callingExpiredTimers q then
            Inr (q\<lparr>cancelingTimers := fst (set_insert timerId (cancelingTimers q))\<rparr>)
          else Inr q)
         (\<lambda>q2. asserting (length (timers q2) = length (activeTimers q2)) (Inr q2)))"

subsection \<open>Expiration\<close>

definition deactivate :: "TimeStamp \<times> nat \<Rightarrow> TimerQueue \<Rightarrow> TimerQueue result" where
  "deactivate e q =
     bind_r (get_timer (snd e) q) (\<lambda>t.
       let (acts, n) = set_erase (snd e, sequence t) (activeTimers q) in
       asserting (n = 1) (Inr (q\<lparr>activeTimers := acts\<rparr>)))"

definition getExpired :: "TimeStamp \<Rightarrow> TimerQueue \<Rightarrow> ((TimeStamp \<times> nat) list \<times> TimerQueue) result" where
  "getExpired now q =
     asserting (length (timers q) = length (activeTimers q))
       (let (expired, rest) = lower_bound (now, UINTPTR_MAX) (timers q) in
        asserting (rest = [] \<or> now < fst (hd rest))
          (bind_r
            (for_r expired deactivate (q\<lparr>timers := rest\<rparr>))
            (\<lambda>q1. asserting (length (timers q1) = length (activeTimers q1)) (Inr (expired, q1)))))"

text \<open>
  What a callback does to the queue, in the loop thread: each action is complete before the
  next one, as \<^verbatim>\<open>runInLoop\<close> calls its argument there.
\<close>

datatype timer_act = Add nat TimeStamp seconds TimeStamp | Cancel "nat \<times> int"

fun perform :: "(timer_heap \<Rightarrow> nat option) \<Rightarrow> timer_act \<Rightarrow> TimerQueue \<Rightarrow> TimerQueue result" where
  "perform malloc (Add cb when itv clk) q =
     bind_r (addTimer malloc cb when itv clk q) (\<lambda>(_, q'). Inr q')"
| "perform malloc (Cancel timerId) q = cancelInLoop timerId q"

type_synonym callbacks = "nat \<Rightarrow> TimerQueue \<Rightarrow> timer_act list"

text \<open>
  \<^verbatim>\<open>entry.second->run()\<close>, with the history of the callbacks called so far and of what each of them did.
\<close>

type_synonym history = "(nat \<times> timer_act list) list"

definition run_timer :: "(timer_heap \<Rightarrow> nat option) \<Rightarrow> callbacks \<Rightarrow> TimeStamp \<times> nat \<Rightarrow>
    history \<times> TimerQueue \<Rightarrow> (history \<times> TimerQueue) result" where
  "run_timer malloc calls e s =
     bind_r (get_timer (snd e) (snd s)) (\<lambda>t.
     let acts = calls (callback t) (snd s) in
     bind_r (for_r acts (perform malloc) (snd s)) (\<lambda>q'.
     Inr (fst s @ [(callback t, acts)], q')))"

definition reset_one :: "TimeStamp \<Rightarrow> TimeStamp \<times> nat \<Rightarrow> TimerQueue \<Rightarrow> TimerQueue result" where
  "reset_one now e q =
     bind_r (get_timer (snd e) q) (\<lambda>t.
       if repeat t \<and> (snd e, sequence t) \<notin> set (cancelingTimers q) then
         bind_r (restart now t) (\<lambda>t'.
         bind_r (insert_timer (snd e) (q\<lparr>heap := (heap q)(snd e \<mapsto> t')\<rparr>)) (\<lambda>(_, q'). Inr q'))
       else delete_timer (snd e) q)"

definition reset :: "TimeStamp \<Rightarrow> TimeStamp \<Rightarrow> (TimeStamp \<times> nat) list \<Rightarrow> TimerQueue \<Rightarrow> TimerQueue result" where
  "reset clk now expired q =
     bind_r (for_r expired (reset_one now) q) (\<lambda>q1.
     bind_r (if timers q1 \<noteq> [] then bind_r (get_timer (snd (hd (timers q1))) q1) (\<lambda>t. Inr (expiration t))
             else Inr (TimeStamp 0)) (\<lambda>nextExpire.
       if valid nextExpire then resetTimerfd clk nextExpire q1 else Inr q1))"

definition handleRead :: "(timer_heap \<Rightarrow> nat option) \<Rightarrow> callbacks \<Rightarrow> timerfd_read \<Rightarrow> string result \<Rightarrow>
    TimeStamp \<Rightarrow> TimeStamp \<Rightarrow> TimerQueue \<Rightarrow> (history \<times> TimerQueue) result" where
  "handleRead malloc calls rd stale now clk q =
     bind_r (readTimerfd rd stale q) (\<lambda>(lines, q0).
     bind_r (getExpired now q0) (\<lambda>(expired, q1).
     bind_r (for_r expired (run_timer malloc calls) ([], q1\<lparr>callingExpiredTimers := True, cancelingTimers := []\<rparr>))
       (\<lambda>(called, q2).
     bind_r (reset clk now expired (q2\<lparr>callingExpiredTimers := False\<rparr>)) (\<lambda>q3. Inr (called, q3)))))"

text \<open>The timers that the callbacks of a history cancelled.\<close>

definition cancelled_by :: "history \<Rightarrow> (nat \<times> int) set" where
  "cancelled_by called = {i. \<exists>c \<in> set called. Cancel i \<in> set (snd c)}"

lemma cancelled_by_simps [simp]:
  "cancelled_by [] = {}" "cancelled_by (called @ [(cb, acts)]) = cancelled_by called \<union> {i. Cancel i \<in> set acts}"
  by (auto simp: cancelled_by_def)

text \<open>The destructor frees what the set of timers holds.\<close>

definition destroy_TimerQueue :: "TimerQueue \<Rightarrow> TimerQueue result" where
  "destroy_TimerQueue q = for_r (timers q) (\<lambda>e. delete_timer (snd e)) q"

section \<open>Ownership\<close>

text \<open>
  The queue owns the timers its sets hold, its live timers; \<open>D\<close> are the timers on the heap that
  belong to somebody else: created and not yet added, or expired and being run.
\<close>

definition live :: "TimerQueue \<Rightarrow> nat set" where
  "live q = snd ` set (timers q)"

definition entry_of :: "timer_heap \<Rightarrow> nat \<Rightarrow> TimeStamp \<times> nat" where
  "entry_of h a = (expiration (the (h a)), a)"

definition active_of :: "timer_heap \<Rightarrow> nat \<Rightarrow> nat \<times> int" where
  "active_of h a = (a, sequence (the (h a)))"

definition tq_inv :: "nat set \<Rightarrow> TimerQueue \<Rightarrow> bool" where
  "tq_inv D q \<longleftrightarrow>
     strict_sorted (timers q) \<and> strict_sorted (activeTimers q) \<and>
     set (timers q) = entry_of (heap q) ` live q \<and> set (activeTimers q) = active_of (heap q) ` live q \<and>
     dom (heap q) = live q \<union> D \<and> live q \<inter> D = {} \<and> dom (heap q) \<subseteq> {..<UINTPTR_MAX}"

definition malloc_ok :: "(timer_heap \<Rightarrow> nat option) \<Rightarrow> bool" where
  "malloc_ok malloc \<longleftrightarrow> (\<forall>h a. malloc h = Some a \<longrightarrow> a \<notin> dom h \<and> a < UINTPTR_MAX)"

lemma tq_inv_D:
  assumes "tq_inv D q"
  shows tq_sorted: "strict_sorted (timers q)" and tq_active_sorted: "strict_sorted (activeTimers q)"
    and tq_timers: "set (timers q) = entry_of (heap q) ` live q"
    and tq_active: "set (activeTimers q) = active_of (heap q) ` live q"
    and tq_dom: "dom (heap q) = live q \<union> D" and tq_disjoint: "live q \<inter> D = {}"
    and tq_addr: "dom (heap q) \<subseteq> {..<UINTPTR_MAX}"
  using assms unfolding tq_inv_def by blast+

lemma new_TimerQueue_inv: "tq_inv {} new_TimerQueue"
  by (simp add: tq_inv_def new_TimerQueue_def live_def)

lemma tq_sizes: "tq_inv D q \<Longrightarrow> length (timers q) = length (activeTimers q)"
  using os.size_eq_of_inj_image [OF tq_sorted _ tq_timers] os.size_eq_of_inj_image [OF tq_active_sorted _ tq_active]
  by (simp add: inj_on_def entry_of_def active_of_def)

lemma tq_live_timer: "tq_inv D q \<Longrightarrow> a \<in> live q \<Longrightarrow> \<exists>t. heap q a = Some t"
  using tq_dom [of D q] by blast

lemma tq_D_timer: "tq_inv D q \<Longrightarrow> a \<in> D \<Longrightarrow> \<exists>t. heap q a = Some t"
  using tq_dom [of D q] by blast

lemma get_timer_Some [simp]: "heap q a = Some t \<Longrightarrow> get_timer a q = Inr t"
  by (simp add: get_timer_def)

lemma mem_timers: "tq_inv D q \<Longrightarrow> heap q a = Some t \<Longrightarrow> (e, a) \<in> set (timers q) \<longleftrightarrow> a \<in> live q \<and> e = expiration t"
  using tq_timers [of D q] by (auto simp: entry_of_def image_iff)

lemma mem_active: "tq_inv D q \<Longrightarrow> heap q a = Some t \<Longrightarrow> (a, s) \<in> set (activeTimers q) \<longleftrightarrow> a \<in> live q \<and> s = sequence t"
  using tq_active [of D q] by (auto simp: active_of_def image_iff)

text \<open>The heap may change away from the live timers, and the other fields at will.\<close>

lemma tq_inv_heap:
  assumes "tq_inv D q" and "\<And>a. a \<in> live q \<Longrightarrow> h a = heap q a" and "dom h = live q \<union> D'"
    and "live q \<inter> D' = {}" and "D' \<subseteq> {..<UINTPTR_MAX}"
  shows "tq_inv D' (q\<lparr>heap := h\<rparr>)"
proof -
  have "entry_of h ` live q = entry_of (heap q) ` live q" "active_of h ` live q = active_of (heap q) ` live q"
    using assms(2) by (auto simp: entry_of_def active_of_def)
  moreover have "live q \<subseteq> {..<UINTPTR_MAX}" using tq_dom [OF assms(1)] tq_addr [OF assms(1)] by auto
  moreover have "live (q\<lparr>heap := h\<rparr>) = live q" by (simp add: live_def)
  ultimately show ?thesis using assms by (simp add: tq_inv_def)
qed

lemma tq_inv_irrelevant [simp]:
  "tq_inv D (q\<lparr>armed := x\<rparr>) = tq_inv D q"
  "tq_inv D (q\<lparr>numCreated := n\<rparr>) = tq_inv D q"
  "tq_inv D (q\<lparr>callingExpiredTimers := b\<rparr>) = tq_inv D q"
  "tq_inv D (q\<lparr>cancelingTimers := c\<rparr>) = tq_inv D q"
  "live (q\<lparr>armed := x\<rparr>) = live q" "live (q\<lparr>numCreated := n\<rparr>) = live q" "live (q\<lparr>heap := h\<rparr>) = live q"
  "live (q\<lparr>callingExpiredTimers := b\<rparr>) = live q" "live (q\<lparr>cancelingTimers := c\<rparr>) = live q"
  "live (q\<lparr>activeTimers := acts\<rparr>) = live q"
  by (simp_all add: tq_inv_def live_def)

subsection \<open>The operations keep the ownership\<close>

lemma insert_timer_ok:
  assumes inv: "tq_inv D q" and a: "a \<in> D" and t: "heap q a = Some t"
  shows "\<exists>q'. insert_timer a q = Inr (timers q = [] \<or> expiration t < fst (hd (timers q)), q') \<and> tq_inv (D - {a}) q' \<and>
    timers q' = insort_insert (expiration t, a) (timers q) \<and> heap q' = heap q \<and> live q' = insert a (live q) \<and>
    cancelingTimers q' = cancelingTimers q \<and> callingExpiredTimers q' = callingExpiredTimers q \<and> armed q' = armed q"
proof -
  let ?ts = "insort_insert (expiration t, a) (timers q)" and ?acts = "insort_insert (a, sequence t) (activeTimers q)"
  let ?q = "q\<lparr>timers := ?ts, activeTimers := ?acts\<rparr>"
  have new: "a \<notin> live q" using a tq_disjoint [OF inv] by blast
  then have ins: "(expiration t, a) \<notin> set (timers q)" "(a, sequence t) \<notin> set (activeTimers q)"
    using mem_timers [OF inv t] mem_active [OF inv t] by auto
  have lv: "live ?q = insert a (live q)" by (simp add: live_def set_insort_insert)
  have inv': "tq_inv (D - {a}) ?q"
    using inv a t new lv
    by (auto simp: tq_inv_def set_insort_insert set_insort_insert_strict entry_of_def active_of_def)
  have "insert_timer a q = Inr (timers q = [] \<or> expiration t < fst (hd (timers q)), ?q)"
    using ins t tq_sizes [OF inv] tq_sizes [OF inv'] by (simp add: insert_timer_def set_insert_def Let_def)
  with inv' lv show ?thesis by auto
qed

lemma delete_timer_ok:
  assumes inv: "tq_inv D q" and a: "a \<in> D"
  shows "delete_timer a q = Inr (q\<lparr>heap := (heap q)(a := None)\<rparr>) \<and> tq_inv (D - {a}) (q\<lparr>heap := (heap q)(a := None)\<rparr>)"
proof -
  have "a \<notin> live q" "D \<subseteq> {..<UINTPTR_MAX}" using a tq_disjoint [OF inv] tq_addr [OF inv] tq_dom [OF inv] by auto
  then have "tq_inv (D - {a}) (q\<lparr>heap := (heap q)(a := None)\<rparr>)"
    using tq_dom [OF inv] tq_disjoint [OF inv] by (intro tq_inv_heap [OF inv]) auto
  then show ?thesis using tq_D_timer [OF inv a] by (auto simp: delete_timer_def)
qed

text \<open>Taking a live timer out of both sets.\<close>

lemma detach_ok:
  assumes inv: "tq_inv D q" and a: "a \<in> live q" and t: "heap q a = Some t"
  shows "tq_inv (insert a D) (q\<lparr>timers := fst (set_erase (expiration t, a) (timers q)),
      activeTimers := fst (set_erase (a, sequence t) (activeTimers q))\<rparr>)"
    and "live (q\<lparr>timers := fst (set_erase (expiration t, a) (timers q))\<rparr>) = live q - {a}"
proof -
  show lv: "live (q\<lparr>timers := fst (set_erase (expiration t, a) (timers q))\<rparr>) = live q - {a}"
    using mem_timers [OF inv t] by (auto simp: live_def set_erase_def image_iff) 
  let ?q = "q\<lparr>timers := fst (set_erase (expiration t, a) (timers q)),
      activeTimers := fst (set_erase (a, sequence t) (activeTimers q))\<rparr>"
  have lv': "live ?q = live q - {a}" using lv by (simp add: live_def)
  have "set (timers ?q) = entry_of (heap q) ` (live q - {a})" "set (activeTimers ?q) = active_of (heap q) ` (live q - {a})"
    using tq_timers [OF inv] tq_active [OF inv] t by (auto simp: os.elems_erase entry_of_def active_of_def)
  then show "tq_inv (insert a D) ?q"
    using inv a lv' by (auto simp: tq_inv_def os.invar_erase)
qed

lemma new_Timer_ok:
  assumes inv: "tq_inv D q" and ok: "malloc_ok malloc" and ret: "new_Timer malloc cb when itv q = Inr (a, q')"
  shows "a \<notin> dom (heap q) \<and> tq_inv (insert a D) q' \<and> live q' = live q \<and> timers q' = timers q \<and>
    (\<exists>t. heap q' = (heap q)(a \<mapsto> t) \<and> callback t = cb \<and> expiration t = when \<and> interval t = itv \<and>
      repeat t = positive itv) \<and>
    cancelingTimers q' = cancelingTimers q \<and> callingExpiredTimers q' = callingExpiredTimers q \<and> armed q' = armed q"
proof -
  from ret obtain t seq where m: "malloc (heap q) = Some a"
    and q': "q' = q\<lparr>heap := (heap q)(a \<mapsto> t), numCreated := seq\<rparr>" "callback t = cb" "expiration t = when"
      "interval t = itv" "repeat t = positive itv"
    by (auto simp: new_Timer_def result_simps split: option.splits)
  have a: "a \<notin> dom (heap q)" "a < UINTPTR_MAX" using ok m by (auto simp: malloc_ok_def)
  have "tq_inv (insert a D) (q\<lparr>heap := (heap q)(a \<mapsto> t)\<rparr>)"
    using a tq_dom [OF inv] tq_disjoint [OF inv] tq_addr [OF inv] by (intro tq_inv_heap [OF inv]) auto
  then have "tq_inv (insert a D) (q\<lparr>heap := (heap q)(a \<mapsto> t), numCreated := seq\<rparr>)" by simp
  with a q' show ?thesis by auto
qed

lemma new_Timer_Inl: "new_Timer malloc cb when itv q = Inl e \<Longrightarrow> e \<in> {SignedOverflow, OutOfMemory}"
  by (auto simp: new_Timer_def int64_def split: option.splits if_splits)

lemma resetTimerfd_cases:
  "resetTimerfd clk when q = Inl SignedOverflow \<or> (\<exists>x. resetTimerfd clk when q = Inr (q\<lparr>armed := x\<rparr>))"
  by (auto simp: resetTimerfd_def howMuchTimeFromNow_def int64_def Let_def)

lemma addTimerInLoop_ok:
  assumes inv: "tq_inv D q" and a: "a \<in> D" and t: "heap q a = Some t"
  shows "case addTimerInLoop clk a q of
      Inl e \<Rightarrow> e = SignedOverflow
    | Inr q' \<Rightarrow> tq_inv (D - {a}) q' \<and> live q' = insert a (live q) \<and> heap q' = heap q \<and>
        timers q' = insort_insert (expiration t, a) (timers q) \<and> cancelingTimers q' = cancelingTimers q \<and> callingExpiredTimers q' = callingExpiredTimers q"
proof -
  obtain q1 ec where q1: "insert_timer a q = Inr (ec, q1)" "tq_inv (D - {a}) q1"
      "timers q1 = insort_insert (expiration t, a) (timers q)" "heap q1 = heap q"
      "cancelingTimers q1 = cancelingTimers q" "callingExpiredTimers q1 = callingExpiredTimers q" "live q1 = insert a (live q)"
    using insert_timer_ok [OF inv a t] by blast
  with t resetTimerfd_cases [of clk "expiration t" q1] show ?thesis
    by (cases ec) (auto simp: addTimerInLoop_def)
qed

lemma addTimer_ok:
  assumes inv: "tq_inv D q" and ok: "malloc_ok malloc"
  shows "safe {SignedOverflow, OutOfMemory}
    (\<lambda>(i, q'). fst i \<notin> dom (heap q) \<and> tq_inv D q' \<and> live q' = insert (fst i) (live q) \<and>
        (\<exists>t. heap q' = (heap q)(fst i \<mapsto> t) \<and> callback t = cb \<and> expiration t = w \<and> sequence t = snd i \<and>
          interval t = itv \<and> repeat t = positive itv) \<and>
        cancelingTimers q' = cancelingTimers q \<and> callingExpiredTimers q' = callingExpiredTimers q)
    (addTimer malloc cb w itv clk q)"
proof (cases "new_Timer malloc cb w itv q")
  case (Inl e)
  with new_Timer_Inl [OF Inl] show ?thesis by (simp add: addTimer_def)
next
  case (Inr aq)
  obtain a q1 where aq: "aq = (a, q1)" by fastforce
  note n = new_Timer_ok [OF inv ok Inr [unfolded aq]]
  then obtain t where t: "heap q1 = (heap q)(a \<mapsto> t)" "callback t = cb" "expiration t = w" "interval t = itv"
      "repeat t = positive itv" by blast
  have "insert a D - {a} = D" using n tq_dom [OF inv] by blast
  with addTimerInLoop_ok [of "insert a D" q1 a t clk] n t Inr aq show ?thesis
    by (auto simp: addTimer_def split: sum.splits)
qed

lemma cancelInLoop_ok:
  assumes inv: "tq_inv D q"
  shows "\<exists>q'. cancelInLoop (a, s) q = Inr q' \<and> tq_inv D q' \<and> armed q' = armed q \<and> callingExpiredTimers q' = callingExpiredTimers q \<and>
    (if (a, s) \<in> set (activeTimers q)
     then live q' = live q - {a} \<and> heap q' = (heap q)(a := None) \<and> cancelingTimers q' = cancelingTimers q \<and>
       timers q' = filter (\<lambda>e. snd e \<noteq> a) (timers q)
     else q' = (if callingExpiredTimers q then q\<lparr>cancelingTimers := insort_insert (a, s) (cancelingTimers q)\<rparr> else q))"
proof (cases "(a, s) \<in> set (activeTimers q)")
  case True
  then have a: "a \<in> live q" using tq_active [OF inv] by (auto simp: active_of_def)
  then obtain t where t: "heap q a = Some t" using tq_live_timer [OF inv] by blast
  with True have s: "s = sequence t" using mem_active [OF inv t] by simp
  have mem: "(expiration t, a) \<in> set (timers q)" using mem_timers [OF inv t] a by simp
  let ?ts = "fst (set_erase (expiration t, a) (timers q))"
  let ?q1 = "q\<lparr>timers := ?ts, activeTimers := fst (set_erase (a, sequence t) (activeTimers q))\<rparr>"
  let ?q2 = "?q1\<lparr>heap := (heap ?q1)(a := None)\<rparr>"
  have d: "insert a D - {a} = D" using a tq_disjoint [OF inv] by blast
  have inv2: "tq_inv D ?q2"
    using delete_timer_ok [OF detach_ok(1) [OF inv a t], of a] d by simp
  have ts: "?ts = filter (\<lambda>e. snd e \<noteq> a) (timers q)"
    unfolding set_erase_def fst_conv
    by (rule filter_cong [OF refl]) (use mem_timers [OF inv t] in auto)
  have "cancelInLoop (a, s) q = Inr ?q2"
    using True s t mem tq_sizes [OF inv] tq_sizes [OF inv2]
    by (simp add: cancelInLoop_def delete_timer_def set_erase_def Let_def)
  moreover have "live ?q2 = live q - {a}" using detach_ok(2) [OF inv a t] by (simp add: live_def)
  ultimately show ?thesis using True inv2 ts by auto
next
  case False
  with tq_sizes [OF inv] inv show ?thesis by (simp add: cancelInLoop_def set_insert_def)
qed

subsection \<open>Expiration\<close>

lemma erase_active:
  assumes "strict_sorted (activeTimers q)" and "distinct (map snd es)" and "snd ` set es \<subseteq> dom (heap q)"
    and "active_of (heap q) ` snd ` set es \<subseteq> set (activeTimers q)"
  shows "\<exists>acts. for_r es deactivate q = Inr (q\<lparr>activeTimers := acts\<rparr>) \<and>
    strict_sorted acts \<and> set acts = set (activeTimers q) - active_of (heap q) ` snd ` set es"
  using assms
proof (induction es arbitrary: q)
  case Nil
  then show ?case by (auto intro: exI [of _ "activeTimers q"])
next
  case (Cons e es)
  then obtain t where t: "heap q (snd e) = Some t" by auto
  let ?q = "q\<lparr>activeTimers := fst (set_erase (snd e, sequence t) (activeTimers q))\<rparr>"
  have e: "active_of (heap q) (snd e) = (snd e, sequence t)" using t by (simp add: active_of_def)
  have mem: "(snd e, sequence t) \<in> set (activeTimers q)" using Cons.prems(4) e by auto
  have sub: "active_of (heap ?q) ` snd ` set es \<subseteq> set (activeTimers ?q)"
  proof
    fix x assume x: "x \<in> active_of (heap ?q) ` snd ` set es"
    then have "fst x \<in> snd ` set es" by (force simp: active_of_def)
    moreover have "snd e \<notin> snd ` set es" using Cons.prems(2) by simp
    ultimately have "fst x \<noteq> snd e" by metis
    with x show "x \<in> set (activeTimers ?q)" using Cons.prems(4) by (auto simp: os.elems_erase)
  qed
  obtain acts where acts: "for_r es deactivate ?q = Inr (?q\<lparr>activeTimers := acts\<rparr>)" "strict_sorted acts"
      "set acts = set (activeTimers ?q) - active_of (heap ?q) ` snd ` set es"
    using Cons.IH [OF _ _ _ sub] Cons.prems(1-3) by (auto simp: os.invar_erase)
  have "deactivate e q = Inr ?q" using t mem by (simp add: deactivate_def set_erase_def)
  with acts e show ?case by (auto simp: os.elems_erase)
qed

definition expired_at :: "TimeStamp \<Rightarrow> TimerQueue \<Rightarrow> (TimeStamp \<times> nat) list" where
  "expired_at now q = filter (\<lambda>e. fst e \<le> now) (timers q)"

lemma tq_distinct: "tq_inv D q \<Longrightarrow> distinct (map snd (timers q))"
  using tq_sorted [of D q] tq_timers [of D q]
  by (auto simp: distinct_map strict_sorted_iff inj_on_def entry_of_def)

lemma getExpired_ok:
  fixes now :: TimeStamp
  assumes inv: "tq_inv D q"
  defines "X \<equiv> snd ` set (expired_at now q)"
  shows "\<exists>q'. getExpired now q = Inr (expired_at now q, q') \<and> tq_inv (D \<union> X) q' \<and> heap q' = heap q \<and>
    live q' = live q - X \<and> timers q' = filter (\<lambda>e. now < fst e) (timers q) \<and> armed q' = armed q"
proof -
  let ?es = "expired_at now q" and ?rest = "filter (\<lambda>e. now < fst e) (timers q)"
  have addr: "snd e < UINTPTR_MAX" if "e \<in> set (timers q)" for e
    using that tq_dom [OF inv] tq_addr [OF inv] by (auto simp: live_def)
  have split: "(e < (now, UINTPTR_MAX)) = (fst e \<le> now)" if "e \<in> set (timers q)" for e
    using addr [OF that] by (cases e) (auto simp: less_prod_def)
  have lb: "lower_bound (now, UINTPTR_MAX) (timers q) = (?es, ?rest)"
    unfolding lower_bound_filter [OF tq_sorted [OF inv]] expired_at_def
    by (intro arg_cong2 [of _ _ _ _ Pair] filter_cong refl) (simp_all only: split not_le)
  have late: "?rest = [] \<or> now < fst (hd ?rest)"
    using hd_in_set [of ?rest] by auto
  have es: "set ?es \<subseteq> set (timers q)" by (auto simp: expired_at_def)
  have X: "X \<subseteq> live q" using es by (auto simp: X_def live_def)
  have dist: "distinct (map snd ?es)" using tq_distinct [OF inv] by (simp add: expired_at_def distinct_map_filter)
  have "active_of (heap q) ` X \<subseteq> set (activeTimers q)" "X \<subseteq> dom (heap q)"
    using X tq_active [OF inv] tq_dom [OF inv] by auto
  then obtain acts where acts: "for_r ?es deactivate (q\<lparr>timers := ?rest\<rparr>) = Inr (q\<lparr>timers := ?rest, activeTimers := acts\<rparr>)"
    "strict_sorted acts" "set acts = set (activeTimers q) - active_of (heap q) ` X"
    using erase_active [of "q\<lparr>timers := ?rest\<rparr>" ?es] dist tq_active_sorted [OF inv] by (auto simp: X_def)
  let ?q = "q\<lparr>timers := ?rest, activeTimers := acts\<rparr>"
  have rest: "set (timers q) - set ?es = set ?rest" by (auto simp: expired_at_def)
  have lv: "live ?q = live q - X"
    using inj_on_image_set_diff [of snd "set (timers q)" "set (timers q)" "set ?es"] tq_distinct [OF inv] es
    by (simp add: live_def X_def rest distinct_map del: set_filter)
  have "set ?rest = entry_of (heap q) ` (live q - X)"
    using tq_timers [OF inv] unfolding rest [symmetric] X_def by (auto simp: expired_at_def entry_of_def image_iff)
  moreover have "set acts = active_of (heap q) ` (live q - X)"
    using acts(3) tq_active [OF inv] by (auto simp: active_of_def)
  ultimately have inv': "tq_inv (D \<union> X) ?q"
    using inv lv acts(2) X by (auto simp: tq_inv_def strict_sorted_filter)
  have "getExpired now q = Inr (?es, ?q)"
    using lb late acts(1) tq_sizes [OF inv] tq_sizes [OF inv'] by (simp add: getExpired_def Let_def)
  with inv' lv show ?thesis by auto
qed

subsection \<open>Running the callbacks\<close>

text \<open>
  A callback, whatever it adds and cancels, leaves the timers that the queue does not own
  untouched, in particular the expired ones that are still to be run.
\<close>

abbreviation timer_faults :: "fault set" where
  "timer_faults \<equiv> {SignedOverflow, OutOfMemory}"

text \<open>
  \<open>undisturbed D acts q q'\<close>: after the actions \<open>acts\<close> the timers of \<open>D\<close> are as before, and while expired
  timers are called, \<^verbatim>\<open>cancelingTimers_\<close> has grown by exactly the cancelled timers of \<open>D\<close>.
\<close>

definition undisturbed :: "nat set \<Rightarrow> timer_act list \<Rightarrow> TimerQueue \<Rightarrow> TimerQueue \<Rightarrow> bool" where
  "undisturbed D acts q q' \<longleftrightarrow> tq_inv D q' \<and> (\<forall>a \<in> D. heap q' a = heap q a) \<and>
     callingExpiredTimers q' = callingExpiredTimers q \<and>
     (callingExpiredTimers q \<longrightarrow> (\<forall>a \<in> D. \<forall>s. (a, s) \<in> set (cancelingTimers q') \<longleftrightarrow>
        (a, s) \<in> set (cancelingTimers q) \<or> Cancel (a, s) \<in> set acts))"

lemma undisturbed_refl: "tq_inv D q \<Longrightarrow> undisturbed D [] q q"
  by (simp add: undisturbed_def)

lemma undisturbed_trans:
  "undisturbed D acts q q' \<Longrightarrow> undisturbed D acts' q' q'' \<Longrightarrow> undisturbed D (acts @ acts') q q''"
  by (auto simp: undisturbed_def)

lemma perform_ok:
  assumes inv: "tq_inv D q" and ok: "malloc_ok malloc"
  shows "safe timer_faults (undisturbed D [act] q) (perform malloc act q)"
proof (cases act)
  case (Add cb w itv clk)
  have "a \<notin> dom (heap q) \<Longrightarrow> a \<notin> D" for a using tq_dom [OF inv] by blast
  then have "safe timer_faults (\<lambda>q'. tq_inv D q' \<and> (\<forall>a \<in> D. heap q' a = heap q a) \<and> cancelingTimers q' = cancelingTimers q \<and> callingExpiredTimers q' = callingExpiredTimers q)
      (perform malloc act q)"
    unfolding Add perform.simps
    by (auto intro!: safe_bind [OF addTimer_ok [OF inv ok]] split: if_splits dest: tq_D_timer [OF inv])
  with Add show ?thesis by (auto simp: undisturbed_def elim: safe_weaken)
next
  case (Cancel i)
  obtain b s where i: "i = (b, s)" by fastforce
  obtain q' where q': "cancelInLoop (b, s) q = Inr q'" "tq_inv D q'" "callingExpiredTimers q' = callingExpiredTimers q"
      "if (b, s) \<in> set (activeTimers q)
       then live q' = live q - {b} \<and> heap q' = (heap q)(b := None) \<and> cancelingTimers q' = cancelingTimers q
       else q' = (if callingExpiredTimers q then q\<lparr>cancelingTimers := insort_insert (b, s) (cancelingTimers q)\<rparr> else q)"
    using cancelInLoop_ok [OF inv, of b s] by (cases "(b, s) \<in> set (activeTimers q)") auto
  have "(b, s) \<in> set (activeTimers q) \<Longrightarrow> b \<notin> D"
    using tq_active [OF inv] tq_disjoint [OF inv] by (auto simp: active_of_def)
  with q'(2-4) have "undisturbed D [Cancel (b, s)] q q'"
    by (cases "(b, s) \<in> set (activeTimers q)") (auto simp: undisturbed_def set_insort_insert)
  with Cancel i q'(1) show ?thesis by simp
qed

lemma performs_ok:
  assumes inv: "tq_inv D q" and ok: "malloc_ok malloc"
  shows "safe timer_faults (undisturbed D acts q) (for_r acts (perform malloc) q)"
proof (rule safe_for [where P = "\<lambda>ys. undisturbed D ys q"])
  show "undisturbed D [] q q" using inv by (rule undisturbed_refl)
  fix ys x q' assume q': "undisturbed D ys q q'"
  then have "tq_inv D q'" by (simp add: undisturbed_def)
  from perform_ok [OF this ok, of x] q' show "safe timer_faults (undisturbed D (ys @ [x]) q) (perform malloc x q')"
    by (auto intro: safe_weaken undisturbed_trans)
qed

lemma run_timers_ok:
  assumes inv: "tq_inv D q" and ok: "malloc_ok malloc" and D: "snd ` set es \<subseteq> D"
  shows "safe timer_faults (\<lambda>(called, q'). undisturbed D (concat (map snd called)) q q' \<and>
      map fst called = map (\<lambda>e. callback (the (heap q (snd e)))) es) (for_r es (run_timer malloc calls) ([], q))"
proof -
  let ?P = "\<lambda>ys (called, q'). undisturbed D (concat (map snd called)) q q' \<and>
      map fst called = map (\<lambda>e. callback (the (heap q (snd e)))) ys"
  show ?thesis
  proof (rule safe_for [where P = ?P])
    show "?P [] ([], q)" using undisturbed_refl [OF inv] by simp
    fix ys e zs s assume es: "es = ys @ e # zs" and P: "?P ys s"
    obtain called q1 where s: "s = (called, q1)" by fastforce
    with P have u: "undisturbed D (concat (map snd called)) q q1" by simp
    then have inv1: "tq_inv D q1" by (simp add: undisturbed_def)
    have e: "snd e \<in> D" using D es by auto
    then obtain t where t: "heap q1 (snd e) = Some t" "heap q (snd e) = Some t"
      using tq_D_timer [OF inv1] u by (metis undisturbed_def)
    have "safe timer_faults (undisturbed D (calls (callback t) q1) q1) (for_r (calls (callback t) q1) (perform malloc) q1)"
      by (rule performs_ok [OF inv1 ok])
    then show "safe timer_faults (?P (ys @ [e])) (run_timer malloc calls e s)"
      unfolding run_timer_def s using t P s by (auto simp: Let_def elim!: safe_bind intro: undisturbed_trans [OF u])
  qed
qed

subsection \<open>Restarting and freeing the expired timers\<close>

text \<open>What becomes of an expired timer: it is restarted, or it is freed.\<close>

definition survives :: "(nat \<times> int) list \<Rightarrow> nat \<Rightarrow> Timer \<Rightarrow> bool" where
  "survives canceled a t \<longleftrightarrow> repeat t \<and> (a, sequence t) \<notin> set canceled"

definition after_reset :: "TimeStamp \<Rightarrow> (nat \<times> int) list \<Rightarrow> nat set \<Rightarrow> timer_heap \<Rightarrow> timer_heap" where
  "after_reset now canceled X h a =
     (if a \<in> X then
        (case h a of
           Some t \<Rightarrow>
             if survives canceled a t
             then Some (t\<lparr>expiration := TimeStamp (microSecondsSinceUnixEpoch now + in_micros (interval t))\<rparr>)
             else None
         | None \<Rightarrow> None)
      else h a)"

lemma restart_cases:
  "repeat t \<Longrightarrow> restart now t = Inl SignedOverflow \<or> restart now t = Inr (t\<lparr>expiration :=
      TimeStamp (microSecondsSinceUnixEpoch now + in_micros (interval t))\<rparr>)"
  by (auto simp: restart_def addTime_def int64_def)

lemma reset_one_ok:
  assumes inv: "tq_inv D q" and a: "snd e \<in> D" and t: "heap q (snd e) = Some t"
  shows "safe {SignedOverflow} (\<lambda>q'. tq_inv (D - {snd e}) q' \<and> cancelingTimers q' = cancelingTimers q \<and>
      heap q' = after_reset now (cancelingTimers q) {snd e} (heap q) \<and>
      live q' = live q \<union> (if survives (cancelingTimers q) (snd e) t then {snd e} else {})) (reset_one now e q)"
proof (cases "survives (cancelingTimers q) (snd e) t")
  case True
  let ?t = "t\<lparr>expiration := TimeStamp (microSecondsSinceUnixEpoch now + in_micros (interval t))\<rparr>"
  let ?q = "q\<lparr>heap := (heap q)(snd e \<mapsto> ?t)\<rparr>"
  have "D \<subseteq> {..<UINTPTR_MAX}" "snd e \<notin> live q" using tq_dom [OF inv] tq_addr [OF inv] tq_disjoint [OF inv] a by auto
  then have inv': "tq_inv D ?q" using tq_dom [OF inv] tq_disjoint [OF inv] a by (intro tq_inv_heap [OF inv]) auto
  obtain q' ec where q': "insert_timer (snd e) ?q = Inr (ec, q')" "tq_inv (D - {snd e}) q'"
      "heap q' = heap ?q" "cancelingTimers q' = cancelingTimers q" "live q' = insert (snd e) (live q)"
    using insert_timer_ok [OF inv' a, of ?t] by auto
  have h: "heap ?q = after_reset now (cancelingTimers q) {snd e} (heap q)"
    using True t by (auto simp: after_reset_def fun_eq_iff)
  have "reset_one now e q = bind_r (restart now t) (\<lambda>t'.
      bind_r (insert_timer (snd e) (q\<lparr>heap := (heap q)(snd e \<mapsto> t')\<rparr>)) (\<lambda>(_, q'). Inr q'))"
    using True t by (simp add: reset_one_def survives_def)
  moreover have "restart now t = Inl SignedOverflow \<or> restart now t = Inr ?t"
    using True restart_cases by (simp add: survives_def)
  ultimately show ?thesis using True q' h by (elim disjE) simp_all
next
  case False
  then have "(heap q)(snd e := None) = after_reset now (cancelingTimers q) {snd e} (heap q)"
    using t by (auto simp: after_reset_def fun_eq_iff)
  with False t delete_timer_ok [OF inv a] show ?thesis
    by (auto simp: reset_one_def survives_def)
qed

lemma after_reset_insert:
  "a \<notin> X \<Longrightarrow> after_reset now C {a} (after_reset now C X h) = after_reset now C (insert a X) h"
  by (auto simp: after_reset_def fun_eq_iff)

lemma reset_all_ok:
  assumes inv: "tq_inv D q" and D: "snd ` set es \<subseteq> D" and dist: "distinct (map snd es)"
  shows "safe {SignedOverflow} (\<lambda>q'. tq_inv (D - snd ` set es) q' \<and> cancelingTimers q' = cancelingTimers q \<and>
      heap q' = after_reset now (cancelingTimers q) (snd ` set es) (heap q) \<and>
      live q' = live q \<union> {a \<in> snd ` set es. survives (cancelingTimers q) a (the (heap q a))})
    (for_r es (reset_one now) q)"
proof -
  let ?C = "cancelingTimers q"
  let ?P = "\<lambda>ys q'. tq_inv (D - snd ` set ys) q' \<and> cancelingTimers q' = ?C \<and>
      heap q' = after_reset now ?C (snd ` set ys) (heap q) \<and>
      live q' = live q \<union> {a \<in> snd ` set ys. survives ?C a (the (heap q a))}"
  have "safe {SignedOverflow} (?P es) (for_r es (reset_one now) q)"
  proof (rule safe_for [where P = ?P])
    show "?P [] q" using inv by (simp add: after_reset_def fun_eq_iff)
    fix ys e zs q1 assume es: "es = ys @ e # zs" and P: "?P ys q1"
    have e: "snd e \<in> D - snd ` set ys" using D dist es by auto
    then obtain t where t: "heap q (snd e) = Some t" using tq_D_timer [OF inv] by blast
    with e P have t1: "heap q1 (snd e) = Some t" by (simp add: after_reset_def)
    have "D - snd ` set ys - {snd e} = D - snd ` set (ys @ [e])" by auto
    with e P t show "safe {SignedOverflow} (?P (ys @ [e])) (reset_one now e q1)"
      by (intro safe_weaken [OF reset_one_ok [OF conjunct1 [OF P] e t1, of now]])
        (auto simp: after_reset_insert split: if_splits)
  qed
  then show ?thesis by (rule safe_weaken) blast
qed

lemma reset_ok:
  assumes inv: "tq_inv D q" and D: "snd ` set es \<subseteq> D" and dist: "distinct (map snd es)"
  shows "safe {SignedOverflow} (\<lambda>q'. tq_inv (D - snd ` set es) q' \<and> cancelingTimers q' = cancelingTimers q \<and>
      heap q' = after_reset now (cancelingTimers q) (snd ` set es) (heap q) \<and>
      live q' = live q \<union> {a \<in> snd ` set es. survives (cancelingTimers q) a (the (heap q a))})
    (reset clk now es q)"
  unfolding reset_def
proof (rule safe_bind [OF reset_all_ok [OF assms, of now]])
  fix q1 assume q1: "tq_inv (D - snd ` set es) q1 \<and> cancelingTimers q1 = cancelingTimers q \<and>
      heap q1 = after_reset now (cancelingTimers q) (snd ` set es) (heap q) \<and>
      live q1 = live q \<union> {a \<in> snd ` set es. survives (cancelingTimers q) a (the (heap q a))}"
  have "timers q1 \<noteq> [] \<Longrightarrow> \<exists>t. heap q1 (snd (hd (timers q1))) = Some t"
    using tq_live_timer [OF conjunct1 [OF q1]] hd_in_set [of "timers q1"] by (auto simp: live_def)
  then obtain n where n: "(if timers q1 \<noteq> [] then bind_r (get_timer (snd (hd (timers q1))) q1) (\<lambda>t. Inr (expiration t))
      else Inr (TimeStamp 0)) = Inr n" by (cases "timers q1 = []") auto
  show "safe {SignedOverflow} (\<lambda>q'. tq_inv (D - snd ` set es) q' \<and> cancelingTimers q' = cancelingTimers q \<and>
      heap q' = after_reset now (cancelingTimers q) (snd ` set es) (heap q) \<and>
      live q' = live q \<union> {a \<in> snd ` set es. survives (cancelingTimers q) a (the (heap q a))})
    (bind_r (if timers q1 \<noteq> [] then bind_r (get_timer (snd (hd (timers q1))) q1) (\<lambda>t. Inr (expiration t))
      else Inr (TimeStamp 0)) (\<lambda>nextExpire. if valid nextExpire then resetTimerfd clk nextExpire q1 else Inr q1))"
    unfolding n using q1 resetTimerfd_cases [of clk n q1] by auto
qed

text \<open>
  \<^verbatim>\<open>handleRead\<close> once the log line is written. The timers it frees or restarts are told apart by what the
  callbacks did.
\<close>

definition kept :: "history \<Rightarrow> nat \<Rightarrow> Timer \<Rightarrow> bool" where
  "kept called a t \<longleftrightarrow> repeat t \<and> (a, sequence t) \<notin> cancelled_by called"

lemma readTimerfd_ok:
  assumes "tq_inv D q"
  shows "\<exists>lines q0. readTimerfd rd (Inr str) q = Inr (lines, q0) \<and> tq_inv D q0 \<and> expired_at now q0 = expired_at now q \<and>
    heap q0 = heap q \<and> live q0 = live q \<and> timers q0 = timers q"
  using assms by (simp add: readTimerfd_def expired_at_def Let_def)

lemma survives_kept:
  assumes "undisturbed D (concat (map snd called)) (q\<lparr>callingExpiredTimers := True, cancelingTimers := []\<rparr>) q'" and "a \<in> D"
  shows "survives (cancelingTimers q') a t \<longleftrightarrow> kept called a t"
  using assms by (auto simp: undisturbed_def survives_def kept_def cancelled_by_def)

lemma handleRead_ok:
  fixes now :: TimeStamp
  assumes inv: "tq_inv D q" and ok: "malloc_ok malloc"
  defines "es \<equiv> expired_at now q"
  shows "safe timer_faults (\<lambda>(called, q'). tq_inv D q' \<and> map fst called = map (\<lambda>e. callback (the (heap q (snd e)))) es \<and>
      (\<forall>a \<in> snd ` set es. heap q' a = (let t = the (heap q a) in if kept called a t
          then Some (t\<lparr>expiration := TimeStamp (microSecondsSinceUnixEpoch now + in_micros (interval t))\<rparr>) else None) \<and>
        (a \<in> live q' \<longleftrightarrow> kept called a (the (heap q a)))))
    (handleRead malloc calls rd (Inr str) now clk q)"
proof -
  let ?X = "snd ` set es"
  obtain lines q0 where q0: "readTimerfd rd (Inr str) q = Inr (lines, q0)" "tq_inv D q0" "expired_at now q0 = es" "heap q0 = heap q"
    using readTimerfd_ok [OF inv, of rd str now] unfolding es_def by blast
  obtain q1 where q1: "getExpired now q0 = Inr (es, q1)" "tq_inv (D \<union> ?X) q1" "heap q1 = heap q"
    using getExpired_ok [OF q0(2), of now] unfolding q0(3,4) by blast
  let ?q1 = "q1\<lparr>callingExpiredTimers := True, cancelingTimers := []\<rparr>"
  have X: "?X \<subseteq> live q" by (auto simp: es_def expired_at_def live_def)
  then have again: "D \<union> ?X - ?X = D" using tq_disjoint [OF inv] by blast
  have dist: "distinct (map snd es)" using tq_distinct [OF inv] by (simp add: es_def expired_at_def distinct_map_filter)
  have run: "safe timer_faults (\<lambda>(called, q'). undisturbed (D \<union> ?X) (concat (map snd called)) ?q1 q' \<and>
      map fst called = map (\<lambda>e. callback (the (heap ?q1 (snd e)))) es) (for_r es (run_timer malloc calls) ([], ?q1))"
    using q1(2) by (intro run_timers_ok [OF _ ok]) auto
  show ?thesis
    unfolding handleRead_def q0(1) q1(1) bind_r_simps prod.case
  proof (rule safe_bind [OF run], clarify)
    fix called q2 assume u: "undisturbed (D \<union> ?X) (concat (map snd called)) ?q1 q2"
      and called: "map fst called = map (\<lambda>e. callback (the (heap ?q1 (snd e)))) es"
    let ?q2 = "q2\<lparr>callingExpiredTimers := False\<rparr>"
    have q2: "tq_inv (D \<union> ?X) q2" using u by (simp add: undisturbed_def)
    have same: "heap q2 a = heap q a" "a \<notin> live q2" "\<exists>t. heap q a = Some t"
        "survives (cancelingTimers q2) a t \<longleftrightarrow> kept called a t" if "a \<in> ?X" for a t
      using u q1(3) that X tq_disjoint [OF q2] tq_live_timer [OF inv] survives_kept [OF u] by (auto simp: undisturbed_def)
    have reset: "safe timer_faults (\<lambda>q'. tq_inv D q' \<and> cancelingTimers q' = cancelingTimers q2 \<and>
        heap q' = after_reset now (cancelingTimers q2) ?X (heap q2) \<and>
        live q' = live q2 \<union> {a \<in> ?X. survives (cancelingTimers q2) a (the (heap q2 a))}) (reset clk now es ?q2)"
      using reset_ok [OF _ _ dist, of "D \<union> ?X" ?q2 now clk] q2 unfolding again by (auto elim: safe_faults)
    show "safe timer_faults (\<lambda>(called, q'). tq_inv D q' \<and> map fst called = map (\<lambda>e. callback (the (heap q (snd e)))) es \<and>
      (\<forall>a \<in> ?X. heap q' a = (let t = the (heap q a) in if kept called a t
          then Some (t\<lparr>expiration := TimeStamp (microSecondsSinceUnixEpoch now + in_micros (interval t))\<rparr>) else None) \<and>
        (a \<in> live q' \<longleftrightarrow> kept called a (the (heap q a)))))
      (bind_r (reset clk now es ?q2) (\<lambda>q3. Inr (called, q3)))"
    proof (rule safe_bind [OF reset])
      fix q3 assume q3: "tq_inv D q3 \<and> cancelingTimers q3 = cancelingTimers q2 \<and>
        heap q3 = after_reset now (cancelingTimers q2) ?X (heap q2) \<and>
        live q3 = live q2 \<union> {a \<in> ?X. survives (cancelingTimers q2) a (the (heap q2 a))}"
      have "heap q3 a = (let t = the (heap q a) in if kept called a t
          then Some (t\<lparr>expiration := TimeStamp (microSecondsSinceUnixEpoch now + in_micros (interval t))\<rparr>) else None)"
          "a \<in> live q3 \<longleftrightarrow> kept called a (the (heap q a))" if a: "a \<in> ?X" for a
        using q3 a same [OF a] by (auto simp: after_reset_def Let_def)
      with q3 called q1(3) show "safe timer_faults (\<lambda>(called, q'). tq_inv D q' \<and>
        map fst called = map (\<lambda>e. callback (the (heap q (snd e)))) es \<and>
        (\<forall>a \<in> ?X. heap q' a = (let t = the (heap q a) in if kept called a t
          then Some (t\<lparr>expiration := TimeStamp (microSecondsSinceUnixEpoch now + in_micros (interval t))\<rparr>) else None) \<and>
        (a \<in> live q' \<longleftrightarrow> kept called a (the (heap q a))))) (Inr (called, q3))" by simp
    qed
  qed
qed

lemma handleRead_text:
  "handleRead malloc calls rd stale now clk q = Inr r \<Longrightarrow> \<exists>str. stale = Inr str"
  by (cases stale) (simp_all add: handleRead_def readTimerfd_def)

lemma handleRead_entry:
  assumes "tq_inv D q" and "malloc_ok malloc" and "(w, a) \<in> set (timers q)" and "w \<le> now" and "heap q a = Some t"
    and "handleRead malloc calls rd stale now clk q = Inr (called, q')"
  shows "tq_inv D q'" and "a \<in> live q' \<longleftrightarrow> kept called a t"
    and "heap q' a = (if kept called a t
      then Some (t\<lparr>expiration := TimeStamp (microSecondsSinceUnixEpoch now + in_micros (interval t))\<rparr>) else None)"
proof -
  have a: "a \<in> snd ` set (expired_at now q)" using assms(3,4) by (force simp: expired_at_def)
  obtain str where "stale = Inr str" using handleRead_text [OF assms(6)] by blast
  from safe_Inr [OF handleRead_ok [OF assms(1,2), of now calls rd str clk] assms(6) [unfolded this]]
  have "tq_inv D q'" and "\<forall>a \<in> snd ` set (expired_at now q). heap q' a = (let t = the (heap q a) in if kept called a t
      then Some (t\<lparr>expiration := TimeStamp (microSecondsSinceUnixEpoch now + in_micros (interval t))\<rparr>) else None) \<and>
    (a \<in> live q' \<longleftrightarrow> kept called a (the (heap q a)))" by blast+
  from this(1) bspec [OF this(2) a] show "tq_inv D q'" and "a \<in> live q' \<longleftrightarrow> kept called a t"
    and "heap q' a = (if kept called a t
      then Some (t\<lparr>expiration := TimeStamp (microSecondsSinceUnixEpoch now + in_micros (interval t))\<rparr>) else None)"
    unfolding assms(5) option.sel Let_def by blast+
qed

section \<open>The timer descriptor\<close>

text \<open>
  The descriptor is always set for the earliest timer, or for 100 microseconds from the clock
  reading if that is later. \<open>armed_ok\<close> allows an earlier time: cancelling the earliest timer
  leaves the descriptor as it is.
\<close>

definition micros :: "timespec \<Rightarrow> int" where
  "micros ts = tv_sec ts * 1000000 + tv_nsec ts div 1000"

definition armed_ok :: "TimerQueue \<Rightarrow> bool" where
  "armed_ok q \<longleftrightarrow> timers q = [] \<or> (\<exists>clk ts. armed q = Some (clk, ts) \<and>
     microSecondsSinceUnixEpoch clk + micros ts \<le>
       max (microSecondsSinceUnixEpoch (fst (hd (timers q)))) (microSecondsSinceUnixEpoch clk + 100))"

lemma howMuchTimeFromNow_value:
  assumes "howMuchTimeFromNow clk when = Inr ts"
  shows "micros ts = max 100 (microSecondsSinceUnixEpoch when - microSecondsSinceUnixEpoch clk)"
    and "0 \<le> tv_sec ts" and "0 \<le> tv_nsec ts" and "tv_nsec ts < 1000000000" and "tv_nsec ts mod 1000 = 0"
proof -
  define us where "us = max 100 (microSecondsSinceUnixEpoch when - microSecondsSinceUnixEpoch clk)"
  have pos: "0 < us" by (simp add: us_def)
  have ts: "ts = \<lparr>tv_sec = us div 1000000, tv_nsec = (us mod 1000000) * 1000\<rparr>"
    using assms pos
    by (auto simp: howMuchTimeFromNow_def int64_def Let_def c_div_def c_mod_def kMicroSecondsPerSeconds_def us_def
        max_def minus_div_mult_eq_mod [symmetric] split: if_splits)
  show "micros ts = max 100 (microSecondsSinceUnixEpoch when - microSecondsSinceUnixEpoch clk)"
    unfolding us_def [symmetric] by (simp add: ts micros_def)
  show "0 \<le> tv_sec ts" "0 \<le> tv_nsec ts" "tv_nsec ts < 1000000000" "tv_nsec ts mod 1000 = 0"
    using pos pos_mod_bound [of 1000000 us] by (simp_all add: ts pos_imp_zdiv_nonneg_iff)
qed

lemma resetTimerfd_armed:
  "resetTimerfd clk when q = Inr q' \<Longrightarrow> timers q' = timers q \<and> (when = fst (hd (timers q)) \<longrightarrow> armed_ok q')"
  using howMuchTimeFromNow_value(1) [of clk "when"]
  by (auto simp: resetTimerfd_def result_simps armed_ok_def)

lemma hd_insort_time:
  "sorted ts \<Longrightarrow> fst (hd (insort_insert (w, a) ts)) = (if ts = [] \<or> w < fst (hd ts) then w else fst (hd (ts :: (TimeStamp \<times> nat) list)))"
  by (cases ts) (force simp: insort_insert_key_def less_eq_prod_def)+

lemma addTimerInLoop_armed:
  assumes inv: "tq_inv D q" and a: "a \<in> D" and t: "heap q a = Some t" and arm: "armed_ok q"
  shows "safe {SignedOverflow} armed_ok (addTimerInLoop clk a q)"
proof -
  have hd: "fst (hd (insort_insert (expiration t, a) (timers q))) =
      (if timers q = [] \<or> expiration t < fst (hd (timers q)) then expiration t else fst (hd (timers q)))"
    using tq_sorted [OF inv] by (intro hd_insort_time) (simp add: strict_sorted_iff)
  obtain q1 where q1: "insert_timer a q = Inr (timers q = [] \<or> expiration t < fst (hd (timers q)), q1)"
      "timers q1 = insort_insert (expiration t, a) (timers q)" "heap q1 = heap q" "armed q1 = armed q"
    using insert_timer_ok [OF inv a t] by blast
  show ?thesis
  proof (cases "timers q = [] \<or> expiration t < fst (hd (timers q))")
    case True
    with q1 hd t resetTimerfd_armed [of clk "expiration t" q1] resetTimerfd_cases [of clk "expiration t" q1]
    show ?thesis by (auto simp: addTimerInLoop_def)
  next
    case False
    with q1 hd arm show ?thesis by (auto simp: addTimerInLoop_def armed_ok_def)
  qed
qed

lemma cancel_armed:
  assumes "sorted (timers q)" and "armed_ok q" and "timers q' = filter P (timers q)" and "armed q' = armed q"
  shows "armed_ok q'"
proof (cases "timers q'")
  case (Cons e es)
  then have "e \<in> set (timers q)" using assms(3) by (metis filter_is_subset list.set_intros(1) subsetD)
  then have "hd (timers q) \<le> e" using assms(1) by (cases "timers q") auto
  then have "fst (hd (timers q)) \<le> fst e" by (auto simp: less_eq_prod_def)
  with Cons assms(2,4) \<open>e \<in> set (timers q)\<close> show ?thesis
    by (fastforce simp: armed_ok_def less_eq_TimeStamp_micros)
qed (simp add: armed_ok_def)

text \<open>The times a program can give: expirations after the epoch, delays that are not negative.\<close>

definition times_ok :: "timer_heap \<Rightarrow> bool" where
  "times_ok h \<longleftrightarrow> (\<forall>t \<in> Map.ran h. valid (expiration t) \<and> (repeat t \<longrightarrow> 0 \<le> in_micros (interval t)))"

fun act_ok :: "timer_act \<Rightarrow> bool" where
  "act_ok (Add cb when itv clk) \<longleftrightarrow> valid when \<and> (positive itv \<longrightarrow> 0 \<le> in_micros itv)"
| "act_ok (Cancel timerId) \<longleftrightarrow> True"

lemma times_ok_upd:
  "times_ok h \<Longrightarrow> times_ok (h(a := None))"
  "times_ok h \<Longrightarrow> valid (expiration t) \<Longrightarrow> (repeat t \<longrightarrow> 0 \<le> in_micros (interval t)) \<Longrightarrow> times_ok (h(a \<mapsto> t))"
  by (auto simp: times_ok_def ran_def split: if_splits)

lemma times_ok_reset:
  assumes "times_ok h" and "valid now"
  shows "times_ok (after_reset now C X h)"
  using assms unfolding times_ok_def ran_def after_reset_def
  by (fastforce simp: survives_def valid_def split: if_splits option.splits)

lemma perform_times:
  assumes inv: "tq_inv D q" and ok: "malloc_ok malloc" "act_ok act" and times: "times_ok (heap q)"
  shows "safe timer_faults (\<lambda>q'. tq_inv D q' \<and> times_ok (heap q')) (perform malloc act q)"
proof (cases act)
  case (Add cb w itv clk)
  with ok times show ?thesis
    by (auto intro!: safe_bind [OF addTimer_ok [OF inv ok(1)]] simp: times_ok_upd)
next
  case (Cancel i)
  obtain a s where i: "i = (a, s)" by fastforce
  obtain q' where q': "cancelInLoop (a, s) q = Inr q'" "tq_inv D q'" "heap q' = heap q \<or> heap q' = (heap q)(a := None)"
    using cancelInLoop_ok [OF inv, of a s] by (fastforce split: if_splits)
  with times have "times_ok (heap q')" using times_ok_upd(1) by metis
  with Cancel i q' show ?thesis by simp
qed

lemma run_times:
  assumes inv: "tq_inv D q" and ok: "malloc_ok malloc" "\<forall>cb q. \<forall>act \<in> set (calls cb q). act_ok act"
    and D: "snd ` set es \<subseteq> D" and times: "times_ok (heap q)"
  shows "safe timer_faults (\<lambda>(ran, q'). tq_inv D q' \<and> times_ok (heap q')) (for_r es (run_timer malloc calls) (called, q))"
proof (rule safe_for [where P = "\<lambda>_ (ran, q'). tq_inv D q' \<and> times_ok (heap q')"])
  fix ys e zs and s :: "history \<times> TimerQueue"
  assume es: "es = ys @ e # zs" and P: "(\<lambda>(ran, q'). tq_inv D q' \<and> times_ok (heap q')) s"
  obtain r q1 where s: "s = (r, q1)" by fastforce
  from P s D es obtain t where t: "heap q1 (snd e) = Some t" using tq_D_timer [of D q1 "snd e"] by auto
  have "\<forall>act \<in> set (calls (callback t) q1). act_ok act" using ok(2) by blast
  then have "safe timer_faults (\<lambda>q'. tq_inv D q' \<and> times_ok (heap q')) (for_r (calls (callback t) q1) (perform malloc) q1)"
    using P s ok(1) by (intro safe_for [where P = "\<lambda>_ q'. tq_inv D q' \<and> times_ok (heap q')"] perform_times) auto
  then show "safe timer_faults (\<lambda>(ran, q'). tq_inv D q' \<and> times_ok (heap q')) (run_timer malloc calls e s)"
    using t s by (auto simp: run_timer_def Let_def elim!: safe_bind)
qed (use inv times in simp)

lemma reset_armed:
  assumes inv: "tq_inv D q" and D: "snd ` set es \<subseteq> D" and dist: "distinct (map snd es)"
    and times: "times_ok (heap q)" "valid now"
  shows "safe {SignedOverflow} (\<lambda>q'. armed_ok q' \<and> times_ok (heap q')) (reset clk now es q)"
  unfolding reset_def
proof (rule safe_bind [OF reset_all_ok [OF inv D dist, of now]])
  fix q1 assume q1: "tq_inv (D - snd ` set es) q1 \<and> cancelingTimers q1 = cancelingTimers q \<and>
      heap q1 = after_reset now (cancelingTimers q) (snd ` set es) (heap q) \<and>
      live q1 = live q \<union> {a \<in> snd ` set es. survives (cancelingTimers q) a (the (heap q a))}"
  then have t1: "times_ok (heap q1)" using times_ok_reset [OF times] by simp
  show "safe {SignedOverflow} (\<lambda>q'. armed_ok q' \<and> times_ok (heap q'))
    (bind_r (if timers q1 \<noteq> [] then bind_r (get_timer (snd (hd (timers q1))) q1) (\<lambda>t. Inr (expiration t))
      else Inr (TimeStamp 0)) (\<lambda>nextExpire. if valid nextExpire then resetTimerfd clk nextExpire q1 else Inr q1))"
  proof (cases "timers q1 = []")
    case True
    then show ?thesis using t1 by (simp add: valid_def armed_ok_def)
  next
    case False
    then have hd: "hd (timers q1) \<in> set (timers q1)" by simp
    then obtain t where t: "heap q1 (snd (hd (timers q1))) = Some t"
      using tq_live_timer [OF conjunct1 [OF q1]] by (auto simp: live_def)
    with hd have e: "expiration t = fst (hd (timers q1))"
      using mem_timers [OF conjunct1 [OF q1] t, of "fst (hd (timers q1))"] by simp
    have "valid (expiration t)" using t t1 by (auto simp: times_ok_def ran_def)
    with False t have "(bind_r (if timers q1 \<noteq> [] then bind_r (get_timer (snd (hd (timers q1))) q1) (\<lambda>t. Inr (expiration t))
      else Inr (TimeStamp 0)) (\<lambda>nextExpire. if valid nextExpire then resetTimerfd clk nextExpire q1 else Inr q1))
      = resetTimerfd clk (fst (hd (timers q1))) q1" by (simp add: e)
    moreover have "safe {SignedOverflow} (\<lambda>q'. armed_ok q' \<and> times_ok (heap q')) (resetTimerfd clk (fst (hd (timers q1))) q1)"
      using resetTimerfd_cases [of clk "fst (hd (timers q1))" q1] resetTimerfd_armed [of clk "fst (hd (timers q1))" q1] t1
      by (elim disjE exE) simp_all
    ultimately show ?thesis by (simp only:)
  qed
qed

lemma handleRead_armed:
  assumes inv: "tq_inv D q" and ok: "malloc_ok malloc" "\<forall>cb q. \<forall>act \<in> set (calls cb q). act_ok act"
    and times: "times_ok (heap q)" "valid now"
  shows "safe timer_faults (\<lambda>(ran, q'). armed_ok q' \<and> times_ok (heap q')) (handleRead malloc calls rd (Inr str) now clk q)"
proof -
  let ?es = "expired_at now q"
  let ?X = "snd ` set ?es"
  obtain lines q0 where q0: "readTimerfd rd (Inr str) q = Inr (lines, q0)" "tq_inv D q0" "expired_at now q0 = ?es" "heap q0 = heap q"
    using readTimerfd_ok [OF inv, of rd str now] by blast
  obtain q1 where q1: "getExpired now q0 = Inr (?es, q1)" "tq_inv (D \<union> ?X) q1" "heap q1 = heap q"
    using getExpired_ok [OF q0(2), of now] unfolding q0(3,4) by blast
  have dist: "distinct (map snd ?es)" using tq_distinct [OF inv] by (simp add: expired_at_def distinct_map_filter)
  have run: "safe timer_faults (\<lambda>(ran, q'). tq_inv (D \<union> ?X) q' \<and> times_ok (heap q'))
      (for_r ?es (run_timer malloc calls) ([], q1\<lparr>callingExpiredTimers := True, cancelingTimers := []\<rparr>))"
    using q1(2,3) times(1) by (intro run_times [OF _ ok]) auto
  have "safe timer_faults (\<lambda>q'. armed_ok q' \<and> times_ok (heap q')) (reset clk now ?es (q2\<lparr>callingExpiredTimers := False\<rparr>))"
    if "tq_inv (D \<union> ?X) q2" "times_ok (heap q2)" for q2
    using that times(2) by (intro safe_faults [OF reset_armed [of "D \<union> ?X"]] dist) auto
  then show ?thesis
    unfolding handleRead_def q0(1) q1(1) bind_r_simps prod.case
    by (intro safe_bind [OF run]) (auto intro!: safe_bind)
qed

section \<open>Properties\<close>

text \<open>
  C9 (safety). One call of \<^verbatim>\<open>handleRead\<close>, with callbacks that add and cancel timers as they like. Its
  log line reads the \<^verbatim>\<open>String\<close> of \<^verbatim>\<open>now.toString()\<close>, a view of an array that is gone: by the rules of the
  language every call is an access to dead memory. That is the only one: where this reading yields some
  text, whatever it is, no \<^verbatim>\<open>assert\<close> fires and no freed timer is touched (only a 64-bit overflow or a failed allocation
  can stop it), the ownership invariant holds again, and the callbacks called are those of the
  timers that had expired when it started, each once and in the order of expiration.
\<close>

theorem handleRead_runs_expired:
  assumes "tq_inv D q" and "malloc_ok malloc"
  shows "handleRead malloc calls rd (to_string (toString now)) now clk q = Inl UseAfterFree \<and>
    safe {SignedOverflow, OutOfMemory}
      (\<lambda>(called, q'). tq_inv D q' \<and>
        map fst called = map (\<lambda>e. callback (the (heap q (snd e)))) (filter (\<lambda>e. fst e \<le> now) (timers q)))
      (handleRead malloc calls rd (Inr str) now clk q)"
proof
  show "handleRead malloc calls rd (to_string (toString now)) now clk q = Inl UseAfterFree"
    by (simp add: handleRead_def readTimerfd_def dead_text)
qed (rule safe_weaken [OF handleRead_ok [OF assms]], auto simp: expired_at_def)

definition sample_malloc :: "timer_heap \<Rightarrow> nat option" where
  "sample_malloc h = (if h 16 = None then Some 16 else if h 32 = None then Some 32 else None)"

definition sample_queue :: TimerQueue where
  "sample_queue = \<lparr>heap = [16 \<mapsto> \<lparr>callback = 7, expiration = TimeStamp 1000,
       interval = \<lparr>positive = True, in_micros = 500\<rparr>, repeat = True, sequence = 1\<rparr>],
     numCreated = 1, timers = [(TimeStamp 1000, 16)], activeTimers = [(16, 1)],
     callingExpiredTimers = False, cancelingTimers = [], armed = None\<rparr>"

lemma sample_malloc_ok: "malloc_ok sample_malloc"
  by (auto simp: malloc_ok_def sample_malloc_def UINTPTR_MAX_def split: if_splits)

lemma sample_queue_inv: "tq_inv {} sample_queue"
  by (simp add: tq_inv_def sample_queue_def live_def entry_of_def active_of_def UINTPTR_MAX_def)

theorem handleRead_runs_expired_witness:
  "safe {SignedOverflow, OutOfMemory} (\<lambda>(called, q'). tq_inv {} q' \<and> map fst called = [7])
    (handleRead sample_malloc (\<lambda>_ _. [Add 8 (TimeStamp 1500) \<lparr>positive = False, in_micros = 0\<rparr> (TimeStamp 1200),
      Cancel (16, 1)]) \<lparr>got = 8, howmany = 1\<rparr> (Inr ''0.001100'') (TimeStamp 1100) (TimeStamp 1300) sample_queue)"
  by (rule safe_weaken [OF conjunct2 [OF handleRead_runs_expired [OF sample_queue_inv sample_malloc_ok]]])
    (auto simp: sample_queue_def less_eq_TimeStamp_micros)

text \<open>
  C25 (functional). What a call of \<^verbatim>\<open>handleRead\<close> that returns leaves of an expired timer, by what the callbacks of
  this call did (whatever \<^verbatim>\<open>cancelingTimers_\<close> held before): a repeating timer that none of them cancelled is in the queue again, to
  expire one interval after the call began; every other one, the repeating timer that one of them cancelled
  included, is out of the queue and freed.
\<close>

theorem handleRead_disposes:
  assumes "tq_inv D q" and "malloc_ok malloc" and "(w, a) \<in> set (timers q)" and "w \<le> now" and "heap q a = Some t"
    and "handleRead malloc calls rd stale now clk q = Inr (called, q')"
  shows "if repeat t \<and> (\<forall>(cb, acts) \<in> set called. Cancel (a, sequence t) \<notin> set acts)
    then (TimeStamp (microSecondsSinceUnixEpoch now + in_micros (interval t)), a) \<in> set (timers q')
    else a \<notin> live q' \<and> heap q' a = None"
proof -
  note q' = handleRead_entry [OF assms]
  have k: "(repeat t \<and> (\<forall>(cb, acts) \<in> set called. Cancel (a, sequence t) \<notin> set acts)) \<longleftrightarrow> kept called a t"
    by (auto simp: kept_def cancelled_by_def)
  show ?thesis unfolding k
    using q' mem_timers [OF q'(1), of a "t\<lparr>expiration := TimeStamp (microSecondsSinceUnixEpoch now + in_micros (interval t))\<rparr>"]
    by simp
qed

lemma sample_handleRead:
  assumes "calls = (\<lambda>_ _. []) \<or> calls = (\<lambda>_ _. [Cancel (16, 1)])"
  shows "\<exists>q'. handleRead sample_malloc calls \<lparr>got = 8, howmany = 1\<rparr> (Inr []) (TimeStamp 1100) (TimeStamp 1300)
    (sample_queue\<lparr>cancelingTimers := [(16, 1)]\<rparr>) = Inr ([(7, calls 7 sample_queue)], q')"
proof -
  let ?q = "sample_queue\<lparr>cancelingTimers := [(16, 1)]\<rparr>"
  let ?q1 = "?q\<lparr>timers := [], activeTimers := []\<rparr>"
  have r: "\<exists>ls. readTimerfd \<lparr>got = 8, howmany = 1\<rparr> (Inr []) ?q = Inr (ls, ?q)"
    by (simp add: readTimerfd_def sample_queue_def)
  have e: "getExpired (TimeStamp 1100) ?q = Inr ([(TimeStamp 1000, 16)], ?q1)"
    by (simp add: getExpired_def lower_bound_def sample_queue_def less_prod_def less_eq_TimeStamp_micros
        less_TimeStamp_micros UINTPTR_MAX_def deactivate_def set_erase_def get_timer_def)
  show ?thesis using assms r e
    by (auto simp: handleRead_def run_timer_def get_timer_def sample_queue_def cancelInLoop_def set_insert_def
        insort_insert_key_def reset_def reset_one_def restart_def addTime_def int64_def int64_range_def insert_timer_def valid_def
        resetTimerfd_def howMuchTimeFromNow_def delete_timer_def)
qed

theorem handleRead_disposes_witness:
  "(\<exists>q'. handleRead sample_malloc (\<lambda>_ _. []) \<lparr>got = 8, howmany = 1\<rparr> (Inr []) (TimeStamp 1100) (TimeStamp 1300)
      (sample_queue\<lparr>cancelingTimers := [(16, 1)]\<rparr>) = Inr ([(7, [])], q') \<and> (TimeStamp 1600, 16) \<in> set (timers q')) \<and>
   (\<exists>q'. handleRead sample_malloc (\<lambda>_ _. [Cancel (16, 1)]) \<lparr>got = 8, howmany = 1\<rparr> (Inr []) (TimeStamp 1100) (TimeStamp 1300)
      (sample_queue\<lparr>cancelingTimers := [(16, 1)]\<rparr>) = Inr ([(7, [Cancel (16, 1)])], q') \<and> heap q' 16 = None)"
proof -
  let ?q = "sample_queue\<lparr>cancelingTimers := [(16, 1)]\<rparr>"
  have inv: "tq_inv {} ?q" using sample_queue_inv by simp
  have e: "(TimeStamp 1000, 16) \<in> set (timers ?q)" "TimeStamp 1000 \<le> TimeStamp 1100"
    by (simp_all add: sample_queue_def less_eq_TimeStamp_micros)
  note d = handleRead_disposes [OF inv sample_malloc_ok e]
  obtain q1 where q1: "handleRead sample_malloc (\<lambda>_ _. []) \<lparr>got = 8, howmany = 1\<rparr> (Inr []) (TimeStamp 1100) (TimeStamp 1300) ?q
      = Inr ([(7, [])], q1)" using sample_handleRead [of "\<lambda>_ _. []"] by auto
  obtain q2 where q2: "handleRead sample_malloc (\<lambda>_ _. [Cancel (16, 1)]) \<lparr>got = 8, howmany = 1\<rparr> (Inr []) (TimeStamp 1100)
      (TimeStamp 1300) ?q = Inr ([(7, [Cancel (16, 1)])], q2)" using sample_handleRead [of "\<lambda>_ _. [Cancel (16, 1)]"] by auto
  have "(TimeStamp 1600, 16) \<in> set (timers q1)" "heap q2 16 = None"
    using d [OF _ q1] d [OF _ q2] by (simp_all add: sample_queue_def)
  with q1 q2 show ?thesis by blast
qed

text \<open>
  \<^verbatim>\<open>cancelInLoop\<close> never fails an \<^verbatim>\<open>assert\<close>, whatever identifier it is given. An active
  timer is freed and taken out of both sets, and the other timers stay; an identifier that
  is not active, such as one of a timer that is gone, frees and removes nothing.
\<close>

theorem cancelInLoop_effect:
  assumes "tq_inv D q"
  shows "\<exists>q'. cancelInLoop (a, s) q = Inr q' \<and> tq_inv D q' \<and>
    (if (a, s) \<in> set (activeTimers q)
     then heap q' = (heap q)(a := None) \<and> timers q' = filter (\<lambda>e. snd e \<noteq> a) (timers q) \<and>
       activeTimers q' = filter (\<lambda>i. i \<noteq> (a, s)) (activeTimers q)
     else heap q' = heap q \<and> timers q' = timers q \<and> activeTimers q' = activeTimers q)"
proof -
  obtain q' where q': "cancelInLoop (a, s) q = Inr q'" "tq_inv D q'"
      "if (a, s) \<in> set (activeTimers q)
       then heap q' = (heap q)(a := None) \<and> timers q' = filter (\<lambda>e. snd e \<noteq> a) (timers q)
       else heap q' = heap q \<and> timers q' = timers q \<and> activeTimers q' = activeTimers q"
    using cancelInLoop_ok [OF assms, of a s] by (cases "(a, s) \<in> set (activeTimers q)") auto
  have "(a, s) \<in> set (activeTimers q) \<Longrightarrow> activeTimers q' = filter (\<lambda>i. i \<noteq> (a, s)) (activeTimers q)"
    using q'(1) by (auto simp: cancelInLoop_def delete_timer_def set_erase_def result_simps Let_def)
  with q' show ?thesis by auto
qed

theorem cancelInLoop_effect_witness:
  "\<exists>q'. cancelInLoop (16, 1) sample_queue = Inr q' \<and> tq_inv {} q' \<and> heap q' = Map.empty \<and> timers q' = []"
  using cancelInLoop_effect [OF sample_queue_inv, of 16 1] by (auto simp: sample_queue_def)

text \<open>
  A program's use of the queue: actions of the loop thread, and calls of \<^verbatim>\<open>handleRead\<close> with any result of \<^verbatim>\<open>read\<close> and any
  text in the log line.
\<close>

datatype tq_op = Act timer_act | Fire timerfd_read string TimeStamp TimeStamp

fun run_op :: "(timer_heap \<Rightarrow> nat option) \<Rightarrow> callbacks \<Rightarrow> tq_op \<Rightarrow> TimerQueue \<Rightarrow> TimerQueue result" where
  "run_op malloc calls (Act act) q = perform malloc act q"
| "run_op malloc calls (Fire rd str now clk) q = bind_r (handleRead malloc calls rd (Inr str) now clk q) (\<lambda>(_, q'). Inr q')"

fun op_ok :: "tq_op \<Rightarrow> bool" where
  "op_ok (Act act) \<longleftrightarrow> act_ok act"
| "op_ok (Fire rd str now clk) \<longleftrightarrow> valid now"

lemma perform_armed:
  assumes inv: "tq_inv D q" and ok: "malloc_ok malloc" and arm: "armed_ok q"
  shows "safe timer_faults armed_ok (perform malloc act q)"
proof (cases act)
  case (Add cb w itv clk)
  show ?thesis
  proof (cases "new_Timer malloc cb w itv q")
    case (Inl e)
    with Add new_Timer_Inl [OF Inl] show ?thesis by (simp add: addTimer_def)
  next
    case (Inr aq)
    obtain a q1 where aq: "aq = (a, q1)" by fastforce
    note n = new_Timer_ok [OF inv ok Inr [unfolded aq]]
    then obtain t where t: "heap q1 a = Some t" by auto
    have "armed_ok q1" using n arm by (simp add: armed_ok_def)
    with n t have "safe timer_faults armed_ok (addTimerInLoop clk a q1)"
      by (intro safe_faults [OF addTimerInLoop_armed [of "insert a D"]]) auto
    moreover have "addTimerInLoop clk a q1 = Inr q2 \<Longrightarrow> get_timer a q2 = Inr t" for q2
      using addTimerInLoop_ok [of "insert a D" q1 a t clk] n t by simp
    ultimately show ?thesis using Add Inr aq
      by (cases "addTimerInLoop clk a q1") (auto simp: addTimer_def)
  qed
next
  case (Cancel i)
  obtain a s where i: "i = (a, s)" by fastforce
  obtain q' where q': "cancelInLoop (a, s) q = Inr q'" "armed q' = armed q"
      "timers q' = filter (\<lambda>_. True) (timers q) \<or> timers q' = filter (\<lambda>e. snd e \<noteq> a) (timers q)"
    using cancelInLoop_ok [OF inv, of a s] by (cases "(a, s) \<in> set (activeTimers q)") auto
  have "sorted (timers q)" using tq_sorted [OF inv] by (simp add: strict_sorted_iff)
  then have "armed_ok q'" using q'(2,3) cancel_armed [OF _ arm, of q'] by blast
  with Cancel i q'(1) show ?thesis by simp
qed

text \<open>
  C10 (liveness). After any sequence of additions, cancellations and expirations from a new queue,
  with times after the epoch, the queue owns exactly the timers on the heap, and if it has a
  timer the descriptor is set to fire by the time the earliest one expires, or within the
  minimal delay of 100 microseconds: no timer waits for a wake-up that was never requested.
\<close>

theorem timers_always_armed:
  assumes "malloc_ok malloc" and "\<forall>op \<in> set ops. op_ok op" and "\<forall>cb q. \<forall>act \<in> set (calls cb q). act_ok act"
  shows "safe {SignedOverflow, OutOfMemory} (\<lambda>q. tq_inv {} q \<and> armed_ok q)
    (for_r ops (run_op malloc calls) new_TimerQueue)"
proof -
  let ?I = "\<lambda>q. tq_inv {} q \<and> armed_ok q \<and> times_ok (heap q)"
  have "safe timer_faults ?I (for_r ops (run_op malloc calls) new_TimerQueue)"
  proof (rule safe_for [where P = "\<lambda>_. ?I"])
    show "?I new_TimerQueue"
      using new_TimerQueue_inv by (simp add: new_TimerQueue_def armed_ok_def times_ok_def)
    fix ys op zs q assume ops: "ops = ys @ op # zs" and I: "?I q"
    then have ok: "op_ok op" using assms(2) by simp
    show "safe timer_faults ?I (run_op malloc calls op q)"
    proof (cases op)
      case (Act act)
      have "safe timer_faults armed_ok (perform malloc act q)" using I assms(1) by (intro perform_armed) auto
      moreover have "safe timer_faults (\<lambda>q'. tq_inv {} q' \<and> times_ok (heap q')) (perform malloc act q)"
        using I ok Act assms(1) by (intro perform_times) auto
      ultimately show ?thesis unfolding Act run_op.simps by (rule safe_weaken [OF safe_conj]) blast
    next
      case (Fire rd str now clk)
      have "safe timer_faults (\<lambda>(ran, q'). armed_ok q' \<and> times_ok (heap q')) (handleRead malloc calls rd (Inr str) now clk q)"
        using I ok Fire assms(1,3) by (intro handleRead_armed) auto
      then have "safe timer_faults (\<lambda>(ran, q'). tq_inv {} q' \<and> armed_ok q' \<and> times_ok (heap q')) (handleRead malloc calls rd (Inr str) now clk q)"
        by (rule safe_weaken [OF safe_conj [OF handleRead_ok [OF conjunct1 [OF I] assms(1)]]]) auto
      with Fire show ?thesis by (auto intro!: safe_bind)
    qed
  qed
  then show ?thesis by (rule safe_weaken) blast
qed

theorem timers_always_armed_witness:
  "safe {SignedOverflow, OutOfMemory} (\<lambda>q. tq_inv {} q \<and> armed_ok q)
    (for_r [Act (Add 7 (TimeStamp 1000) \<lparr>positive = True, in_micros = 500\<rparr> (TimeStamp 900)),
        Fire \<lparr>got = 8, howmany = 1\<rparr> ''0.001100'' (TimeStamp 1100) (TimeStamp 1300)]
      (run_op sample_malloc (\<lambda>_ _. [Cancel (16, 1)])) new_TimerQueue)"
  by (rule timers_always_armed [OF sample_malloc_ok]) (simp_all add: valid_def)

text \<open>
  C36 (bounds). The value given to \<^verbatim>\<open>timerfd_settime\<close> is one it accepts (no negative seconds,
  nanoseconds below a full second) and is never the zero that would disarm the descriptor: it is
  the time until the expiration, at least 100 microseconds.
\<close>

theorem howMuchTimeFromNow_bounds:
  "safe {SignedOverflow}
    (\<lambda>ts. 0 \<le> tv_sec ts \<and> 0 \<le> tv_nsec ts \<and> tv_nsec ts < 1000000000 \<and>
      tv_sec ts * 1000000000 + tv_nsec ts =
        1000 * max 100 (microSecondsSinceUnixEpoch when - microSecondsSinceUnixEpoch clk))
    (howMuchTimeFromNow clk when)"
proof (cases "howMuchTimeFromNow clk when")
  case (Inl e)
  then show ?thesis by (auto simp: howMuchTimeFromNow_def int64_def Let_def split: if_splits)
next
  case (Inr ts)
  note v = howMuchTimeFromNow_value [OF Inr]
  have "1000 * (tv_nsec ts div 1000) = tv_nsec ts" using v(5) by (metis add.right_neutral mult_div_mod_eq)
  then have "1000 * micros ts = tv_sec ts * 1000000000 + tv_nsec ts" unfolding micros_def distrib_left by simp
  with v Inr show ?thesis by simp
qed

text \<open>
  \<^verbatim>\<open>addTimer\<close> reads \<^verbatim>\<open>timer->sequence()\<close> after it handed the timer to the loop. When the
  caller is another thread and the loop adds and runs a one-shot timer that is already due
  before that, the caller reads a freed timer.
\<close>

theorem addTimer_race:
  assumes "tq_inv {} q" and "malloc_ok malloc"
    and "new_Timer malloc cb when itv q = Inr (a, q1)" and "\<not> positive itv"
    and "addTimerInLoop clk1 a q1 = Inr q2"
    and "when \<le> now" and "handleRead malloc calls rd stale now clk2 q2 = Inr (called, q3)"
  shows "get_timer a q3 = Inl UseAfterFree"
proof -
  note n = new_Timer_ok [OF assms(1-3)]
  then obtain t where t: "heap q1 a = Some t" "expiration t = when" "\<not> repeat t" using assms(4) by auto
  have q2: "tq_inv {} q2" "heap q2 a = Some t" "a \<in> live q2"
    using addTimerInLoop_ok [of "{a}" q1 a t clk1] n t assms(5) by auto
  then have "(when, a) \<in> set (timers q2)" using mem_timers [OF q2(1,2)] t(2) by simp
  from handleRead_entry(3) [OF q2(1) assms(2) this assms(6) q2(2) assms(7)] t(3)
  show ?thesis by (simp add: get_timer_def kept_def)
qed

theorem addTimer_race_witness:
  "\<exists>q1 q2 q3. new_Timer sample_malloc 7 (TimeStamp 500) \<lparr>positive = False, in_micros = 0\<rparr> new_TimerQueue = Inr (16, q1) \<and>
    addTimerInLoop (TimeStamp 600) 16 q1 = Inr q2 \<and>
    handleRead sample_malloc (\<lambda>_ _. []) \<lparr>got = 8, howmany = 1\<rparr> (Inr []) (TimeStamp 700) (TimeStamp 700) q2 = Inr ([(7, [])], q3) \<and>
    get_timer 16 q3 = Inl UseAfterFree"
proof -
  let ?itv = "\<lparr>positive = False, in_micros = 0\<rparr>"
  let ?t = "\<lparr>callback = 7, expiration = TimeStamp 500, interval = ?itv, repeat = False, sequence = 1\<rparr>"
  let ?q1 = "new_TimerQueue\<lparr>heap := [16 \<mapsto> ?t], numCreated := 1\<rparr>"
  have n: "new_Timer sample_malloc 7 (TimeStamp 500) ?itv new_TimerQueue = Inr (16, ?q1)"
    by (simp add: new_Timer_def sample_malloc_def new_TimerQueue_def int64_def int64_range_def)
  obtain ts where a: "addTimerInLoop (TimeStamp 600) 16 ?q1 =
      Inr (?q1\<lparr>timers := [(TimeStamp 500, 16)], activeTimers := [(16, 1)], armed := Some (TimeStamp 600, ts)\<rparr>)"
    by (simp add: addTimerInLoop_def insert_timer_def get_timer_def new_TimerQueue_def set_insert_def insort_insert_key_def
        resetTimerfd_def howMuchTimeFromNow_def int64_def int64_range_def)
  let ?q2 = "?q1\<lparr>timers := [(TimeStamp 500, 16)], activeTimers := [(16, 1)], armed := Some (TimeStamp 600, ts)\<rparr>"
  have r: "\<exists>lines. readTimerfd \<lparr>got = 8, howmany = 1\<rparr> (Inr []) ?q2 = Inr (lines, ?q2\<lparr>armed := None\<rparr>)"
    by (simp add: readTimerfd_def)
  have e: "getExpired (TimeStamp 700) (?q2\<lparr>armed := None\<rparr>) = Inr ([(TimeStamp 500, 16)], ?q1\<lparr>armed := None\<rparr>)"
    by (simp add: getExpired_def lower_bound_def new_TimerQueue_def less_TimeStamp_micros
        deactivate_def set_erase_def get_timer_def)
  obtain q3 where h: "handleRead sample_malloc (\<lambda>_ _. []) \<lparr>got = 8, howmany = 1\<rparr> (Inr []) (TimeStamp 700) (TimeStamp 700) ?q2 = Inr ([(7, [])], q3)"
    unfolding handleRead_def using r e
    by (auto simp: run_timer_def get_timer_def new_TimerQueue_def reset_def reset_one_def delete_timer_def valid_def)
  have "get_timer 16 q3 = Inl UseAfterFree"
    by (rule addTimer_race [OF new_TimerQueue_inv sample_malloc_ok n _ a _ h]) (simp_all add: less_eq_TimeStamp_micros)
  with n a h show ?thesis by blast
qed

lemma delete_all:
  "distinct (map snd es) \<Longrightarrow> snd ` set es \<subseteq> dom (heap q) \<Longrightarrow>
    for_r es (\<lambda>e. delete_timer (snd e)) q = Inr (q\<lparr>heap := heap q |` (- snd ` set es)\<rparr>)"
proof (induction es arbitrary: q)
  case (Cons e es)
  then obtain t where t: "heap q (snd e) = Some t" by auto
  have "snd ` set es \<subseteq> dom (heap q)" "snd e \<notin> snd ` set es" using Cons.prems by simp_all
  then have "snd ` set es \<subseteq> dom ((heap q)(snd e := None))" by (simp add: subset_Diff_insert)
  then have sub: "snd ` set es \<subseteq> dom (heap (q\<lparr>heap := (heap q)(snd e := None)\<rparr>))" by simp
  have "distinct (map snd es)" using Cons.prems(1) by simp
  from Cons.IH [OF this sub] have "for_r es (\<lambda>e. delete_timer (snd e)) (q\<lparr>heap := (heap q)(snd e := None)\<rparr>)
      = Inr (q\<lparr>heap := ((heap q)(snd e := None)) |` (- snd ` set es)\<rparr>)" by (simp del: fun_upd_apply)
  moreover have "((heap q)(snd e := None)) |` (- snd ` set es) = heap q |` (- snd ` set (e # es))"
    by (auto simp: restrict_map_def)
  moreover have "delete_timer (snd e) q = Inr (q\<lparr>heap := (heap q)(snd e := None)\<rparr>)" using t by (simp add: delete_timer_def)
  ultimately show ?case by (simp only: for_r.simps bind_r_simps)
qed (simp add: restrict_map_def)

text \<open>
  The destructor frees every timer once: on a queue that owns all timers of the heap it
  succeeds and leaves none.
\<close>

theorem destroy_frees:
  assumes "tq_inv {} q"
  shows "\<exists>q'. destroy_TimerQueue q = Inr q' \<and> heap q' = Map.empty"
proof -
  have "snd ` set (timers q) = dom (heap q)" using tq_dom [OF assms] by (simp add: live_def)
  moreover from this have "heap q |` (- snd ` set (timers q)) = Map.empty" by (auto simp: restrict_map_def)
  ultimately show ?thesis
    using delete_all [of "timers q" q] tq_distinct [OF assms] by (simp add: destroy_TimerQueue_def)
qed

theorem destroy_frees_witness: "\<exists>q'. destroy_TimerQueue sample_queue = Inr q' \<and> heap q' = Map.empty"
  by (rule destroy_frees [OF sample_queue_inv])

end
