(* ===== verification/Event_Loop.thy ===== *)
theory Event_Loop
  imports Channel_Registry Timer_Queue Sync
begin

text \<open>
  \<^verbatim>\<open>net/EventLoop.h\<close> and \<^verbatim>\<open>net/EventLoop.cpp\<close>: the loop's life, its queue of functors and its wakeup
  descriptor. Other threads hand functors to the loop and wake it up; the loop thread alternates
  between \<^verbatim>\<open>poll\<close>, the handlers of the active channels (\<open>loop_events\<close> of \<open>Channel_Poller\<close>) and the functors.
  The interleavings are a step relation; the two things a queue of functors owes its
  clients, order and no lost wakeup, are invariants of it.
\<close>

section \<open>State and operations\<close>

text \<open>
  Functors are numbers; \<open>acts f\<close> is what the functor \<open>f\<close> does to the loop, and so is a
  handler's list of actions. \<open>wakeups\<close> is the counter of the eventfd. \<open>wakers\<close> counts the threads that have pushed a functor or set
  \<^verbatim>\<open>quit_\<close> and are about to call \<^verbatim>\<open>wakeup\<close>, since the mutex is released in between. \<open>queued\<close>, \<open>executed\<close> and \<open>quits\<close> record the
  history: the functors given to \<^verbatim>\<open>queueInLoop\<close>, those called, and the calls of \<^verbatim>\<open>quit\<close>; \<open>run_quits\<close> counts the calls of \<^verbatim>\<open>quit\<close> since \<^verbatim>\<open>loop\<close> was last
  entered, and \<open>early\<close> the functors the loop thread itself queued outside \<^verbatim>\<open>loop\<close> since the queue was last emptied.
\<close>

datatype loop_pc = NotStarted | Top | Polling | Handling | Draining "nat list" | Exited

datatype loop_act = QueueAct nat | QuitAct

record EventLoop =
  reg :: Loop
  looping :: bool
  quit_flag :: bool
  callingPendingFunctors :: bool
  iteration :: int
  pendingFunctors :: "nat list"
  wakeups :: nat
  el_pc :: loop_pc
  wakers :: nat
  queued :: "nat list"
  executed :: "nat list"
  quits :: nat
  run_quits :: nat
  early :: nat

definition eventfd_max :: nat where
  "eventfd_max = 2 ^ 64 - 2"

text \<open>The counter saturates: a write that does not fit fails, which is only logged.\<close>

definition wakeup :: "EventLoop \<Rightarrow> EventLoop" where
  "wakeup s = (if wakeups s < eventfd_max then s\<lparr>wakeups := Suc (wakeups s)\<rparr> else s)"

definition wakeup_handleRead :: "EventLoop \<Rightarrow> EventLoop" where
  "wakeup_handleRead s = s\<lparr>wakeups := 0\<rparr>"

definition push_functor :: "nat \<Rightarrow> EventLoop \<Rightarrow> EventLoop" where
  "push_functor f s = s\<lparr>pendingFunctors := pendingFunctors s @ [f], queued := queued s @ [f]\<rparr>"

definition queueInLoop :: "bool \<Rightarrow> nat \<Rightarrow> EventLoop \<Rightarrow> EventLoop" where
  "queueInLoop inLoopThread f s =
     (let s1 = push_functor f s
      in if \<not> inLoopThread \<or> callingPendingFunctors s1 then wakeup s1 else s1)"

definition quit :: "bool \<Rightarrow> EventLoop \<Rightarrow> EventLoop" where
  "quit inLoopThread s =
     (let s1 = s\<lparr>quit_flag := True, quits := Suc (quits s), run_quits := Suc (run_quits s)\<rparr>
      in if \<not> inLoopThread then wakeup s1 else s1)"

definition queueSize :: "EventLoop \<Rightarrow> nat" where
  "queueSize s = length (pendingFunctors s)"

text \<open>What the loop thread does in a functor or a handler.\<close>

fun perform_act :: "loop_act \<Rightarrow> EventLoop \<Rightarrow> EventLoop" where
  "perform_act (QueueAct f) s = queueInLoop True f s"
| "perform_act QuitAct s = quit True s"

definition run_functor :: "(nat \<Rightarrow> loop_act list) \<Rightarrow> nat \<Rightarrow> EventLoop \<Rightarrow> EventLoop" where
  "run_functor acts f s = fold perform_act (acts f) s"

definition runInLoop :: "(nat \<Rightarrow> loop_act list) \<Rightarrow> bool \<Rightarrow> nat \<Rightarrow> EventLoop \<Rightarrow> EventLoop" where
  "runInLoop acts inLoopThread f s = (if inLoopThread then run_functor acts f s else queueInLoop False f s)"

text \<open>\<^verbatim>\<open>loop\<close>: entry, loop condition, the return of \<^verbatim>\<open>poll\<close> with the events handled, and the three parts of \<^verbatim>\<open>doPendingFunctors\<close>.\<close>

definition loop_enter :: "EventLoop \<Rightarrow> EventLoop result" where
  "loop_enter s = asserting (\<not> looping s) (Inr (s\<lparr>looping := True, quit_flag := False, run_quits := 0, el_pc := Top\<rparr>))"

definition loop_test :: "EventLoop \<Rightarrow> EventLoop" where
  "loop_test s = (if quit_flag s then s\<lparr>looping := False, el_pc := Exited\<rparr> else s\<lparr>el_pc := Polling\<rparr>)"

definition poll_return :: "handlers \<Rightarrow> (nat \<Rightarrow> bool) \<Rightarrow> poll_out \<Rightarrow> EventLoop \<Rightarrow> EventLoop result" where
  "poll_return h alive out s =
     bind_r (int64 (iteration s + 1)) (\<lambda>n.
     bind_r (loop_events h alive out (reg s)) (\<lambda>l.
       Inr (s\<lparr>reg := l, iteration := n, el_pc := Handling\<rparr>)))"

definition drain_begin :: "EventLoop \<Rightarrow> EventLoop" where
  "drain_begin s = s\<lparr>callingPendingFunctors := True, pendingFunctors := [], el_pc := Draining (pendingFunctors s), early := 0\<rparr>"

definition drain_one :: "(nat \<Rightarrow> loop_act list) \<Rightarrow> nat \<Rightarrow> nat list \<Rightarrow> EventLoop \<Rightarrow> EventLoop" where
  "drain_one acts f fs s = run_functor acts f (s\<lparr>executed := executed s @ [f], el_pc := Draining fs\<rparr>)"

definition drain_end :: "EventLoop \<Rightarrow> EventLoop" where
  "drain_end s = s\<lparr>callingPendingFunctors := False, el_pc := Top\<rparr>"

inductive el_step :: "(nat \<Rightarrow> loop_act list) \<Rightarrow> EventLoop \<Rightarrow> EventLoop \<Rightarrow> bool" for acts where
  other_push: "el_step acts s ((push_functor f s)\<lparr>wakers := Suc (wakers s)\<rparr>)"
| other_quit: "el_step acts s (s\<lparr>quit_flag := True, quits := Suc (quits s), run_quits := Suc (run_quits s), wakers := Suc (wakers s)\<rparr>)"
| other_wakeup: "wakers s = Suc n \<Longrightarrow> el_step acts s (wakeup (s\<lparr>wakers := n\<rparr>))"
| before_queue: "el_pc s = NotStarted \<or> el_pc s = Exited \<Longrightarrow> el_step acts s ((queueInLoop True f s)\<lparr>early := Suc (early s)\<rparr>)"
| enter: "el_pc s = NotStarted \<or> el_pc s = Exited \<Longrightarrow> loop_enter s = Inr s' \<Longrightarrow> el_step acts s s'"
| test_quit: "el_pc s = Top \<Longrightarrow> el_step acts s (loop_test s)"
| poll: "el_pc s = Polling \<Longrightarrow> poll_return h alive out s = Inr s' \<Longrightarrow> el_step acts s s'"
| read_wakeup: "el_pc s = Handling \<Longrightarrow> el_step acts s (wakeup_handleRead s)"
| handler_act: "el_pc s = Handling \<Longrightarrow> el_step acts s (perform_act a s)"
| begin_drain: "el_pc s = Handling \<Longrightarrow> el_step acts s (drain_begin s)"
| run_one: "el_pc s = Draining (f # fs) \<Longrightarrow> el_step acts s (drain_one acts f fs s)"
| end_drain: "el_pc s = Draining [] \<Longrightarrow> el_step acts s (drain_end s)"

section \<open>Construction and destruction\<close>

text \<open>
  The constructor registers the timer channel, at the address \<open>t\<close> with the descriptor \<open>tfd\<close>, and the wakeup channel, at \<open>w\<close> with
  \<open>wfd\<close>. The destructor takes the wakeup channel out of the poller and then destroys the members in the reverse
  order of their declaration.
\<close>

definition make_channel :: "nat \<Rightarrow> int \<Rightarrow> event_kind \<Rightarrow> Loop \<Rightarrow> Loop result" where
  "make_channel a f k l = enableReading a (put_chan a (setCallback k (new_Channel (self l) f)) l)"

definition new_EventLoop :: "nat \<Rightarrow> nat \<Rightarrow> int \<Rightarrow> nat \<Rightarrow> int \<Rightarrow> EventLoop result" where
  "new_EventLoop this t tfd w wfd =
     bind_r (make_channel t tfd ReadEv (new_Loop this)) (\<lambda>l1.
     bind_r (make_channel w wfd ReadEv l1) (\<lambda>l2.
       Inr \<lparr>reg = l2, looping = False, quit_flag = False, callingPendingFunctors = False, iteration = 0,
            pendingFunctors = [], wakeups = 0, el_pc = NotStarted, wakers = 0, queued = [], executed = [], quits = 0,
            run_quits = 0, early = 0\<rparr>))"

definition destroy_EventLoop :: "nat \<Rightarrow> nat \<Rightarrow> EventLoop \<Rightarrow> Loop result" where
  "destroy_EventLoop t w s =
     bind_r (disableAll w (reg s)) (\<lambda>l1.
     bind_r (channel_remove w l1) (\<lambda>l2.
     bind_r (destroy_Channel w l2) (\<lambda>l3.
     bind_r (disableAll t l3) (destroy_Channel t))))"

section \<open>Order of the functors and wakeups\<close>

definition draining :: "EventLoop \<Rightarrow> nat list" where
  "draining s = (case el_pc s of Draining fs \<Rightarrow> fs | _ \<Rightarrow> [])"

definition awake :: "EventLoop \<Rightarrow> bool" where
  "awake s \<longleftrightarrow> 0 < wakeups s \<or> 0 < wakers s"

definition el_inv :: "EventLoop \<Rightarrow> bool" where
  "el_inv s \<longleftrightarrow> queued s = executed s @ draining s @ pendingFunctors s \<and>
     (callingPendingFunctors s \<longleftrightarrow> (\<exists>fs. el_pc s = Draining fs)) \<and>
     (looping s \<longleftrightarrow> el_pc s \<noteq> NotStarted \<and> el_pc s \<noteq> Exited) \<and>
     (early s < length (pendingFunctors s) \<and> el_pc s \<noteq> Handling \<longrightarrow> awake s) \<and>
     (looping s \<and> 0 < run_quits s \<longrightarrow> quit_flag s) \<and>
     (quit_flag s \<and> el_pc s = Polling \<longrightarrow> awake s)"

lemma wakeup_simps [simp]:
  "pendingFunctors (wakeup s) = pendingFunctors s" "queued (wakeup s) = queued s" "executed (wakeup s) = executed s"
  "el_pc (wakeup s) = el_pc s" "callingPendingFunctors (wakeup s) = callingPendingFunctors s" "looping (wakeup s) = looping s"
  "quit_flag (wakeup s) = quit_flag s" "early (wakeup s) = early s" "run_quits (wakeup s) = run_quits s" "draining (wakeup s) = draining s" "0 < wakeups (wakeup s)"
  by (auto simp: wakeup_def draining_def eventfd_max_def)

lemma wakeup_awake [simp]: "awake (wakeup s)"
  by (simp add: awake_def)

lemma perform_keeps:
  assumes inv: "el_inv s" and pc: "el_pc s = Handling \<or> (\<exists>fs. el_pc s = Draining fs)"
  shows "el_inv (perform_act a s) \<and> el_pc (perform_act a s) = el_pc s"
  using assms
  by (cases a) (auto simp: el_inv_def queueInLoop_def push_functor_def quit_def Let_def draining_def awake_def)

lemma run_functor_keeps:
  assumes "el_inv s" and "el_pc s = Draining fs"
  shows "el_inv (run_functor acts f s)"
proof -
  have "el_inv (fold perform_act xs s)" if "el_inv s" "el_pc s = Draining fs" for xs s
    using that
  proof (induction xs arbitrary: s)
    case (Cons x xs)
    have "el_inv (perform_act x s) \<and> el_pc (perform_act x s) = el_pc s" using Cons.prems by (intro perform_keeps) auto
    with Cons show ?case by simp
  qed simp
  with assms show ?thesis by (simp add: run_functor_def)
qed

lemma el_step_keeps:
  assumes inv: "el_inv s" and step: "el_step acts s t"
  shows "el_inv t"
  using step inv
proof cases
  case (other_push f)
  with inv show ?thesis by (auto simp: el_inv_def push_functor_def draining_def awake_def)
next
  case other_quit
  with inv show ?thesis by (auto simp: el_inv_def draining_def awake_def)
next
  case (other_wakeup n)
  with inv show ?thesis by (auto simp: el_inv_def draining_def)
next
  case (before_queue f)
  with inv show ?thesis by (auto simp: el_inv_def queueInLoop_def push_functor_def draining_def Let_def awake_def)
next
  case enter
  from enter(2) have t: "t = s\<lparr>looping := True, quit_flag := False, run_quits := 0, el_pc := Top\<rparr>"
    by (auto simp: loop_enter_def result_simps)
  from enter(1) inv have "queued s = executed s @ pendingFunctors s" "\<not> callingPendingFunctors s"
      "early s < length (pendingFunctors s) \<longrightarrow> awake s"
    by (auto simp: el_inv_def draining_def)
  then show ?thesis unfolding t by (simp add: el_inv_def draining_def awake_def)
next
  case test_quit
  with inv show ?thesis by (auto simp: el_inv_def loop_test_def draining_def awake_def)
next
  case (poll h alive out)
  with inv show ?thesis by (auto simp: el_inv_def poll_return_def draining_def awake_def result_simps)
next
  case read_wakeup
  with inv show ?thesis by (auto simp: el_inv_def wakeup_handleRead_def draining_def awake_def)
next
  case (handler_act a)
  with inv perform_keeps show ?thesis by blast
next
  case begin_drain
  with inv show ?thesis by (auto simp: el_inv_def drain_begin_def draining_def awake_def)
next
  case (run_one f fs)
  have "el_inv (s\<lparr>executed := executed s @ [f], el_pc := Draining fs\<rparr>)"
    using inv run_one(2) by (auto simp: el_inv_def draining_def awake_def)
  with run_one show ?thesis by (auto simp: drain_one_def intro: run_functor_keeps)
next
  case end_drain
  with inv show ?thesis by (auto simp: el_inv_def drain_end_def draining_def awake_def)
qed

interpretation el: invariant_system "el_step acts" el_inv for acts
  by unfold_locales (rule el_step_keeps)

lemma make_channel_ok:
  assumes "poller_inv l" and "chans l a = None" and "0 \<le> f" and "map_of (channels l) f = None"
  shows "\<exists>l' i. make_channel a f k l = Inr l' \<and> others_kept a f l l' \<and>
    registered a ((setCallback k (new_Channel (self l) f))\<lparr>events := kReadEvent, addedToLoop := True, index := i\<rparr>) l'"
proof -
  let ?c = "setCallback k (new_Channel (self l) f)"
  let ?l = "put_chan a ?c l"
  have l: "poller_inv ?l" "interest ?l = interest l" using poller_inv_new [OF assms(1,2)] by simp_all
  have c: "chans ?l a = Some ?c" "channels ?l = channels l" "self ?l = self l" by (simp_all add: put_chan_def)
  have ne: "kReadEvent \<noteq> kNoneEvent" by (simp add: kReadEvent_def kNoneEvent_def POLLIN_def POLLPRI_def)
  obtain l' i where l': "update a (\<lambda>e. e OR kReadEvent) ?l = Inr l'"
      "registered a (?c\<lparr>events := kReadEvent, addedToLoop := True, index := i\<rparr>) l'" "others_kept a f ?l l'"
    using registers_new [OF l(1) c(1), of "\<lambda>e. e OR kReadEvent"] c assms(3,4) ne by auto
  have "others_kept a f l l'"
    using l'(3) l(2) assms(2) unfolding others_kept_def by (simp add: put_chan_def same_loop_def)
  with l' show ?thesis by (auto simp: make_channel_def enableReading_def)
qed

text \<open>The registered channels of an idle loop.\<close>

definition loop_ready :: "nat \<Rightarrow> nat \<Rightarrow> Loop \<Rightarrow> bool" where
  "loop_ready t w l \<longleftrightarrow> t \<noteq> w \<and> \<not> handlingEvents l \<and> (\<exists>ct cw. registered t ct l \<and> registered w cw l \<and> fd ct \<noteq> fd cw \<and>
     addedToLoop ct \<and> \<not> eventHandling ct \<and> \<not> eventHandling cw)"

lemma new_EventLoop_ok:
  assumes "t \<noteq> w" and "0 \<le> tfd" and "0 \<le> wfd" and "tfd \<noteq> wfd"
  shows "\<exists>s. new_EventLoop this t tfd w wfd = Inr s \<and> el_inv s \<and> loop_ready t w (reg s) \<and> el_pc s = NotStarted \<and>
    \<not> looping s \<and> wakers s = 0 \<and> wakeups s = 0 \<and> quits s = 0 \<and> pendingFunctors s = [] \<and> iteration s = 0 \<and>
    queued s = [] \<and> executed s = [] \<and> \<not> quit_flag s \<and> \<not> callingPendingFunctors s \<and> early s = 0 \<and> run_quits s = 0"
proof -
  obtain l1 i where l1: "make_channel t tfd ReadEv (new_Loop this) = Inr l1" "others_kept t tfd (new_Loop this) l1"
      "registered t ((setCallback ReadEv (new_Channel this tfd))\<lparr>events := kReadEvent, addedToLoop := True, index := i\<rparr>) l1"
    using make_channel_ok [OF new_Loop_inv, of this t tfd ReadEv] assms by (auto simp: new_Loop_def)
  have w: "chans l1 w = None" "map_of (channels l1) wfd = None" "self l1 = this"
  proof -
    show "map_of (channels l1) wfd = None" "self l1 = this"
      using l1(2) assms(4) by (auto simp: others_kept_def same_loop_def new_Loop_def)
    have "chans l1 w = chans (put_chan t (setCallback ReadEv (new_Channel this tfd)) (new_Loop this)) w"
      using l1(1) assms(1)
      by (auto simp: make_channel_def enableReading_def update_def updateChannel_def poller_updateChannel_def put_chan_def
          new_Loop_def get_chan_def asserting_def Let_def split: if_splits option.splits)
    then show "chans l1 w = None" using assms(1) by (simp add: put_chan_def new_Loop_def)
  qed
  have inv1: "poller_inv l1" using l1(2) by (simp add: others_kept_def)
  obtain l2 j where l2: "make_channel w wfd ReadEv l1 = Inr l2" "others_kept w wfd l1 l2"
      "registered w ((setCallback ReadEv (new_Channel this wfd))\<lparr>events := kReadEvent, addedToLoop := True, index := j\<rparr>) l2"
    using make_channel_ok [OF inv1 w(1) assms(3) w(2), of ReadEv] w(3) by auto
  obtain i' where t2: "registered t ((setCallback ReadEv (new_Channel this tfd))\<lparr>events := kReadEvent, addedToLoop := True, index := i'\<rparr>) l2"
    using cr.other_ok [OF l1(3) l2(2)] assms by auto
  have "\<not> handlingEvents l2" using l1(2) l2(2) by (simp add: others_kept_def same_loop_def new_Loop_def)
  moreover let ?ct = "(setCallback ReadEv (new_Channel this tfd))\<lparr>events := kReadEvent, addedToLoop := True, index := i'\<rparr>"
  let ?cw = "(setCallback ReadEv (new_Channel this wfd))\<lparr>events := kReadEvent, addedToLoop := True, index := j\<rparr>"
  have "fd ?ct \<noteq> fd ?cw" "addedToLoop ?ct" "\<not> eventHandling ?ct" "\<not> eventHandling ?cw"
    using assms(4) by (simp_all add: setCallback_def new_Channel_def)
  ultimately have "loop_ready t w l2" unfolding loop_ready_def using t2 l2(3) assms(1) by blast
  with l1(1) l2(1) show ?thesis by (simp add: new_EventLoop_def el_inv_def draining_def)
qed

text \<open>
  C7 (invariant). On every run of an event loop, with any functors and any interleaving of other threads, the functors handed to
  the loop are executed once each and in the order in which they were queued: what was queued is what was executed, then what
  \<^verbatim>\<open>doPendingFunctors\<close> still holds, then what is pending.
\<close>

theorem functors_in_order:
  assumes "new_EventLoop this t tfd w wfd = Inr s0" and "(el_step acts)\<^sup>*\<^sup>* s0 s"
  shows "queued s = executed s @ draining s @ pendingFunctors s"
proof -
  have "el_inv s0" using assms(1) by (auto simp: new_EventLoop_def result_simps el_inv_def draining_def)
  from el.run_keeps [OF assms(2) this] show ?thesis by (simp add: el_inv_def)
qed

text \<open>A \<^verbatim>\<open>poll\<close> that times out always returns to the loop.\<close>

definition timed_out :: "EventLoop \<Rightarrow> poll_out" where
  "timed_out s = \<lparr>numEvents = 0, reported = replicate (length (pollfds (reg s))) 0\<rparr>"

lemma poll_timeout:
  assumes "0 \<le> iteration s" and "iteration s < 2 ^ 62"
  shows "\<exists>l. poll_return h alive (timed_out s) s = Inr (s\<lparr>reg := l, iteration := iteration s + 1, el_pc := Handling\<rparr>)"
  using assms by (simp add: poll_return_def loop_events_def poller_poll_def int64_def int64_range_def timed_out_def) blast

theorem functors_in_order_witness:
  "\<exists>s0 s. new_EventLoop 1 10 5 11 6 = Inr s0 \<and> (el_step (\<lambda>f. if f = 7 then [QueueAct 8] else []))\<^sup>*\<^sup>* s0 s \<and>
    queued s = [7, 8] \<and> executed s = [7] \<and> pendingFunctors s = [8]"
proof -
  let ?acts = "\<lambda>f::nat. if f = 7 then [QueueAct 8] else []"
  obtain s0 where s0: "new_EventLoop 1 10 5 11 6 = Inr s0" "el_pc s0 = NotStarted" "\<not> looping s0" "pendingFunctors s0 = []"
      "queued s0 = []" "executed s0 = []" "iteration s0 = 0"
    using new_EventLoop_ok [of 10 11 5 6 1] by auto
  let ?a = "(push_functor 7 s0)\<lparr>wakers := Suc (wakers s0)\<rparr>"
  let ?b = "?a\<lparr>looping := True, quit_flag := False, run_quits := 0, el_pc := Top\<rparr>"
  let ?c = "?b\<lparr>el_pc := Polling\<rparr>"
  obtain l where l: "poll_return (\<lambda>a k l. Inr l) (\<lambda>a. True) (timed_out ?c) ?c =
      Inr (?c\<lparr>reg := l, iteration := iteration ?c + 1, el_pc := Handling\<rparr>)"
    using poll_timeout [of ?c] s0(7) by (auto simp: push_functor_def)
  let ?d = "?c\<lparr>reg := l, iteration := iteration ?c + 1, el_pc := Handling\<rparr>"
  let ?e = "drain_begin ?d"
  have "el_step ?acts s0 ?a" by (rule other_push)
  moreover have "el_step ?acts ?a ?b"
    by (rule enter) (use s0 in \<open>simp_all add: loop_enter_def push_functor_def\<close>)
  moreover have "el_step ?acts ?b ?c" using test_quit [of ?b ?acts] by (simp add: loop_test_def)
  moreover have "el_step ?acts ?c ?d" by (rule poll [OF _ l]) simp
  moreover have "el_step ?acts ?d ?e" by (rule begin_drain) simp
  moreover have "el_step ?acts ?e (drain_one ?acts 7 [] ?e)"
    by (rule run_one) (simp add: drain_begin_def push_functor_def s0(4))
  ultimately have run: "(el_step ?acts)\<^sup>*\<^sup>* s0 (drain_one ?acts 7 [] ?e)"
    by (meson converse_rtranclp_into_rtranclp rtranclp.rtrancl_refl)
  have "executed (drain_one ?acts 7 [] ?e) = [7]" "draining (drain_one ?acts 7 [] ?e) = []"
      "pendingFunctors (drain_one ?acts 7 [] ?e) = [8]"
    using s0 by (simp_all add: drain_one_def run_functor_def queueInLoop_def push_functor_def drain_begin_def draining_def)
  with functors_in_order [OF s0(1) run] s0(1) run show ?thesis by auto
qed



text \<open>
  A request to quit can be lost: \<^verbatim>\<open>loop\<close> clears \<^verbatim>\<open>quit_\<close> when it is entered. On some run another
  thread has called \<^verbatim>\<open>quit\<close> once and its wakeup was consumed, and the loop thread is blocked in \<^verbatim>\<open>poll\<close> with the flag down, no
  wakeup coming and nothing to do; a thread that then joins the loop thread, as \<^verbatim>\<open>~EventLoopThread\<close> does, waits for ever.
\<close>

theorem quit_before_loop_lost:
  "\<exists>s0 s. new_EventLoop 1 10 5 11 6 = Inr s0 \<and> (el_step (\<lambda>f. []))\<^sup>*\<^sup>* s0 s \<and> quits s = 1 \<and> el_pc s = Polling \<and>
    \<not> quit_flag s \<and> wakeups s = 0 \<and> wakers s = 0 \<and> pendingFunctors s = []"
proof -
  obtain s0 where s0: "new_EventLoop 1 10 5 11 6 = Inr s0" "el_pc s0 = NotStarted" "\<not> looping s0" "pendingFunctors s0 = []"
      "wakers s0 = 0" "wakeups s0 = 0" "quits s0 = 0" "iteration s0 = 0"
    using new_EventLoop_ok [of 10 11 5 6 1] by auto
  let ?q = "s0\<lparr>quit_flag := True, quits := Suc (quits s0), run_quits := Suc (run_quits s0), wakers := Suc (wakers s0)\<rparr>"
  let ?a = "s0\<lparr>quit_flag := True, quits := Suc (quits s0), run_quits := Suc (run_quits s0), wakers := 0, wakeups := 1\<rparr>"
  let ?b = "?a\<lparr>looping := True, quit_flag := False, run_quits := 0, el_pc := Top\<rparr>"
  let ?c = "?b\<lparr>el_pc := Polling\<rparr>"
  obtain l where l: "poll_return (\<lambda>a k l. Inr l) (\<lambda>a. True) (timed_out ?c) ?c =
      Inr (?c\<lparr>reg := l, iteration := iteration ?c + 1, el_pc := Handling\<rparr>)"
    using poll_timeout [of ?c] s0(8) by auto
  let ?d = "?c\<lparr>reg := l, iteration := iteration ?c + 1, el_pc := Handling\<rparr>"
  let ?e = "wakeup_handleRead ?d"
  let ?f = "drain_end (drain_begin ?e)"
  have "el_step (\<lambda>f. []) s0 ?q" by (rule other_quit)
  moreover have "el_step (\<lambda>f. []) ?q ?a"
    using other_wakeup [of ?q 0 "\<lambda>f. []"] s0 by (simp add: wakeup_def eventfd_max_def)
  moreover have "el_step (\<lambda>f. []) ?a ?b" by (rule enter) (use s0 in \<open>simp_all add: loop_enter_def\<close>)
  moreover have "el_step (\<lambda>f. []) ?b ?c" using test_quit [of ?b] by (simp add: loop_test_def)
  moreover have "el_step (\<lambda>f. []) ?c ?d" by (rule poll [OF _ l]) simp
  moreover have "el_step (\<lambda>f. []) ?d ?e" by (rule read_wakeup) simp
  moreover have "el_step (\<lambda>f. []) ?e (drain_begin ?e)" by (rule begin_drain) (simp add: wakeup_handleRead_def)
  moreover have "el_step (\<lambda>f. []) (drain_begin ?e) ?f"
    by (rule end_drain) (simp add: drain_begin_def wakeup_handleRead_def s0(4))
  moreover have "el_step (\<lambda>f. []) ?f (loop_test ?f)" by (rule test_quit) (simp add: drain_end_def)
  ultimately have run: "(el_step (\<lambda>f. []))\<^sup>*\<^sup>* s0 (loop_test ?f)"
    by (meson converse_rtranclp_into_rtranclp rtranclp.rtrancl_refl)
  moreover have "quits (loop_test ?f) = 1 \<and> el_pc (loop_test ?f) = Polling \<and> \<not> quit_flag (loop_test ?f) \<and>
      wakeups (loop_test ?f) = 0 \<and> wakers (loop_test ?f) = 0 \<and> pendingFunctors (loop_test ?f) = []"
    using s0 by (simp add: loop_test_def drain_end_def drain_begin_def wakeup_handleRead_def)
  ultimately show ?thesis using s0(1) by blast
qed

text \<open>
  The destructor of an event loop fails an assert whenever the loop is idle with its two channels registered, as
  every loop is after construction: the timer queue disables its channel and does not remove it, so the destructor of that
  channel finds it still in the loop.
\<close>

theorem destroy_EventLoop_asserts:
  assumes "loop_ready t w (reg s)"
  shows "destroy_EventLoop t w s = Inl AssertFail"
proof -
  let ?l = "reg s"
  obtain ct cw where c: "registered t ct ?l" "registered w cw ?l" "fd ct \<noteq> fd cw" "addedToLoop ct" "\<not> eventHandling ct"
      "\<not> eventHandling cw" "t \<noteq> w" "\<not> handlingEvents ?l"
    using assms by (auto simp: loop_ready_def)
  obtain l1 l2 where l1: "disableAll w ?l = Inr l1" "others_kept w (fd cw) ?l l1"
      and l2: "channel_remove w l1 = Inr l2" "others_kept w (fd cw) l1 l2"
      and l3: "destroy_Channel w l2 = Inr (l2\<lparr>chans := (chans l2)(w := None)\<rparr>)" "poller_inv (l2\<lparr>chans := (chans l2)(w := None)\<rparr>)"
    using dismantle_registered [OF c(2,8,6)] by blast
  obtain j where t1: "registered t (ct\<lparr>index := j\<rparr>) l1" using cr.other_ok [OF c(1) l1(2)] c(3,7) by auto
  obtain j' where t2: "registered t (ct\<lparr>index := j'\<rparr>) l2" using cr.other_ok [OF t1 l2(2)] c(3,7) by auto
  let ?l3 = "l2\<lparr>chans := (chans l2)(w := None)\<rparr>"
  have ct3: "chans ?l3 t = Some (ct\<lparr>index := j'\<rparr>)" "map_of (channels ?l3) (fd ct) = Some t" "0 \<le> j'"
    using registered_simps [OF t2] c(7) by simp_all
  obtain l4 k where l4: "disableAll t ?l3 = Inr l4" "chans l4 t = Some (ct\<lparr>events := kNoneEvent, addedToLoop := True, index := k\<rparr>)"
    using update_ok [OF l3(2) ct3(1), of "\<lambda>_. kNoneEvent"] registered_simps [OF t2] ct3 by (auto simp: disableAll_def)
  then have "destroy_Channel t l4 = Inl AssertFail" using c(5) by (simp add: destroy_Channel_def)
  with l1(1) l2(1) l3(1) l4(1) show ?thesis by (simp add: destroy_EventLoop_def)
qed

theorem destroy_EventLoop_asserts_witness:
  "\<exists>s. new_EventLoop 1 10 5 11 6 = Inr s \<and> destroy_EventLoop 10 11 s = Inl AssertFail"
  using new_EventLoop_ok [of 10 11 5 6 1] destroy_EventLoop_asserts [of 10 11] by auto

end
