(* ===== verification/Loop_Threads.thy ===== *)
theory Loop_Threads
  imports Event_Loop
begin

text \<open>
  \<^verbatim>\<open>net/EventLoopThread.h\<close>, \<^verbatim>\<open>net/EventLoopThread.cpp\<close>, \<^verbatim>\<open>net/EventLoopThreadPool.h\<close> and
  \<^verbatim>\<open>net/EventLoopThreadPool.cpp\<close>: threads that run one event loop each, and the pool that hands
  their loops out in turn.
\<close>

section \<open>EventLoopThread\<close>

text \<open>
  The new thread constructs its loop and runs the initial callback, publishes the loop, runs it and
  withdraws it. \<open>starter\<close> is the thread in \<^verbatim>\<open>startLoop\<close>, which tests the published pointer with the mutex
  held and sleeps while it is null. \<open>loop_address\<close> is the address of the loop on the new thread's stack.
\<close>

datatype thread_pc = Unstarted | Initialising | Publishing | Running | Finished

datatype starter_pc = StarterIdle | Testing | Sleeping | Returned nat

record EventLoopThread =
  loop_address :: nat
  loop_ptr :: "nat option"
  exiting :: bool
  thread_at :: thread_pc
  starter :: starter_pc

definition new_EventLoopThread :: "nat \<Rightarrow> EventLoopThread" where
  "new_EventLoopThread addr = \<lparr>loop_address = addr, loop_ptr = None, exiting = False, thread_at = Unstarted, starter = StarterIdle\<rparr>"

definition startLoop_begin :: "EventLoopThread \<Rightarrow> EventLoopThread" where
  "startLoop_begin e = e\<lparr>thread_at := Initialising, starter := Testing\<rparr>"

definition startLoop_test :: "EventLoopThread \<Rightarrow> EventLoopThread" where
  "startLoop_test e = e\<lparr>starter := (case loop_ptr e of None \<Rightarrow> Sleeping | Some l \<Rightarrow> Returned l)\<rparr>"

definition threadFunc_init :: "EventLoopThread \<Rightarrow> EventLoopThread" where
  "threadFunc_init e = e\<lparr>thread_at := Publishing\<rparr>"

definition threadFunc_publish :: "EventLoopThread \<Rightarrow> EventLoopThread" where
  "threadFunc_publish e = e\<lparr>thread_at := Running, loop_ptr := Some (loop_address e),
     starter := (if starter e = Sleeping then Testing else starter e)\<rparr>"

definition threadFunc_end :: "EventLoopThread \<Rightarrow> EventLoopThread" where
  "threadFunc_end e = e\<lparr>thread_at := Finished, loop_ptr := None\<rparr>"

text \<open>
  The destructor quits the loop, which \<open>quits\<close> tells, and joins the thread if the loop is published. Otherwise the member \<^verbatim>\<open>thread_\<close> is
  destroyed as it is, and the destructor of a joinable \<^verbatim>\<open>std::thread\<close> terminates the program.
\<close>

definition destroy_EventLoopThread :: "EventLoopThread \<Rightarrow> bool result" where
  "destroy_EventLoopThread e =
     (if loop_ptr e \<noteq> None then Inr True
      else if thread_at e = Unstarted then Inr False else Inl Terminated)"

inductive elt_step :: "EventLoopThread \<Rightarrow> EventLoopThread \<Rightarrow> bool" where
  start: "thread_at e = Unstarted \<Longrightarrow> elt_step e (startLoop_begin e)"
| test: "starter e = Testing \<Longrightarrow> elt_step e (startLoop_test e)"
| spurious: "starter e = Sleeping \<Longrightarrow> elt_step e (e\<lparr>starter := Testing\<rparr>)"
| init: "thread_at e = Initialising \<Longrightarrow> elt_step e (threadFunc_init e)"
| publish: "thread_at e = Publishing \<Longrightarrow> elt_step e (threadFunc_publish e)"
| finish: "thread_at e = Running \<Longrightarrow> elt_step e (threadFunc_end e)"

definition elt_inv :: "nat \<Rightarrow> EventLoopThread \<Rightarrow> bool" where
  "elt_inv addr e \<longleftrightarrow> loop_address e = addr \<and> loop_ptr e = (if thread_at e = Running then Some addr else None) \<and>
     (starter e = Sleeping \<longrightarrow> thread_at e \<noteq> Running) \<and> (thread_at e = Unstarted \<longrightarrow> starter e = StarterIdle) \<and>
     (\<forall>l. starter e = Returned l \<longrightarrow> l = addr \<and> (thread_at e = Running \<or> thread_at e = Finished))"

interpretation elt: invariant_system elt_step "elt_inv addr" for addr
proof
  fix e e'
  assume "elt_inv addr e" and "elt_step e e'"
  from this(2,1) show "elt_inv addr e'"
    by cases (auto simp: elt_inv_def startLoop_begin_def startLoop_test_def threadFunc_init_def threadFunc_publish_def
        threadFunc_end_def split: if_splits)
qed

text \<open>
  C31 (safety). \<^verbatim>\<open>startLoop\<close> returns the address of the new thread's loop and only after that loop was published; it never
  sleeps while the loop is published, so the notification cannot be missed. The destructor joins a thread whose loop is running,
  but a thread whose loop has ended is not joined, and destroying it terminates the program.
\<close>

theorem startLoop_sound:
  assumes "elt_step\<^sup>*\<^sup>* (new_EventLoopThread addr) e"
  shows "(\<forall>l. starter e = Returned l \<longrightarrow> l = addr \<and> (thread_at e = Running \<or> thread_at e = Finished)) \<and>
    (thread_at e = Running \<longrightarrow> starter e \<noteq> Sleeping \<and> loop_ptr e = Some addr \<and> destroy_EventLoopThread e = Inr True) \<and>
    (thread_at e = Finished \<longrightarrow> destroy_EventLoopThread e = Inl Terminated)"
  using assms
  by (rule elt.run_fact [where addr = addr]) (auto simp: elt_inv_def new_EventLoopThread_def destroy_EventLoopThread_def)

theorem startLoop_sound_witness:
  "\<exists>e. elt_step\<^sup>*\<^sup>* (new_EventLoopThread 9) e \<and> starter e = Returned 9 \<and> loop_ptr e = Some 9 \<and>
    destroy_EventLoopThread e = Inr True"
proof -
  let ?a = "startLoop_begin (new_EventLoopThread 9)"
  let ?b = "startLoop_test ?a"
  let ?c = "threadFunc_init ?b"
  let ?d = "threadFunc_publish ?c"
  note defs = startLoop_begin_def startLoop_test_def threadFunc_init_def threadFunc_publish_def new_EventLoopThread_def
  have "elt_step (new_EventLoopThread 9) ?a" by (rule start) (simp add: defs)
  moreover have "elt_step ?a ?b" by (rule test) (simp add: defs)
  moreover have "elt_step ?b ?c" by (rule init) (simp add: defs)
  moreover have "elt_step ?c ?d" by (rule publish) (simp add: defs)
  moreover have "elt_step ?d (startLoop_test ?d)" by (rule test) (simp add: defs)
  ultimately have run: "elt_step\<^sup>*\<^sup>* (new_EventLoopThread 9) (startLoop_test ?d)"
    by (meson converse_rtranclp_into_rtranclp rtranclp.rtrancl_refl)
  have "starter (startLoop_test ?d) = Returned 9" "thread_at (startLoop_test ?d) = Running" by (simp_all add: defs)
  with startLoop_sound [OF run] run show ?thesis by blast
qed

section \<open>EventLoopThreadPool\<close>

text \<open>
  Loops are addresses. \<open>loop_at i\<close> is what \<^verbatim>\<open>startLoop\<close> of the thread number \<open>i\<close> returns. \<open>inits\<close> records the loops the
  initial callback was called with by the pool itself.
\<close>

record EventLoopThreadPool =
  baseLoop :: nat
  pool_name :: string
  started :: bool
  numThreads :: int
  next_index :: int
  pool_threads :: "string list"
  loops :: "nat list"
  inits :: "nat list"

definition new_EventLoopThreadPool :: "nat \<Rightarrow> string \<Rightarrow> EventLoopThreadPool" where
  "new_EventLoopThreadPool base nm =
     \<lparr>baseLoop = base, pool_name = nm, started = False, numThreads = 0, next_index = 0, pool_threads = [], loops = [], inits = []\<rparr>"

definition setThreadNum :: "int \<Rightarrow> EventLoopThreadPool \<Rightarrow> EventLoopThreadPool" where
  "setThreadNum n p = p\<lparr>numThreads := n\<rparr>"

definition start_thread :: "(nat \<Rightarrow> nat) \<Rightarrow> nat \<Rightarrow> EventLoopThreadPool \<Rightarrow> EventLoopThreadPool" where
  "start_thread loop_at i p =
     p\<lparr>pool_threads := pool_threads p @ [snprintf (length (pool_name p) + 32) (pool_name p @ show_int (int i))],
       loops := loops p @ [loop_at i]\<rparr>"

definition pool_start :: "(nat \<Rightarrow> nat) \<Rightarrow> bool \<Rightarrow> EventLoopThreadPool \<Rightarrow> EventLoopThreadPool result" where
  "pool_start loop_at has_cb p =
     asserting (\<not> started p)
       (let p1 = fold (start_thread loop_at) [0..<nat (numThreads p)] (p\<lparr>started := True\<rparr>)
        in Inr (if numThreads p = 0 \<and> has_cb then p1\<lparr>inits := inits p1 @ [baseLoop p]\<rparr> else p1))"

definition getNextLoop :: "EventLoopThreadPool \<Rightarrow> (nat \<times> EventLoopThreadPool) result" where
  "getNextLoop p =
     asserting (started p)
       (if loops p \<noteq> [] then
          if 0 \<le> next_index p \<and> nat (next_index p) < length (loops p) then
            Inr (loops p ! nat (next_index p), p\<lparr>next_index := (next_index p + 1) mod int (length (loops p))\<rparr>)
          else Inl OutOfBounds
        else Inr (baseLoop p, p))"

definition getAllLoops :: "EventLoopThreadPool \<Rightarrow> nat list result" where
  "getAllLoops p = asserting (started p) (Inr (if loops p = [] then [baseLoop p] else loops p))"

text \<open>The loops that \<open>k\<close> calls of \<^verbatim>\<open>getNextLoop\<close> hand out.\<close>

fun next_loops :: "nat \<Rightarrow> EventLoopThreadPool \<Rightarrow> nat list result" where
  "next_loops 0 p = Inr []"
| "next_loops (Suc k) p = bind_r (getNextLoop p) (\<lambda>(l, p'). bind_r (next_loops k p') (\<lambda>ls. Inr (l # ls)))"

lemma start_threads:
  "fold (start_thread loop_at) is p =
     p\<lparr>pool_threads := pool_threads p @ map (\<lambda>i. snprintf (length (pool_name p) + 32) (pool_name p @ show_int (int i))) is,
       loops := loops p @ map loop_at is\<rparr>"
  by (induction "is" arbitrary: p) (simp_all add: start_thread_def)

lemma next_loops_turn:
  assumes "started p" and "loops p \<noteq> []" and "next_index p = int (m mod length (loops p))"
  shows "next_loops k p = Inr (map (\<lambda>j. loops p ! ((m + j) mod length (loops p))) [0..<k])"
  using assms
proof (induction k arbitrary: p m)
  case (Suc k)
  let ?n = "length (loops p)" and ?p = "p\<lparr>next_index := (next_index p + 1) mod int (length (loops p))\<rparr>"
  have get: "getNextLoop p = Inr (loops p ! (m mod ?n), ?p)"
    using Suc.prems by (simp add: getNextLoop_def)
  have "(int (m mod ?n) + 1) mod int ?n = int (Suc m mod ?n)"
    by (simp add: zmod_int mod_simps add.commute)
  then have "next_loops k ?p = Inr (map (\<lambda>j. loops p ! ((Suc m + j) mod ?n)) [0..<k])"
    using Suc.IH [of ?p "Suc m"] Suc.prems by simp
  moreover have "[0..<Suc k] = 0 # map Suc [0..<k]" by (simp add: map_Suc_upt upt_conv_Cons)
  ultimately show ?case by (simp add: get o_def del: upt_Suc)
qed simp

text \<open>
  C30 (functional). A pool of \<open>n\<close> threads, once started, hands out their loops in turn: the call number \<open>k\<close> of \<^verbatim>\<open>getNextLoop\<close>
  returns the loop of the thread \<open>k\<close> modulo \<open>n\<close>. Without threads every call returns the base loop, and
  \<^verbatim>\<open>getAllLoops\<close> agrees with what is handed out. Starting a pool twice fails an assert.
\<close>

theorem round_robin:
  assumes "started p = False" and "loops p = []" and "next_index p = 0"
  shows "\<exists>p'. pool_start loop_at has_cb p = Inr p' \<and> pool_start loop_at has_cb p' = Inl AssertFail \<and>
    (if 0 < numThreads p
     then next_loops k p' = Inr (map (\<lambda>j. loop_at (j mod nat (numThreads p))) [0..<k]) \<and>
       getAllLoops p' = Inr (map loop_at [0..<nat (numThreads p)])
     else next_loops k p' = Inr (replicate k (baseLoop p)) \<and> getAllLoops p' = Inr [baseLoop p])"
proof -
  let ?is = "[0..<nat (numThreads p)]"
  obtain p' where p': "pool_start loop_at has_cb p = Inr p'" "started p'" "loops p' = map loop_at ?is" "next_index p' = 0"
      "baseLoop p' = baseLoop p"
    using assms by (auto simp: pool_start_def start_threads Let_def)
  have base: "next_loops k p' = Inr (replicate k (baseLoop p'))" if "loops p' = []"
    using that p'(2) by (induction k) (simp_all add: getNextLoop_def)
  have turn: "next_loops k p' = Inr (map (\<lambda>j. loop_at (j mod nat (numThreads p))) [0..<k])" if "0 < numThreads p"
    using next_loops_turn [of p' 0 k] p' that by simp
  show ?thesis
  proof (cases "0 < numThreads p")
    case True
    with p' turn show ?thesis by (auto simp: getAllLoops_def pool_start_def)
  next
    case False
    with p' base show ?thesis by (auto simp: getAllLoops_def pool_start_def)
  qed
qed

theorem round_robin_witness:
  "\<exists>p'. pool_start (\<lambda>i. 100 + i) False (setThreadNum 3 (new_EventLoopThreadPool 1 ''io'')) = Inr p' \<and>
    next_loops 5 p' = Inr [100, 101, 102, 100, 101] \<and> getAllLoops p' = Inr [100, 101, 102]"
  using round_robin [of "setThreadNum 3 (new_EventLoopThreadPool 1 ''io'')" "\<lambda>i. 100 + i" False 5]
  by (auto simp: setThreadNum_def new_EventLoopThreadPool_def upt_rec)

end
