(* ===== verification/Tcp_Connection.thy ===== *)
theory Tcp_Connection
  imports Buffer Channel_Registry
begin

text \<open>
  \<^verbatim>\<open>net/TcpConnection.h\<close> and \<^verbatim>\<open>net/TcpConnection.cpp\<close>: one connection, with its buffers, its channel in the event loop
  and its state machine. System calls deliver arguments; callbacks are what the user's code does with the
  connection when it is called.
\<close>

section \<open>State\<close>

datatype StateE = kConnecting | kConnected | kDisconnecting | kDisconnected

definition stateToString :: "StateE \<Rightarrow> string" where
  "stateToString s = (case s of kDisconnected \<Rightarrow> ''kDisconnected'' | kConnected \<Rightarrow> ''kConnected''
     | kConnecting \<Rightarrow> ''Connecting'' | kDisconnecting \<Rightarrow> ''kDisconnecting'')"

record TcpConnection =
  conn_name :: string
  conn_chan :: nat
  conn_state :: StateE
  reading :: bool
  inputBuffer :: buffer
  outputBuffer :: buffer
  highWaterMark :: nat
  has_writeComplete :: bool
  has_highWater :: bool

text \<open>Functors the connection has queued in its loop, and the calls of the callbacks.\<close>

datatype conn_task = WriteCompleteTask | HighWaterTask nat | ForceCloseTask | ShutdownTask | DestroyTask
  | SendTask bool bytes | StartReadTask | StopReadTask

datatype conn_call = Up | Down | Message | Closed

text \<open>
  A connection with its surroundings: the loop it is registered with, the functors queued for it, the delayed calls of
  \<^verbatim>\<open>forceClose\<close>, the bytes the kernel has taken, whether the sending side was shut down, the calls made, and
  as history the bytes accepted for sending.
\<close>

record conn_sys =
  conn :: TcpConnection
  cloop :: Loop
  tasks :: "conn_task list"
  delayed :: nat
  wire :: bytes
  shut :: bool
  calls :: "conn_call list"
  accepted :: bytes

definition set_state :: "StateE \<Rightarrow> conn_sys \<Rightarrow> conn_sys" where
  "set_state st s = s\<lparr>conn := (conn s)\<lparr>conn_state := st\<rparr>\<rparr>"

definition queue_task :: "conn_task \<Rightarrow> conn_sys \<Rightarrow> conn_sys" where
  "queue_task t s = s\<lparr>tasks := tasks s @ [t]\<rparr>"

definition on_channel :: "(nat \<Rightarrow> Loop \<Rightarrow> Loop result) \<Rightarrow> conn_sys \<Rightarrow> conn_sys result" where
  "on_channel f s = bind_r (f (conn_chan (conn s)) (cloop s)) (\<lambda>l. Inr (s\<lparr>cloop := l\<rparr>))"

definition channel_of :: "conn_sys \<Rightarrow> Channel result" where
  "channel_of s = get_chan (conn_chan (conn s)) (cloop s)"

definition connected :: "conn_sys \<Rightarrow> bool" where
  "connected s \<longleftrightarrow> conn_state (conn s) = kConnected"

text \<open>The channel at the address \<open>a\<close> for the descriptor \<open>f\<close> gets its four callbacks.\<close>

definition new_TcpConnection :: "string \<Rightarrow> nat \<Rightarrow> int \<Rightarrow> Loop \<Rightarrow> conn_sys result" where
  "new_TcpConnection name a f l =
     bind_r (new_buffer kInitialSize) (\<lambda>b.
       Inr \<lparr>conn = \<lparr>conn_name = name, conn_chan = a, conn_state = kConnecting, reading = True, inputBuffer = b, outputBuffer = b,
              highWaterMark = 64 * 1024 * 1024, has_writeComplete = False, has_highWater = False\<rparr>,
            cloop = put_chan a (setCallback ErrorEv (setCallback CloseEv (setCallback WriteEv (setCallback ReadEv
              (new_Channel (self l) f))))) l,
            tasks = [], delayed = 0, wire = [], shut = False, calls = [], accepted = []\<rparr>)"

definition destroy_TcpConnection :: "conn_sys \<Rightarrow> unit result" where
  "destroy_TcpConnection s = asserting (conn_state (conn s) = kDisconnected) (Inr ())"

definition setWriteCompleteCallback :: "bool \<Rightarrow> conn_sys \<Rightarrow> conn_sys" where
  "setWriteCompleteCallback b s = s\<lparr>conn := (conn s)\<lparr>has_writeComplete := b\<rparr>\<rparr>"

definition setHighWaterMarkCallback :: "bool \<Rightarrow> nat \<Rightarrow> conn_sys \<Rightarrow> conn_sys" where
  "setHighWaterMarkCallback b n s = s\<lparr>conn := (conn s)\<lparr>has_highWater := b, highWaterMark := n\<rparr>\<rparr>"

section \<open>Sending\<close>

text \<open>The answer of \<^verbatim>\<open>write\<close>: a number of bytes, or an error.\<close>

datatype errno = EWOULDBLOCK | EPIPE | ECONNRESET | OtherError

datatype write_out = Wrote nat | WriteFailed errno

definition write_honest :: "write_out \<Rightarrow> nat \<Rightarrow> bool" where
  "write_honest out n \<longleftrightarrow> (case out of Wrote k \<Rightarrow> k \<le> n | WriteFailed e \<Rightarrow> True)"

text \<open>
  The last part of \<^verbatim>\<open>sendInLoop\<close>: \<open>remaining\<close> bytes from the position \<open>nwrote\<close> of the message are put into the output
  buffer. A read past the message is an access out of bounds.
\<close>

definition note_highWater :: "nat \<Rightarrow> conn_sys \<Rightarrow> conn_sys" where
  "note_highWater remaining s =
     (let oldLen = readableBytes (outputBuffer (conn s))
      in if oldLen + remaining \<ge> highWaterMark (conn s) \<and> oldLen < highWaterMark (conn s) \<and> has_highWater (conn s)
         then queue_task (HighWaterTask (oldLen + remaining)) s else s)"

definition buffer_rest :: "bytes \<Rightarrow> nat \<Rightarrow> nat \<Rightarrow> conn_sys \<Rightarrow> conn_sys result" where
  "buffer_rest msg nwrote remaining s =
     (let s1 = note_highWater remaining s
      in if nwrote + remaining \<le> length msg then
           bind_r (append_bytes (block msg nwrote (nwrote + remaining)) (outputBuffer (conn s1))) (\<lambda>b.
           bind_r (channel_of s1) (\<lambda>c.
             let s2 = s1\<lparr>conn := (conn s1)\<lparr>outputBuffer := b\<rparr>\<rparr>
             in if \<not> isWriting c then on_channel enableWriting s2 else Inr s2))
         else Inl OutOfBounds)"

text \<open>\<^verbatim>\<open>nwrote\<close> and \<^verbatim>\<open>remaining\<close> are both the length of the message until a \<^verbatim>\<open>write\<close> changes them.\<close>

definition sendInLoop :: "write_out \<Rightarrow> bytes \<Rightarrow> conn_sys \<Rightarrow> conn_sys result" where
  "sendInLoop out msg s =
     (let len = length msg in
      if conn_state (conn s) = kDisconnected then Inr s
      else bind_r (channel_of s) (\<lambda>c.
        let s0 = s\<lparr>accepted := accepted s @ msg\<rparr> in
        if \<not> isWriting c \<and> readableBytes (outputBuffer (conn s)) = 0 then
          case out of
            Wrote n \<Rightarrow>
              (let s1 = s0\<lparr>wire := wire s @ take n msg\<rparr>;
                   remaining = len - n;
                   s2 = (if remaining = 0 \<and> has_writeComplete (conn s) then queue_task WriteCompleteTask s1 else s1)
               in if 0 < remaining then buffer_rest msg n remaining s2 else Inr s2)
          | WriteFailed e \<Rightarrow>
              if (e = EPIPE \<or> e = ECONNRESET) \<or> len = 0 then Inr s else buffer_rest msg 0 len s0
        else if 0 < len then buffer_rest msg len len s0 else Inr s0))"

text \<open>
  The length of a message is an \<^verbatim>\<open>int\<close>, to which the size of a string or a buffer is converted. \<^verbatim>\<open>sendInLoop\<close> above is the call with a length
  that is not negative, on that many bytes. With a negative one the length given to \<^verbatim>\<open>write\<close> is huge, and what \<^verbatim>\<open>write\<close> takes beyond the message is read out of
  bounds; \<^verbatim>\<open>remaining\<close> is negative, so that nothing is kept and no callback is queued.
\<close>

definition int_of_size :: "nat \<Rightarrow> int" where
  "int_of_size n = sint (word_of_int (int n) :: 32 word)"

definition sendInLoop_negative :: "write_out \<Rightarrow> bytes \<Rightarrow> conn_sys \<Rightarrow> conn_sys result" where
  "sendInLoop_negative out msg s =
     (if conn_state (conn s) = kDisconnected then Inr s
      else bind_r (channel_of s) (\<lambda>c.
        if \<not> isWriting c \<and> readableBytes (outputBuffer (conn s)) = 0 then
          case out of
            Wrote n \<Rightarrow>
              if n \<le> length msg then Inr (s\<lparr>accepted := accepted s @ take n msg, wire := wire s @ take n msg\<rparr>) else Inl OutOfBounds
          | WriteFailed e \<Rightarrow> Inr s
        else Inr s))"

definition sendInLoop_int :: "write_out \<Rightarrow> bytes \<Rightarrow> int \<Rightarrow> conn_sys \<Rightarrow> conn_sys result" where
  "sendInLoop_int out msg n s =
     (if n < 0 then sendInLoop_negative out msg s else sendInLoop out (take (nat n) msg) s)"

definition sendInLoop_string :: "write_out \<Rightarrow> bytes \<Rightarrow> conn_sys \<Rightarrow> conn_sys result" where
  "sendInLoop_string out msg s = sendInLoop_int out msg (int_of_size (length msg)) s"

text \<open>
  \<^verbatim>\<open>send\<close> in the loop's thread and from another one. A message given by a pointer is bound as the pointer: when the functor runs,
  the memory may be gone, which \<open>alive\<close> of \<open>run_task\<close> tells. A message in a buffer is bound as a string that owns its bytes.
\<close>

definition send :: "bool \<Rightarrow> write_out \<Rightarrow> bytes \<Rightarrow> conn_sys \<Rightarrow> conn_sys result" where
  "send inLoopThread out msg s =
     (if conn_state (conn s) = kConnected then
        if inLoopThread then sendInLoop_int out msg (int_of_size (length msg)) s else Inr (queue_task (SendTask False msg) s)
      else Inr s)"

definition send_buffer :: "bool \<Rightarrow> write_out \<Rightarrow> buffer \<Rightarrow> conn_sys \<Rightarrow> (buffer \<times> conn_sys) result" where
  "send_buffer inLoopThread out b s =
     (if conn_state (conn s) = kConnected then
        if inLoopThread then
          bind_r (sendInLoop_int out (block (storage b) (peek b) (peek b + readableBytes b)) (int_of_size (readableBytes b)) s)
            (\<lambda>s'. Inr (retrieveAll b, s'))
        else bind_r (retrieveAllAsString b) (\<lambda>(str, b'). Inr (b', queue_task (SendTask True str) s))
      else Inr (b, s))"

section \<open>Shutting down and closing\<close>

definition shutdownInLoop :: "conn_sys \<Rightarrow> conn_sys result" where
  "shutdownInLoop s = bind_r (channel_of s) (\<lambda>c. Inr (if \<not> isWriting c then s\<lparr>shut := True\<rparr> else s))"

definition shutdown :: "bool \<Rightarrow> conn_sys \<Rightarrow> conn_sys result" where
  "shutdown inLoopThread s =
     (if conn_state (conn s) = kConnected then
        let s1 = set_state kDisconnecting s
        in if inLoopThread then shutdownInLoop s1 else Inr (queue_task ShutdownTask s1)
      else Inr s)"

definition forceClose :: "conn_sys \<Rightarrow> conn_sys" where
  "forceClose s =
     (if conn_state (conn s) = kConnected \<or> conn_state (conn s) = kDisconnecting
      then queue_task ForceCloseTask (set_state kDisconnecting s) else s)"

definition forceCLoseWithDelay :: "conn_sys \<Rightarrow> conn_sys" where
  "forceCLoseWithDelay s =
     (if conn_state (conn s) = kConnected \<or> conn_state (conn s) = kDisconnecting
      then (set_state kDisconnecting s)\<lparr>delayed := Suc (delayed s)\<rparr> else s)"

text \<open>\<^verbatim>\<open>WeakCallback\<close>: the function is called if its object is still alive.\<close>

definition weak_callback :: "bool \<Rightarrow> ('a \<Rightarrow> 'a) \<Rightarrow> 'a \<Rightarrow> 'a" where
  "weak_callback object_alive f x = (if object_alive then f x else x)"

definition startReadInLoop :: "conn_sys \<Rightarrow> conn_sys result" where
  "startReadInLoop s = bind_r (channel_of s) (\<lambda>c.
     if \<not> reading (conn s) \<or> \<not> isReading c
     then bind_r (on_channel enableReading s) (\<lambda>s1. Inr (s1\<lparr>conn := (conn s1)\<lparr>reading := True\<rparr>\<rparr>))
     else Inr s)"

definition stopReadInLoop :: "conn_sys \<Rightarrow> conn_sys result" where
  "stopReadInLoop s = bind_r (channel_of s) (\<lambda>c.
     if reading (conn s) \<or> isReading c
     then bind_r (on_channel disableReading s) (\<lambda>s1. Inr (s1\<lparr>conn := (conn s1)\<lparr>reading := False\<rparr>\<rparr>))
     else Inr s)"

definition startRead :: "bool \<Rightarrow> conn_sys \<Rightarrow> conn_sys result" where
  "startRead inLoopThread s = (if inLoopThread then startReadInLoop s else Inr (queue_task StartReadTask s))"

definition stopRead :: "bool \<Rightarrow> conn_sys \<Rightarrow> conn_sys result" where
  "stopRead inLoopThread s = (if inLoopThread then stopReadInLoop s else Inr (queue_task StopReadTask s))"

section \<open>Callbacks and events\<close>

text \<open>
  A callback runs a list of calls of the connection's interface, from the loop's thread. The user takes no more bytes from the input
  buffer than it holds.
\<close>

datatype conn_act = ActSend write_out bytes | ActShutdown | ActForceClose | ActForceCloseDelay | ActStartRead | ActStopRead
  | ActConsume nat | ActConsumeAll

definition consume :: "nat \<Rightarrow> conn_sys \<Rightarrow> conn_sys result" where
  "consume n s = bind_r (retrieve n (inputBuffer (conn s))) (\<lambda>b. Inr (s\<lparr>conn := (conn s)\<lparr>inputBuffer := b\<rparr>\<rparr>))"

definition consume_all :: "conn_sys \<Rightarrow> conn_sys" where
  "consume_all s = s\<lparr>conn := (conn s)\<lparr>inputBuffer := retrieveAll (inputBuffer (conn s))\<rparr>\<rparr>"

fun perform_conn :: "conn_act \<Rightarrow> conn_sys \<Rightarrow> conn_sys result" where
  "perform_conn (ActSend out msg) s = send True out msg s"
| "perform_conn ActShutdown s = shutdown True s"
| "perform_conn ActForceClose s = Inr (forceClose s)"
| "perform_conn ActForceCloseDelay s = Inr (forceCLoseWithDelay s)"
| "perform_conn ActStartRead s = startRead True s"
| "perform_conn ActStopRead s = stopRead True s"
| "perform_conn (ActConsume n) s = (if n \<le> readableBytes (inputBuffer (conn s)) then consume n s else Inr s)"
| "perform_conn ActConsumeAll s = Inr (consume_all s)"

type_synonym conn_callback = "conn_sys \<Rightarrow> conn_act list"

definition call_back :: "conn_callback \<Rightarrow> conn_call \<Rightarrow> conn_sys \<Rightarrow> conn_sys result" where
  "call_back cb e s = (let s1 = s\<lparr>calls := calls s @ [e]\<rparr> in for_r (cb s1) perform_conn s1)"

definition defaultMessageCallback :: conn_callback where
  "defaultMessageCallback s = [ActConsumeAll]"

definition defaultConnectionCallback :: conn_callback where
  "defaultConnectionCallback s = []"

definition connectEstablished :: "conn_callback \<Rightarrow> conn_sys \<Rightarrow> conn_sys result" where
  "connectEstablished on_conn s =
     asserting (conn_state (conn s) = kConnecting)
       (bind_r (channel_of s) (\<lambda>c.
        let s1 = (set_state kConnected s)\<lparr>cloop := put_chan (conn_chan (conn s)) (set_tie c) (cloop s)\<rparr>
        in bind_r (on_channel enableReading s1) (call_back on_conn Up)))"

text \<open>
  The close callback is \<^verbatim>\<open>TcpServer::removeConnection\<close>, which runs in the same loop: it forgets the connection and queues
  \<^verbatim>\<open>connectDestroyed\<close>.
\<close>

definition closeCallback :: "conn_sys \<Rightarrow> conn_sys" where
  "closeCallback s = queue_task DestroyTask (s\<lparr>calls := calls s @ [Closed]\<rparr>)"

definition handleClose :: "conn_callback \<Rightarrow> conn_sys \<Rightarrow> conn_sys result" where
  "handleClose on_conn s =
     asserting (conn_state (conn s) = kConnected \<or> conn_state (conn s) = kDisconnecting)
       (bind_r (on_channel disableAll (set_state kDisconnected s)) (\<lambda>s1.
        bind_r (call_back on_conn Down s1) (\<lambda>s2. Inr (closeCallback s2))))"

definition connectDestroyed :: "conn_callback \<Rightarrow> conn_sys \<Rightarrow> conn_sys result" where
  "connectDestroyed on_conn s =
     bind_r (if conn_state (conn s) = kConnected
             then bind_r (on_channel disableAll (set_state kDisconnected s)) (call_back on_conn Down)
             else Inr s)
       (on_channel channel_remove)"

definition forceCLoseInLoop :: "conn_callback \<Rightarrow> conn_sys \<Rightarrow> conn_sys result" where
  "forceCLoseInLoop on_conn s =
     (if conn_state (conn s) = kConnected \<or> conn_state (conn s) = kDisconnecting then handleClose on_conn s else Inr s)"

text \<open>
  \<^verbatim>\<open>handleRead\<close>, with the call of \<^verbatim>\<open>messageCallback_\<close> as the argument \<open>deliver\<close> and its result injected by \<open>ret\<close> into the type of results of
  that call.
\<close>

definition on_readable :: "conn_callback \<Rightarrow> (conn_sys result \<Rightarrow> 'r) \<Rightarrow> (conn_sys \<Rightarrow> 'r) \<Rightarrow> io_in \<Rightarrow> conn_sys \<Rightarrow> 'r" where
  "on_readable on_conn ret deliver io s =
     (case readFd io (inputBuffer (conn s)) of
        Inl e \<Rightarrow> ret (Inl e)
      | Inr (n, err, b) \<Rightarrow>
          let s1 = s\<lparr>conn := (conn s)\<lparr>inputBuffer := b\<rparr>\<rparr>
          in if n > 0 then deliver s1
             else if n = 0 then ret (handleClose on_conn s1)
             else ret (Inr s1))"

definition handleRead :: "conn_callback \<Rightarrow> conn_callback \<Rightarrow> io_in \<Rightarrow> conn_sys \<Rightarrow> conn_sys result" where
  "handleRead on_conn on_msg io s = on_readable on_conn (\<lambda>r. r) (call_back on_msg Message) io s"

definition handleWrite :: "write_out \<Rightarrow> conn_sys \<Rightarrow> conn_sys result" where
  "handleWrite out s =
     bind_r (channel_of s) (\<lambda>c.
       if isWriting c then
         case out of
           Wrote n \<Rightarrow>
             if 0 < n then
               bind_r (retrieve n (outputBuffer (conn s))) (\<lambda>b.
                 let d = block (storage (outputBuffer (conn s))) (peek (outputBuffer (conn s))) (peek (outputBuffer (conn s)) + n);
                     s1 = s\<lparr>wire := wire s @ d, conn := (conn s)\<lparr>outputBuffer := b\<rparr>\<rparr>
                 in if readableBytes b = 0 then
                      bind_r (on_channel disableWriting s1) (\<lambda>s2.
                        let s3 = (if has_writeComplete (conn s2) then queue_task WriteCompleteTask s2 else s2)
                        in if conn_state (conn s3) = kDisconnecting then shutdownInLoop s3 else Inr s3)
                    else Inr s1)
             else Inr s
         | WriteFailed e \<Rightarrow> Inr s
       else Inr s)"

text \<open>
  A functor of the connection, when its turn has come in the loop. \<open>alive\<close> tells whether the memory of a message bound by pointer is
  still there.
\<close>

fun run_task :: "conn_callback \<Rightarrow> bool \<Rightarrow> write_out \<Rightarrow> conn_task \<Rightarrow> conn_sys \<Rightarrow> conn_sys result" where
  "run_task on_conn alive out WriteCompleteTask s = Inr s"
| "run_task on_conn alive out (HighWaterTask n) s = Inr s"
| "run_task on_conn alive out ForceCloseTask s = forceCLoseInLoop on_conn s"
| "run_task on_conn alive out ShutdownTask s = shutdownInLoop s"
| "run_task on_conn alive out DestroyTask s = connectDestroyed on_conn s"
| "run_task on_conn alive out (SendTask owned msg) s = (if owned \<or> alive then sendInLoop_string out msg s else Inl UseAfterFree)"
| "run_task on_conn alive out StartReadTask s = startReadInLoop s"
| "run_task on_conn alive out StopReadTask s = stopReadInLoop s"

text \<open>
  Who keeps the connection alive: the server's map until the close callback has been called, and then the functors that are bound to
  \<^verbatim>\<open>shared_from_this()\<close> or to the pointer \<^verbatim>\<open>removeConnection\<close> got. The other functors are bound to the raw \<^verbatim>\<open>this\<close>. Pointers that the user keeps only
  prolong its life and are left out.
\<close>

fun holds_conn :: "conn_task \<Rightarrow> bool" where
  "holds_conn WriteCompleteTask \<longleftrightarrow> True"
| "holds_conn (HighWaterTask n) \<longleftrightarrow> True"
| "holds_conn ForceCloseTask \<longleftrightarrow> True"
| "holds_conn DestroyTask \<longleftrightarrow> True"
| "holds_conn _ \<longleftrightarrow> False"

definition conn_alive :: "conn_sys \<Rightarrow> bool" where
  "conn_alive s \<longleftrightarrow> Closed \<notin> set (calls s) \<or> (\<exists>t \<in> set (tasks s). holds_conn t)"

definition run_next :: "conn_callback \<Rightarrow> bool \<Rightarrow> write_out \<Rightarrow> conn_sys \<Rightarrow> conn_sys result" where
  "run_next on_conn alive out s =
     (case tasks s of
        [] \<Rightarrow> Inr s
      | t # ts \<Rightarrow> if conn_alive s then run_task on_conn alive out t (s\<lparr>tasks := ts\<rparr>) else Inl UseAfterFree)"

section \<open>Masks\<close>

lemma masks [simp]:
  "isWriting (c\<lparr>events := events c OR kWriteEvent, addedToLoop := t, index := i\<rparr>)"
  "\<not> isWriting (c\<lparr>events := events c AND NOT kWriteEvent, addedToLoop := t, index := i\<rparr>)"
  "isWriting (c\<lparr>events := events c OR kReadEvent, addedToLoop := t, index := i\<rparr>) = isWriting c"
  "isWriting (c\<lparr>events := events c AND NOT kReadEvent, addedToLoop := t, index := i\<rparr>) = isWriting c"
proof -
  have w: "(kWriteEvent :: 32 word) \<noteq> 0" "kReadEvent AND kWriteEvent = 0" "NOT kReadEvent AND kWriteEvent = kWriteEvent"
    by (simp_all add: kWriteEvent_def kReadEvent_def POLLIN_def POLLPRI_def POLLOUT_def)
  show "isWriting (c\<lparr>events := events c OR kWriteEvent, addedToLoop := t, index := i\<rparr>)"
    using w(1) by (simp add: isWriting_def word_ao_absorbs)
  show "\<not> isWriting (c\<lparr>events := events c AND NOT kWriteEvent, addedToLoop := t, index := i\<rparr>)"
    by (simp add: isWriting_def and.assoc)
  show "isWriting (c\<lparr>events := events c OR kReadEvent, addedToLoop := t, index := i\<rparr>) = isWriting c"
    using w(2) by (simp add: isWriting_def word_ao_dist)
  show "isWriting (c\<lparr>events := events c AND NOT kReadEvent, addedToLoop := t, index := i\<rparr>) = isWriting c"
    using w(3) by (simp add: isWriting_def and.assoc)
qed

lemma isWriting_not_none: "isWriting c \<Longrightarrow> \<not> isNoneEvent c"
  by (auto simp: isWriting_def isNoneEvent_def kNoneEvent_def)

section \<open>An open connection\<close>

text \<open>
  While the connection is up or going down, its channel is registered and asks for writability exactly while output is
  pending; the bytes the kernel has taken and those pending are the ones accepted; and the sending side
  is shut down only with nothing pending.
\<close>

definition buffers_ok :: "conn_sys \<Rightarrow> bool" where
  "buffers_ok s \<longleftrightarrow> buffer_inv (inputBuffer (conn s)) \<and> buffer_inv (outputBuffer (conn s)) \<and>
     wire s @ contents (outputBuffer (conn s)) = accepted s"

definition destroys :: "conn_sys \<Rightarrow> nat" where
  "destroys s = count_list (tasks s) DestroyTask"

definition lifecycle :: "conn_sys \<Rightarrow> conn_call list" where
  "lifecycle s = filter (\<lambda>e. e \<noteq> Message) (calls s)"

definition open_conn :: "Channel \<Rightarrow> conn_sys \<Rightarrow> bool" where
  "open_conn c s \<longleftrightarrow> buffers_ok s \<and> registered (conn_chan (conn s)) c (cloop s) \<and>
     (isWriting c \<longleftrightarrow> contents (outputBuffer (conn s)) \<noteq> []) \<and> destroys s = 0 \<and> lifecycle s = [Up] \<and>
     (shut s \<longrightarrow> contents (outputBuffer (conn s)) = []) \<and> (ShutdownTask \<in> set (tasks s) \<longrightarrow> conn_state (conn s) = kDisconnecting) \<and>
     (conn_state (conn s) = kConnected \<and> \<not> shut s \<or> conn_state (conn s) = kDisconnecting)"

text \<open>
  A closed connection is registered until \<^verbatim>\<open>connectDestroyed\<close> has run, and no functor of \<^verbatim>\<open>shutdown\<close> or \<^verbatim>\<open>send\<close> is behind that one.
\<close>

definition raw_call :: "conn_task \<Rightarrow> bool" where
  "raw_call t \<longleftrightarrow> t = ShutdownTask \<or> (\<exists>owned msg. t = SendTask owned msg)"

definition after_destroy :: "conn_task list \<Rightarrow> conn_task list" where
  "after_destroy ts = tl (dropWhile (\<lambda>t. t \<noteq> DestroyTask) ts)"

definition closed_conn :: "Channel \<Rightarrow> conn_sys \<Rightarrow> bool" where
  "closed_conn c s \<longleftrightarrow> buffers_ok s \<and> conn_state (conn s) = kDisconnected \<and> lifecycle s = [Up, Down, Closed] \<and>
     isNoneEvent c \<and> chans (cloop s) (conn_chan (conn s)) = Some c \<and>
     (registered (conn_chan (conn s)) c (cloop s) \<and> destroys s = 1 \<and> (\<forall>t \<in> set (after_destroy (tasks s)). \<not> raw_call t) \<or>
      map_of (channels (cloop s)) (fd c) \<noteq> Some (conn_chan (conn s)) \<and> destroys s = 0 \<and> (\<forall>t \<in> set (tasks s). \<not> raw_call t))"

definition conn_ok :: "conn_sys \<Rightarrow> bool" where
  "conn_ok s \<longleftrightarrow> (\<exists>c. open_conn c s \<or> closed_conn c s)"

definition conn_inv :: "conn_sys \<Rightarrow> bool" where
  "conn_inv s \<longleftrightarrow> \<not> handlingEvents (cloop s) \<and> conn_ok s"

lemmas conn_defs = open_conn_def buffers_ok_def destroys_def lifecycle_def

lemma channel_of_registered [simp]: "registered (conn_chan (conn s)) c (cloop s) \<Longrightarrow> channel_of s = Inr c"
  by (simp add: channel_of_def registered_simps(2))

lemma on_channel_update:
  assumes reg: "registered (conn_chan (conn s)) c (cloop s)"
  shows "\<exists>l i. on_channel (\<lambda>a. update a f) s = Inr (s\<lparr>cloop := l\<rparr>) \<and>
    registered (conn_chan (conn s)) (c\<lparr>events := f (events c), addedToLoop := True, index := i\<rparr>) l \<and> same_loop (cloop s) l"
  using cr.upd_ok [OF reg, of f] by (auto simp: on_channel_def others_kept_def)

lemma readable_contents: "buffer_inv b \<Longrightarrow> readableBytes b = 0 \<longleftrightarrow> contents b = []"
  using length_contents by fastforce

text \<open>Putting bytes into the output buffer.\<close>

lemma buffer_rest_ok:
  assumes bufs: "buffer_inv (inputBuffer (conn s))" "buffer_inv (outputBuffer (conn s))"
    and reg: "registered (conn_chan (conn s)) c (cloop s)"
    and st: "conn_state (conn s) = kConnected \<and> \<not> shut s \<or> conn_state (conn s) = kDisconnecting \<and> \<not> shut s"
    and dst: "destroys s = 0" "lifecycle s = [Up]" "ShutdownTask \<in> set (tasks s) \<longrightarrow> conn_state (conn s) = kDisconnecting"
    and rest: "n + k = length msg" "0 < k"
    and sum: "wire s @ contents (outputBuffer (conn s)) @ drop n msg = accepted s"
  shows "\<exists>s' c'. buffer_rest msg n k s = Inr s' \<and> open_conn c' s' \<and> wire s' = wire s \<and> accepted s' = accepted s \<and>
    contents (outputBuffer (conn s')) = contents (outputBuffer (conn s)) @ drop n msg \<and> conn_state (conn s') = conn_state (conn s) \<and>
    isWriting c' \<and> (\<exists>ts. tasks s' = tasks s @ ts \<and> WriteCompleteTask \<notin> set ts)"
proof -
  define s1 where "s1 = note_highWater k s"
  have s1: "conn s1 = conn s" "cloop s1 = cloop s" "wire s1 = wire s" "shut s1 = shut s" "calls s1 = calls s"
      "accepted s1 = accepted s" "destroys s1 = 0" "\<exists>ts. tasks s1 = tasks s @ ts \<and> WriteCompleteTask \<notin> set ts"
      "ShutdownTask \<in> set (tasks s1) \<longrightarrow> conn_state (conn s) = kDisconnecting"
    using dst by (simp_all add: s1_def note_highWater_def Let_def queue_task_def destroys_def)
  have d: "block msg n (n + k) = drop n msg" using rest by (simp add: block_def)
  obtain b where b: "append_bytes (drop n msg) (outputBuffer (conn s)) = Inr b" "buffer_inv b"
      "contents b = contents (outputBuffer (conn s)) @ drop n msg"
    using append_bytes_ok [OF bufs(2)] by blast
  have ne: "contents b \<noteq> []" using b(3) rest by simp
  let ?s2 = "s1\<lparr>conn := (conn s1)\<lparr>outputBuffer := b\<rparr>\<rparr>"
  have run: "buffer_rest msg n k s = (if \<not> isWriting c then on_channel enableWriting ?s2 else Inr ?s2)"
    using rest b(1) d reg s1(1,2) unfolding buffer_rest_def s1_def [symmetric] Let_def
    by (simp add: channel_of_def registered_simps(2) [OF reg])
  have reg2: "registered (conn_chan (conn ?s2)) c (cloop ?s2)" using reg s1 by simp
  have life: "lifecycle ?s2 = [Up]" "destroys ?s2 = 0" using s1 dst by (simp_all add: lifecycle_def destroys_def)
  show ?thesis
  proof (cases "isWriting c")
    case True
    have "open_conn c ?s2"
      using True b ne s1 st reg2 bufs sum life by (auto simp: open_conn_def buffers_ok_def)
    with run True s1 b(3) show ?thesis by auto
  next
    case False
    obtain l i where l: "on_channel enableWriting ?s2 = Inr (?s2\<lparr>cloop := l\<rparr>)" "same_loop (cloop s) l"
        "registered (conn_chan (conn s)) (c\<lparr>events := events c OR kWriteEvent, addedToLoop := True, index := i\<rparr>) l"
      using on_channel_update [OF reg2, of "\<lambda>e. e OR kWriteEvent"] s1 by (auto simp: enableWriting_def [abs_def])
    have "lifecycle (?s2\<lparr>cloop := l\<rparr>) = [Up]" "destroys (?s2\<lparr>cloop := l\<rparr>) = 0"
      using life by (simp_all add: lifecycle_def destroys_def)
    then have "open_conn (c\<lparr>events := events c OR kWriteEvent, addedToLoop := True, index := i\<rparr>) (?s2\<lparr>cloop := l\<rparr>)"
      using l b ne s1 st bufs sum by (auto simp: open_conn_def buffers_ok_def same_loop_def)
    moreover have "isWriting (c\<lparr>events := events c OR kWriteEvent, addedToLoop := True, index := i\<rparr>)" by simp
    ultimately show ?thesis using run False l(1) s1 b(3)
      by (intro exI [of _ "?s2\<lparr>cloop := l\<rparr>"] exI [of _ "c\<lparr>events := events c OR kWriteEvent, addedToLoop := True, index := i\<rparr>"]) auto
  qed
qed

text \<open>Sending with nothing pending, and with something pending.\<close>

lemma open_idle:
  assumes "open_conn c s" and "contents (outputBuffer (conn s)) = []"
  shows "\<not> isWriting c" and "readableBytes (outputBuffer (conn s)) = 0" and "wire s = accepted s" and "channel_of s = Inr c"
    and "conn_state (conn s) \<noteq> kDisconnected" and "registered (conn_chan (conn s)) c (cloop s)"
  using assms readable_contents [of "outputBuffer (conn s)"] by (auto simp: open_conn_def buffers_ok_def)

definition failed_for_good :: "write_out \<Rightarrow> bool" where
  "failed_for_good out \<longleftrightarrow> out = WriteFailed EPIPE \<or> out = WriteFailed ECONNRESET"

lemma rest_after_write:
  assumes op: "open_conn c s" and idle: "contents (outputBuffer (conn s)) = []" and open_end: "\<not> shut s"
    and t: "t = s\<lparr>accepted := accepted s @ msg, wire := wire s @ take n msg\<rparr>" and nk: "n + k = length msg" "0 < k"
  shows "\<exists>s' c'. buffer_rest msg n k t = Inr s' \<and> open_conn c' s' \<and> conn_state (conn s') = conn_state (conn s) \<and>
    accepted s' = accepted t \<and> wire s' = wire t \<and> WriteCompleteTask \<notin> set (drop (length (tasks s)) (tasks s'))"
proof -
  note i = open_idle [OF op idle]
  have parts: "buffer_inv (inputBuffer (conn s))" "buffer_inv (outputBuffer (conn s))"
      "destroys s = 0" "lifecycle s = [Up]" "conn_state (conn s) = kConnected \<and> \<not> shut s \<or> conn_state (conn s) = kDisconnecting"
      "ShutdownTask \<in> set (tasks s) \<longrightarrow> conn_state (conn s) = kDisconnecting"
    using op by (auto simp: open_conn_def buffers_ok_def)
  have ts: "conn t = conn s" "cloop t = cloop s" "shut t = shut s" "tasks t = tasks s"
      "destroys t = 0" "lifecycle t = [Up]" using parts(3,4) by (simp_all add: t destroys_def lifecycle_def)
  have sum: "wire t @ contents (outputBuffer (conn t)) @ drop n msg = accepted t"
    using i(3) idle by (simp add: t)
  have "\<exists>s' c'. buffer_rest msg n k t = Inr s' \<and> open_conn c' s' \<and> wire s' = wire t \<and> accepted s' = accepted t \<and>
    contents (outputBuffer (conn s')) = contents (outputBuffer (conn t)) @ drop n msg \<and> conn_state (conn s') = conn_state (conn t) \<and>
    isWriting c' \<and> (\<exists>ts. tasks s' = tasks t @ ts \<and> WriteCompleteTask \<notin> set ts)"
    by (rule buffer_rest_ok) (use parts i(6) ts nk open_end sum in \<open>auto\<close>)
  then show ?thesis using ts by auto
qed

lemma sendInLoop_idle:
  assumes op: "open_conn c s" and idle: "contents (outputBuffer (conn s)) = []" and honest: "write_honest out (length msg)"
    and fin: "shut s \<longrightarrow> failed_for_good out"
  shows "\<exists>s' c'. sendInLoop out msg s = Inr s' \<and> open_conn c' s' \<and> conn_state (conn s') = conn_state (conn s) \<and>
    accepted s' = accepted s @ (if failed_for_good out then [] else msg) \<and>
    wire s' = wire s @ (case out of Wrote n \<Rightarrow> take n msg | WriteFailed e \<Rightarrow> []) \<and>
    (WriteCompleteTask \<in> set (drop (length (tasks s)) (tasks s')) \<longleftrightarrow> out = Wrote (length msg) \<and> has_writeComplete (conn s))"
proof -
  note i = open_idle [OF op idle]
  let ?s0 = "s\<lparr>accepted := accepted s @ msg\<rparr>"
  note rest = rest_after_write [OF op idle]
  show ?thesis
  proof (cases out)
    case (Wrote n)
    then have n: "n \<le> length msg" "\<not> shut s" using honest fin by (auto simp: write_honest_def failed_for_good_def)
    let ?s1 = "?s0\<lparr>wire := wire s @ take n msg\<rparr>"
    show ?thesis
    proof (cases "n = length msg")
      case True
      let ?s2 = "if has_writeComplete (conn s) then queue_task WriteCompleteTask ?s1 else ?s1"
      have "sendInLoop out msg s = Inr ?s2"
        using i Wrote True by (simp add: sendInLoop_def Let_def)
      moreover have "open_conn c ?s2"
        using op idle True i(3) by (auto simp: conn_defs queue_task_def)
      ultimately show ?thesis using Wrote True by (auto simp: queue_task_def failed_for_good_def)
    next
      case False
      then have k: "0 < length msg - n" "n + (length msg - n) = length msg" using n by auto
      have "sendInLoop out msg s = buffer_rest msg n (length msg - n) ?s1"
        using i Wrote k by (simp add: sendInLoop_def Let_def)
      with rest [OF n(2) refl k(2,1)] Wrote False show ?thesis by (auto simp: failed_for_good_def)
    qed
  next
    case (WriteFailed e)
    show ?thesis
    proof (cases "failed_for_good out")
      case True
      then have "sendInLoop out msg s = Inr s" using i WriteFailed by (auto simp: sendInLoop_def Let_def failed_for_good_def)
      with True op WriteFailed show ?thesis by auto
    next
      case False
      then have e: "e \<noteq> EPIPE" "e \<noteq> ECONNRESET" "\<not> shut s" using WriteFailed fin by (auto simp: failed_for_good_def)
      show ?thesis
      proof (cases "msg = []")
        case True
        then have "sendInLoop out msg s = Inr s" using i WriteFailed by (simp add: sendInLoop_def)
        with True op WriteFailed show ?thesis by auto
      next
        case non_empty: False
        have "?s0 = s\<lparr>accepted := accepted s @ msg, wire := wire s @ take 0 msg\<rparr>" by simp
        moreover have "sendInLoop out msg s = buffer_rest msg 0 (length msg) ?s0"
          using i WriteFailed e non_empty by (simp add: sendInLoop_def Let_def)
        ultimately show ?thesis using rest [where t = ?s0 and msg = msg and n = 0 and k = "length msg"] e False WriteFailed non_empty by auto
      qed
    qed
  qed
qed

lemma sendInLoop_pending:
  assumes "open_conn c s" and "contents (outputBuffer (conn s)) \<noteq> []"
  shows "sendInLoop out msg s = (if msg = [] then Inr s else Inl OutOfBounds)"
  using assms by (auto simp: open_conn_def sendInLoop_def buffer_rest_def Let_def)

lemma shutdownInLoop_ok:
  assumes "open_conn c s" and "conn_state (conn s) = kDisconnecting"
  shows "shutdownInLoop s = Inr (if contents (outputBuffer (conn s)) = [] then s\<lparr>shut := True\<rparr> else s)"
    and "open_conn c (if contents (outputBuffer (conn s)) = [] then s\<lparr>shut := True\<rparr> else s)"
  using assms by (auto simp: conn_defs shutdownInLoop_def)

lemma handleWrite_nothing:
  assumes op: "open_conn c s" and none: "\<nexists>n. out = Wrote n \<and> 0 < n \<and> isWriting c"
  shows "handleWrite out s = Inr s \<and> (case out of Wrote n \<Rightarrow> drop n (contents (outputBuffer (conn s)))
    | WriteFailed e \<Rightarrow> contents (outputBuffer (conn s))) = contents (outputBuffer (conn s))"
proof -
  have "channel_of s = Inr c" using op by (simp add: open_conn_def)
  with none have "handleWrite out s = Inr s" by (cases out) (auto simp: handleWrite_def)
  moreover have "n = 0 \<or> contents (outputBuffer (conn s)) = []" if "out = Wrote n" for n
    using that none op by (auto simp: open_conn_def)
  ultimately show ?thesis by (cases out) auto
qed

lemma handleWrite_ok:
  assumes op: "open_conn c s" and honest: "write_honest out (length (contents (outputBuffer (conn s))))"
  shows "\<exists>s' c'. handleWrite out s = Inr s' \<and> open_conn c' s' \<and> accepted s' = accepted s \<and>
    conn_state (conn s') = conn_state (conn s) \<and>
    contents (outputBuffer (conn s')) = (case out of Wrote n \<Rightarrow> drop n (contents (outputBuffer (conn s)))
      | WriteFailed e \<Rightarrow> contents (outputBuffer (conn s))) \<and>
    (contents (outputBuffer (conn s)) \<noteq> [] \<and> contents (outputBuffer (conn s')) = [] \<and> conn_state (conn s) = kDisconnecting \<longrightarrow> shut s') \<and>
    (\<not> has_writeComplete (conn s) \<longrightarrow> tasks s' = tasks s)"
proof (cases "\<exists>n. out = Wrote n \<and> 0 < n \<and> isWriting c")
  case False
  with handleWrite_nothing [OF op False] op show ?thesis by auto
next
  case True
  then obtain n where n: "out = Wrote n" "0 < n" "isWriting c" by blast
  let ?b = "outputBuffer (conn s)"
  have parts: "buffer_inv ?b" "registered (conn_chan (conn s)) c (cloop s)" "wire s @ contents ?b = accepted s" "contents ?b \<noteq> []"
      "\<not> shut s" "conn_state (conn s) = kConnected \<or> conn_state (conn s) = kDisconnecting"
    using op n(3) by (auto simp: open_conn_def buffers_ok_def)
  have le: "n \<le> readableBytes ?b" using honest n(1) parts(1) by (simp add: write_honest_def length_contents)
  obtain b where b: "retrieve n ?b = Inr b" "buffer_inv b" "contents b = drop n (contents ?b)"
    using retrieve_ok [OF parts(1) le] by blast
  have d: "block (storage ?b) (peek ?b) (peek ?b + n) = take n (contents ?b)"
    using block_take [of "peek ?b + n" "peek ?b + readableBytes ?b" "storage ?b" "peek ?b"] le block_peek [OF parts(1)] by simp
  let ?s1 = "s\<lparr>wire := wire s @ take n (contents ?b), conn := (conn s)\<lparr>outputBuffer := b\<rparr>\<rparr>"
  have sum: "wire ?s1 @ contents b = accepted s" using parts(3) b(3) by simp
  have reg1: "registered (conn_chan (conn ?s1)) c (cloop ?s1)" using parts(2) by simp
  show ?thesis
  proof (cases "contents b = []")
    case False
    then have "handleWrite out s = Inr ?s1"
      using n b d parts(2) readable_contents [OF b(2)] by (simp add: handleWrite_def Let_def)
    moreover have "open_conn c ?s1" using op False n(3) b(2) sum parts(5) by (auto simp: conn_defs)
    ultimately show ?thesis using n b False by auto
  next
    case drained: True
    obtain l i where l: "on_channel disableWriting ?s1 = Inr (?s1\<lparr>cloop := l\<rparr>)" "same_loop (cloop s) l"
        "registered (conn_chan (conn s)) (c\<lparr>events := events c AND NOT kWriteEvent, addedToLoop := True, index := i\<rparr>) l"
      using on_channel_update [OF reg1, of "\<lambda>e. e AND NOT kWriteEvent"] by (auto simp: disableWriting_def [abs_def])
    let ?c = "c\<lparr>events := events c AND NOT kWriteEvent, addedToLoop := True, index := i\<rparr>"
    define s3 where "s3 = (if has_writeComplete (conn s) then queue_task WriteCompleteTask (?s1\<lparr>cloop := l\<rparr>) else ?s1\<lparr>cloop := l\<rparr>)"
    have s3: "open_conn ?c s3" "accepted s3 = accepted s" "conn_state (conn s3) = conn_state (conn s)" "contents (outputBuffer (conn s3)) = []"
        "\<not> has_writeComplete (conn s) \<longrightarrow> tasks s3 = tasks s"
      using op drained b(2) sum l(2,3) by (auto simp: s3_def conn_defs queue_task_def same_loop_def)
    have run: "handleWrite out s = (if conn_state (conn s3) = kDisconnecting then shutdownInLoop s3 else Inr s3)"
      using n b d parts(2) readable_contents [OF b(2)] drained l(1) by (simp add: handleWrite_def Let_def s3_def)
    show ?thesis
    proof (cases "conn_state (conn s) = kDisconnecting")
      case True
      with shutdownInLoop_ok [OF s3(1)] s3 run have "handleWrite out s = Inr (s3\<lparr>shut := True\<rparr>)" "open_conn ?c (s3\<lparr>shut := True\<rparr>)"
        by simp_all
      with s3 n drained b(3) show ?thesis by auto
    next
      case False
      with run s3 n drained b(3) show ?thesis by auto
    qed
  qed
qed

section \<open>The interface in callbacks\<close>

text \<open>How many bytes of a message a \<^verbatim>\<open>write\<close> is given, and no more than which it takes.\<close>

definition passed :: "bytes \<Rightarrow> nat" where
  "passed msg = (if int_of_size (length msg) < 0 then length msg else nat (int_of_size (length msg)))"

lemma int_of_size_le: "int_of_size n \<le> int n"
  by (simp add: int_of_size_def sint_sbintrunc' signed_take_bit_int_less_eq_self_iff del: of_int_of_nat_eq)

lemma int_of_size_small: "n < 2 ^ 31 \<Longrightarrow> int_of_size n = int n"
  by (simp add: int_of_size_def sint_sbintrunc' signed_take_bit_int_eq_self del: of_int_of_nat_eq)

lemma passed_small: "length msg < 2 ^ 31 \<Longrightarrow> passed msg = length msg"
  by (simp add: passed_def int_of_size_small)

lemma sendInLoop_int_small:
  "length msg < 2 ^ 31 \<Longrightarrow> sendInLoop_int out msg (int_of_size (length msg)) s = sendInLoop out msg s"
  by (simp add: sendInLoop_int_def int_of_size_small)

definition act_honest :: "conn_act \<Rightarrow> bool" where
  "act_honest a = (case a of ActSend out msg \<Rightarrow> write_honest out (passed msg) | _ \<Rightarrow> True)"

text \<open>The calls that change nothing on a connection that is down.\<close>

definition quiet_act :: "conn_act \<Rightarrow> bool" where
  "quiet_act a \<longleftrightarrow> a \<noteq> ActStartRead \<and> a \<noteq> ActStopRead"

definition quiet_callback :: "conn_callback \<Rightarrow> bool" where
  "quiet_callback cb \<longleftrightarrow> (\<forall>s. conn_state (conn s) = kDisconnected \<longrightarrow> (\<forall>a \<in> set (cb s). quiet_act a))"

definition honest_callback :: "conn_callback \<Rightarrow> bool" where
  "honest_callback cb \<longleftrightarrow> (\<forall>s. \<forall>a \<in> set (cb s). act_honest a)"

text \<open>No operation of a connection changes whether its loop is handling events.\<close>

abbreviation handling :: "conn_sys \<Rightarrow> bool" where
  "handling s \<equiv> handlingEvents (cloop s)"

lemma update_handling: "update a f l = Inr l' \<Longrightarrow> handlingEvents l' = handlingEvents l"
  by (auto simp: update_def updateChannel_def poller_updateChannel_def put_chan_def result_simps Let_def split: if_splits)

lemma on_channel_handling:
  "on_channel enableReading s = Inr s' \<Longrightarrow> handling s' = handling s"
  "on_channel disableReading s = Inr s' \<Longrightarrow> handling s' = handling s"
  "on_channel enableWriting s = Inr s' \<Longrightarrow> handling s' = handling s"
  "on_channel disableWriting s = Inr s' \<Longrightarrow> handling s' = handling s"
  "on_channel disableAll s = Inr s' \<Longrightarrow> handling s' = handling s"
  by (auto simp: on_channel_def result_simps enableReading_def disableReading_def enableWriting_def disableWriting_def disableAll_def
      dest: update_handling)

lemma buffer_rest_handling: "buffer_rest msg n k s = Inr s' \<Longrightarrow> handling s' = handling s"
  by (auto simp: buffer_rest_def note_highWater_def queue_task_def Let_def result_simps split: if_splits dest!: on_channel_handling)

lemma sendInLoop_handling: "sendInLoop out msg s = Inr s' \<Longrightarrow> handling s' = handling s"
  by (auto simp: sendInLoop_def Let_def result_simps queue_task_def split: if_splits write_out.splits dest!: buffer_rest_handling)

lemma sendInLoop_int_handling: "sendInLoop_int out msg n s = Inr s' \<Longrightarrow> handling s' = handling s"
  by (auto simp: sendInLoop_int_def sendInLoop_negative_def result_simps split: if_splits write_out.splits dest!: sendInLoop_handling)

lemma read_interest_handling:
  "startReadInLoop s = Inr s' \<Longrightarrow> handling s' = handling s" "stopReadInLoop s = Inr s' \<Longrightarrow> handling s' = handling s"
  by (auto simp: startReadInLoop_def stopReadInLoop_def result_simps split: if_splits dest!: on_channel_handling)

lemma shutdownInLoop_handling: "shutdownInLoop s = Inr s' \<Longrightarrow> handling s' = handling s"
  by (auto simp: shutdownInLoop_def result_simps split: if_splits)

lemma handleWrite_handling: "handleWrite out s = Inr s' \<Longrightarrow> handling s' = handling s"
  by (auto simp: handleWrite_def Let_def result_simps queue_task_def split: if_splits write_out.splits
      dest!: on_channel_handling shutdownInLoop_handling)

lemma forceClose_handling [simp]: "handling (forceClose s) = handling s" "handling (set_state st s) = handling s" "handling (queue_task t s) = handling s"
  by (simp_all add: forceClose_def set_state_def queue_task_def)

lemma perform_handling: "perform_conn a s = Inr s' \<Longrightarrow> handling s' = handling s"
  by (cases a) (auto simp: send_def shutdown_def forceCLoseWithDelay_def startRead_def stopRead_def consume_def consume_all_def Let_def result_simps
      split: if_splits dest!: sendInLoop_int_handling read_interest_handling shutdownInLoop_handling)

lemma perform_all_handling: "for_r as perform_conn s = Inr s' \<Longrightarrow> handling s' = handling s"
proof (induction as arbitrary: s)
  case (Cons a as)
  then obtain s1 where "perform_conn a s = Inr s1" "for_r as perform_conn s1 = Inr s'" by (auto simp: result_simps)
  with Cons.IH perform_handling show ?case by fastforce
qed simp

lemma call_back_handling: "call_back cb e s = Inr s' \<Longrightarrow> handling s' = handling s"
  by (auto simp: call_back_def Let_def dest!: perform_all_handling)

lemma handleClose_handling: "handleClose on_conn s = Inr s' \<Longrightarrow> handling s' = handling s"
  by (auto simp: handleClose_def closeCallback_def result_simps dest!: call_back_handling on_channel_handling)

lemma consume_ok:
  assumes "buffers_ok s" and "n \<le> readableBytes (inputBuffer (conn s))"
  shows "\<exists>b. buffer_inv b \<and> consume n s = Inr (s\<lparr>conn := (conn s)\<lparr>inputBuffer := b\<rparr>\<rparr>)"
  using retrieve_ok [of "inputBuffer (conn s)" n] assms by (auto simp: buffers_ok_def consume_def)

lemma open_input:
  "open_conn c s \<Longrightarrow> buffer_inv b \<Longrightarrow> open_conn c (s\<lparr>conn := (conn s)\<lparr>inputBuffer := b\<rparr>\<rparr>)"
  by (auto simp: conn_defs)

lemma open_state:
  assumes "open_conn c s"
  shows "conn_state (conn s) \<noteq> kDisconnected" and "conn_state (conn s) \<noteq> kConnecting"
    and "open_conn c (set_state kDisconnecting s)"
    and "open_conn c (queue_task ForceCloseTask s)"
    and "open_conn c (s\<lparr>delayed := n\<rparr>)"
  using assms by (auto simp: conn_defs set_state_def queue_task_def)

lemma readmask_ok:
  assumes op: "open_conn c s" and f: "f = (\<lambda>e. e OR kReadEvent) \<or> f = (\<lambda>e. e AND NOT kReadEvent)"
  shows "\<exists>l c'. on_channel (\<lambda>a. update a f) s = Inr (s\<lparr>cloop := l\<rparr>) \<and> open_conn c' (s\<lparr>cloop := l\<rparr>)"
proof -
  have reg: "registered (conn_chan (conn s)) c (cloop s)" using op by (simp add: open_conn_def)
  obtain l i where l: "on_channel (\<lambda>a. update a f) s = Inr (s\<lparr>cloop := l\<rparr>)" "same_loop (cloop s) l"
      "registered (conn_chan (conn s)) (c\<lparr>events := f (events c), addedToLoop := True, index := i\<rparr>) l"
    using on_channel_update [OF reg, of f] by blast
  have "isWriting (c\<lparr>events := f (events c), addedToLoop := True, index := i\<rparr>) = isWriting c" using f by auto
  then have "open_conn (c\<lparr>events := f (events c), addedToLoop := True, index := i\<rparr>) (s\<lparr>cloop := l\<rparr>)"
    using op l(2,3) by (auto simp: conn_defs same_loop_def)
  with l(1) show ?thesis by blast
qed

lemma open_reading: "open_conn c s \<Longrightarrow> open_conn c (s\<lparr>conn := (conn s)\<lparr>reading := b\<rparr>\<rparr>)"
  by (auto simp: conn_defs)

lemma read_interest_ok:
  assumes op: "open_conn c s"
  shows "\<exists>s' c'. startReadInLoop s = Inr s' \<and> open_conn c' s'" and "\<exists>s' c'. stopReadInLoop s = Inr s' \<and> open_conn c' s'"
proof -
  have ch: "channel_of s = Inr c" using op by (simp add: open_conn_def)
  obtain l c' where l: "on_channel enableReading s = Inr (s\<lparr>cloop := l\<rparr>)" "open_conn c' (s\<lparr>cloop := l\<rparr>)"
    using readmask_ok [OF op, of "\<lambda>e. e OR kReadEvent"] by (auto simp: enableReading_def [abs_def])
  with open_reading [OF l(2), of True] ch op show "\<exists>s' c'. startReadInLoop s = Inr s' \<and> open_conn c' s'"
    by (auto simp: startReadInLoop_def)
  obtain m d where m: "on_channel disableReading s = Inr (s\<lparr>cloop := m\<rparr>)" "open_conn d (s\<lparr>cloop := m\<rparr>)"
    using readmask_ok [OF op, of "\<lambda>e. e AND NOT kReadEvent"] by (auto simp: disableReading_def [abs_def])
  with open_reading [OF m(2), of False] ch op show "\<exists>s' c'. stopReadInLoop s = Inr s' \<and> open_conn c' s'"
    by (auto simp: stopReadInLoop_def)
qed

lemma send_ok:
  assumes op: "open_conn c s" and honest: "write_honest out (length msg)" and fin: "shut s \<longrightarrow> failed_for_good out"
  shows "safe {OutOfBounds} (\<lambda>s'. \<exists>c'. open_conn c' s') (sendInLoop out msg s)"
proof (cases "contents (outputBuffer (conn s)) = []")
  case True
  with sendInLoop_idle [OF op True honest fin] show ?thesis by auto
next
  case False
  with sendInLoop_pending [OF op False] op show ?thesis by auto
qed

lemma negative_ok:
  assumes op: "open_conn c s" and honest: "write_honest out (length msg)" and fin: "shut s \<longrightarrow> failed_for_good out"
  shows "\<exists>s'. sendInLoop_negative out msg s = Inr s' \<and> open_conn c s'"
proof (cases "\<exists>n. out = Wrote n \<and> contents (outputBuffer (conn s)) = []")
  case True
  then obtain n where n: "out = Wrote n" "contents (outputBuffer (conn s)) = []" by blast
  note i = open_idle [OF op n(2)]
  let ?s = "s\<lparr>accepted := accepted s @ take n msg, wire := wire s @ take n msg\<rparr>"
  have "sendInLoop_negative out msg s = Inr ?s"
    using i n honest by (simp add: sendInLoop_negative_def write_honest_def)
  moreover have "open_conn c ?s" using op n(2) i(3) by (auto simp: conn_defs)
  ultimately show ?thesis by blast
next
  case False
  have "channel_of s = Inr c" "conn_state (conn s) \<noteq> kDisconnected" "readableBytes (outputBuffer (conn s)) = 0 \<longleftrightarrow> contents (outputBuffer (conn s)) = []"
    using op readable_contents [of "outputBuffer (conn s)"] by (auto simp: open_conn_def buffers_ok_def)
  then have "sendInLoop_negative out msg s = Inr s"
    using False by (cases out) (auto simp: sendInLoop_negative_def)
  with op show ?thesis by blast
qed

lemma send_int_ok:
  assumes op: "open_conn c s" and honest: "write_honest out (passed msg)" and fin: "shut s \<longrightarrow> failed_for_good out"
  shows "safe {OutOfBounds} (\<lambda>s'. \<exists>c'. open_conn c' s') (sendInLoop_int out msg (int_of_size (length msg)) s)"
proof (cases "int_of_size (length msg) < 0")
  case True
  with negative_ok [OF op _ fin, of msg] honest show ?thesis by (auto simp: sendInLoop_int_def passed_def)
next
  case False
  have "length (take (nat (int_of_size (length msg))) msg) = passed msg"
    using False int_of_size_le [of "length msg"] by (simp add: passed_def)
  with send_ok [OF op _ fin, of "take (nat (int_of_size (length msg))) msg"] honest False show ?thesis by (simp add: sendInLoop_int_def)
qed

lemma perform_open:
  assumes op: "open_conn c s" and honest: "act_honest a"
  shows "safe {OutOfBounds} (\<lambda>s'. \<exists>c'. open_conn c' s') (perform_conn a s)"
proof (cases a)
  case (ActSend out msg)
  show ?thesis
  proof (cases "conn_state (conn s) = kConnected")
    case True
    with op have "\<not> shut s" by (auto simp: open_conn_def)
    with send_int_ok [OF op, of out msg] honest ActSend True show ?thesis by (simp add: act_honest_def send_def)
  next
    case False
    with op ActSend show ?thesis by (auto simp: send_def)
  qed
next
  case ActShutdown
  show ?thesis
  proof (cases "conn_state (conn s) = kConnected")
    case True
    with shutdownInLoop_ok [OF open_state(3) [OF op]] ActShutdown show ?thesis by (auto simp: shutdown_def set_state_def)
  next
    case False
    with op ActShutdown show ?thesis by (auto simp: shutdown_def)
  qed
next
  case ActForceClose
  with open_state(4) [OF open_state(3) [OF op]] op show ?thesis by (auto simp: forceClose_def)
next
  case ActForceCloseDelay
  with open_state(5) [OF open_state(3) [OF op]] op show ?thesis by (auto simp: forceCLoseWithDelay_def)
next
  case ActStartRead
  with read_interest_ok(1) [OF op] op show ?thesis by (auto simp: startRead_def)
next
  case ActStopRead
  with read_interest_ok(2) [OF op] op show ?thesis by (auto simp: stopRead_def)
next
  case (ActConsume n)
  have "buffers_ok s" using op by (simp add: open_conn_def)
  then show ?thesis
  proof (cases "n \<le> readableBytes (inputBuffer (conn s))")
    case True
    with consume_ok [OF \<open>buffers_ok s\<close>, of n] obtain b where
      b: "buffer_inv b" "consume n s = Inr (s\<lparr>conn := (conn s)\<lparr>inputBuffer := b\<rparr>\<rparr>)" by blast
    from open_input [OF op b(1)] have "\<exists>c'. open_conn c' (s\<lparr>conn := (conn s)\<lparr>inputBuffer := b\<rparr>\<rparr>)" by blast
    with True b(2) ActConsume show ?thesis by simp
  qed (use op ActConsume in auto)
next
  case ActConsumeAll
  with open_input [OF op retrieveAll_inv] show ?thesis by (auto simp: consume_all_def)
qed

text \<open>On a connection that is down the interface, \<^verbatim>\<open>startRead\<close> and \<^verbatim>\<open>stopRead\<close> apart, does nothing but take bytes from the input buffer.\<close>

lemma perform_down:
  assumes "buffers_ok s" and "conn_state (conn s) = kDisconnected" and "quiet_act a"
  shows "\<exists>b. buffer_inv b \<and> perform_conn a s = Inr (s\<lparr>conn := (conn s)\<lparr>inputBuffer := b\<rparr>\<rparr>)"
proof -
  have self: "s = s\<lparr>conn := (conn s)\<lparr>inputBuffer := inputBuffer (conn s)\<rparr>\<rparr>" "buffer_inv (inputBuffer (conn s))"
    using assms(1) by (simp_all add: buffers_ok_def)
  show ?thesis
  proof (cases a)
    case (ActConsume n)
    with consume_ok [OF assms(1), of n] self show ?thesis by (cases "n \<le> readableBytes (inputBuffer (conn s))") auto
  next
    case ActConsumeAll
    with retrieveAll_inv show ?thesis by (auto simp: consume_all_def)
  qed (use assms(2,3) self in \<open>auto simp: send_def shutdown_def forceClose_def forceCLoseWithDelay_def quiet_act_def\<close>)
qed

lemma perform_all_down:
  assumes "buffers_ok s" and "conn_state (conn s) = kDisconnected" and "\<forall>a \<in> set as. quiet_act a"
  shows "\<exists>b. buffer_inv b \<and> for_r as perform_conn s = Inr (s\<lparr>conn := (conn s)\<lparr>inputBuffer := b\<rparr>\<rparr>)"
  using assms
proof (induction as arbitrary: s)
  case Nil
  then show ?case by (intro exI [of _ "inputBuffer (conn s)"]) (simp add: buffers_ok_def)
next
  case (Cons a as)
  obtain b where b: "buffer_inv b" "perform_conn a s = Inr (s\<lparr>conn := (conn s)\<lparr>inputBuffer := b\<rparr>\<rparr>)"
    using perform_down [OF Cons.prems(1,2), of a] Cons.prems(3) by auto
  let ?t = "s\<lparr>conn := (conn s)\<lparr>inputBuffer := b\<rparr>\<rparr>"
  have "buffers_ok ?t" "conn_state (conn ?t) = kDisconnected" using Cons.prems b(1) by (auto simp: buffers_ok_def)
  from Cons.IH [OF this] Cons.prems(3) b(2) show ?case by auto
qed

lemma perform_all_open:
  assumes "open_conn c s" and "\<forall>a \<in> set as. act_honest a"
  shows "safe {OutOfBounds} (\<lambda>s'. \<exists>c'. open_conn c' s') (for_r as perform_conn s)"
  using assms
proof (induction as arbitrary: s c)
  case (Cons a as)
  have "safe {OutOfBounds} (\<lambda>s'. \<exists>c'. open_conn c' s') (perform_conn a s)" using Cons.prems by (intro perform_open) auto
  moreover have "safe {OutOfBounds} (\<lambda>s'. \<exists>c'. open_conn c' s') (for_r as perform_conn t)" if "\<exists>c'. open_conn c' t" for t
    using that Cons by auto
  ultimately show ?case by (auto intro: safe_bind)
qed auto

section \<open>Opening and closing\<close>

lemma call_back_open:
  assumes "open_conn c s" and "\<forall>t. \<forall>a \<in> set (cb t). act_honest a"
  shows "safe {OutOfBounds} (\<lambda>s'. \<exists>c'. open_conn c' s') (call_back cb Message s)"
proof -
  have "open_conn c (s\<lparr>calls := calls s @ [Message]\<rparr>)" using assms(1) by (auto simp: conn_defs)
  then have "safe {OutOfBounds} (\<lambda>s'. \<exists>c'. open_conn c' s')
      (for_r (cb (s\<lparr>calls := calls s @ [Message]\<rparr>)) perform_conn (s\<lparr>calls := calls s @ [Message]\<rparr>))"
    using assms(2) by (intro perform_all_open) blast+
  then show ?thesis by (simp add: call_back_def Let_def)
qed

lemma after_destroy_new: "DestroyTask \<notin> set ts \<Longrightarrow> after_destroy (ts @ [DestroyTask]) = []"
  by (induction ts) (auto simp: after_destroy_def)

lemma after_destroy_append: "DestroyTask \<in> set ts \<Longrightarrow> after_destroy (ts @ [t]) = after_destroy ts @ [t]"
  by (induction ts) (auto simp: after_destroy_def)

lemma after_destroy_Cons: "after_destroy (t # ts) = (if t = DestroyTask then ts else after_destroy ts)"
  by (simp add: after_destroy_def)

lemma destroys_pos: "0 < destroys s \<longleftrightarrow> DestroyTask \<in> set (tasks s)"
  by (metis bot_nat_0.not_eq_extremum count_notin count_list_0_iff destroys_def)

lemma handleClose_ok:
  assumes op: "open_conn c s" and quiet: "quiet_callback on_conn"
  shows "\<exists>s' c'. handleClose on_conn s = Inr s' \<and> closed_conn c' s' \<and> registered (conn_chan (conn s')) c' (cloop s') \<and>
    accepted s' = accepted s \<and> wire s' = wire s \<and> tasks s' = tasks s @ [DestroyTask]"
proof -
  let ?s0 = "set_state kDisconnected s"
  have reg: "registered (conn_chan (conn ?s0)) c (cloop ?s0)" using op by (simp add: open_conn_def set_state_def)
  obtain l i where l: "on_channel disableAll ?s0 = Inr (?s0\<lparr>cloop := l\<rparr>)" "same_loop (cloop s) l"
      "registered (conn_chan (conn s)) (c\<lparr>events := kNoneEvent, addedToLoop := True, index := i\<rparr>) l"
    using on_channel_update [OF reg, of "\<lambda>_. kNoneEvent"] by (auto simp: disableAll_def [abs_def] set_state_def)
  let ?c = "c\<lparr>events := kNoneEvent, addedToLoop := True, index := i\<rparr>"
  let ?s1 = "(?s0\<lparr>cloop := l\<rparr>)\<lparr>calls := calls s @ [Down]\<rparr>"
  have bufs: "buffers_ok ?s1" "conn_state (conn ?s1) = kDisconnected"
    using op by (auto simp: open_conn_def buffers_ok_def set_state_def)
  obtain b where b: "buffer_inv b" "for_r (on_conn ?s1) perform_conn ?s1 = Inr (?s1\<lparr>conn := (conn ?s1)\<lparr>inputBuffer := b\<rparr>\<rparr>)"
    using perform_all_down [OF bufs] quiet bufs(2) unfolding quiet_callback_def by blast
  let ?s2 = "closeCallback (?s1\<lparr>conn := (conn ?s1)\<lparr>inputBuffer := b\<rparr>\<rparr>)"
  have "calls (?s0\<lparr>cloop := l\<rparr>) = calls s" by (simp add: set_state_def)
  then have "call_back on_conn Down (?s0\<lparr>cloop := l\<rparr>) = Inr (?s1\<lparr>conn := (conn ?s1)\<lparr>inputBuffer := b\<rparr>\<rparr>)"
    unfolding call_back_def Let_def using b(2) by (simp only:)
  then have run: "handleClose on_conn s = Inr ?s2"
    using op l(1) by (auto simp: handleClose_def open_conn_def)
  have reg2: "registered (conn_chan (conn ?s2)) ?c (cloop ?s2)"
    using l(3) by (simp add: closeCallback_def queue_task_def set_state_def)
  have "buffers_ok ?s2" "lifecycle ?s2 = [Up, Down, Closed]" "destroys ?s2 = 1" "conn_state (conn ?s2) = kDisconnected"
      "isNoneEvent ?c" "accepted ?s2 = accepted s" "wire ?s2 = wire s"
    using op b(1) l(2)
    by (auto simp: conn_defs closeCallback_def queue_task_def set_state_def same_loop_def isNoneEvent_def)
  moreover have "after_destroy (tasks ?s2) = []"
    using op destroys_pos [of s] after_destroy_new [of "tasks s"] by (simp add: open_conn_def closeCallback_def queue_task_def set_state_def)
  moreover have "tasks ?s2 = tasks s @ [DestroyTask]" by (simp add: closeCallback_def queue_task_def set_state_def)
  ultimately have "closed_conn ?c ?s2" "accepted ?s2 = accepted s" "wire ?s2 = wire s" "tasks ?s2 = tasks s @ [DestroyTask]"
    using reg2 registered_simps(2) [OF reg2] by (simp_all add: closed_conn_def)
  with run reg2 show ?thesis by blast
qed

lemma closed_keeps:
  assumes "closed_conn c s" and "t \<noteq> DestroyTask"
  shows "\<not> raw_call t \<Longrightarrow> closed_conn c (queue_task t s)" and "closed_conn c (s\<lparr>delayed := n\<rparr>)"
  using assms destroys_pos [of s]
  by (auto simp: closed_conn_def queue_task_def buffers_ok_def lifecycle_def destroys_def after_destroy_append)

lemma closed_input: "closed_conn c s \<Longrightarrow> buffer_inv b \<Longrightarrow> closed_conn c (s\<lparr>conn := (conn s)\<lparr>inputBuffer := b\<rparr>\<rparr>)"
  by (simp add: closed_conn_def buffers_ok_def lifecycle_def destroys_def)

lemma conn_okI: "open_conn c s \<Longrightarrow> conn_ok s" "closed_conn c s \<Longrightarrow> conn_ok s"
  by (auto simp: conn_ok_def)

lemma safe_conn_inv:
  assumes "safe E conn_ok r" and "\<And>s'. r = Inr s' \<Longrightarrow> \<not> handling s'"
  shows "safe E conn_inv r"
  using assms by (cases r) (auto simp: conn_inv_def)

lemma perform_keeps_ok:
  assumes inv: "conn_ok s" and honest: "act_honest a" and quiet: "conn_state (conn s) = kDisconnected \<longrightarrow> quiet_act a"
  shows "safe {OutOfBounds} conn_ok (perform_conn a s)"
proof -
  consider c where "open_conn c s" | c where "closed_conn c s" using inv by (auto simp: conn_ok_def)
  then show ?thesis
  proof cases
    case 1
    then show ?thesis using perform_open [OF _ honest] by (blast intro: safe_weaken conn_okI)
  next
    case (2 c)
    then have "buffers_ok s" "conn_state (conn s) = kDisconnected" by (simp_all add: closed_conn_def)
    then obtain b where b: "buffer_inv b" "perform_conn a s = Inr (s\<lparr>conn := (conn s)\<lparr>inputBuffer := b\<rparr>\<rparr>)"
      using perform_down quiet by blast
    from conn_okI(2) [OF closed_input [OF 2 b(1)]] b(2) show ?thesis by simp
  qed
qed

section \<open>Runs of a connection\<close>

text \<open>
  The loop calls the handlers of a channel with the channel marked as the one whose events it is handling.
\<close>

definition mark_handling :: "nat option \<Rightarrow> bool \<Rightarrow> conn_sys \<Rightarrow> conn_sys" where
  "mark_handling cur b s = s\<lparr>cloop := (cloop s)\<lparr>currentActiveChannel := cur, handlingEvents := b\<rparr>\<rparr>"

definition in_handler :: "(conn_sys \<Rightarrow> conn_sys result) \<Rightarrow> conn_sys \<Rightarrow> conn_sys result" where
  "in_handler f s =
     bind_r (f (mark_handling (Some (conn_chan (conn s))) True s)) (\<lambda>s'. Inr (mark_handling None False s'))"

text \<open>
  What can happen to a connection, each one step: an event of its channel, the next functor of its queue (the flag tells whether the memory
  of a message bound by pointer is still there), a call from a functor of somebody else in the loop's thread, a call from another thread, a delayed close.
\<close>

datatype conn_op = EvRead io_in | EvWrite write_out | EvHup | RunTask bool write_out | Api conn_act | OtherSend bytes
  | OtherSendBuffer buffer | OtherShutdown | OtherForceClose | OtherStartRead | OtherStopRead | DelayElapsed

definition asks :: "(Channel \<Rightarrow> bool) \<Rightarrow> conn_sys \<Rightarrow> bool" where
  "asks p s = (case channel_of s of Inl e \<Rightarrow> False | Inr c \<Rightarrow> p c)"

fun run_op :: "conn_callback \<Rightarrow> conn_callback \<Rightarrow> conn_op \<Rightarrow> conn_sys \<Rightarrow> conn_sys result" where
  "run_op on_conn on_msg (EvRead io) s = in_handler (handleRead on_conn on_msg io) s"
| "run_op on_conn on_msg (EvWrite out) s = in_handler (handleWrite out) s"
| "run_op on_conn on_msg EvHup s = in_handler (handleClose on_conn) s"
| "run_op on_conn on_msg (RunTask alive out) s = run_next on_conn alive out s"
| "run_op on_conn on_msg (Api a) s = perform_conn a s"
| "run_op on_conn on_msg (OtherSend msg) s = send False (Wrote 0) msg s"
| "run_op on_conn on_msg (OtherSendBuffer b) s = bind_r (send_buffer False (Wrote 0) b s) (\<lambda>(b', s'). Inr s')"
| "run_op on_conn on_msg OtherShutdown s = shutdown False s"
| "run_op on_conn on_msg OtherForceClose s = Inr (forceClose s)"
| "run_op on_conn on_msg OtherStartRead s = startRead False s"
| "run_op on_conn on_msg OtherStopRead s = stopRead False s"
| "run_op on_conn on_msg DelayElapsed s = Inr (weak_callback (conn_alive s) forceClose (s\<lparr>delayed := delayed s - 1\<rparr>))"

text \<open>
  The conditions on a step. Of the system: a channel that asks for reading (for anything) is told so (that the peer is gone), \<^verbatim>\<open>readv\<close> brings no more than it was offered,
  \<^verbatim>\<open>write\<close> takes no more than it was given and fails for good on a side that was shut down. Of the user: a buffer is well formed, a
  message given by pointer outlives its functor, and \<^verbatim>\<open>startRead\<close> and \<^verbatim>\<open>stopRead\<close> are not called, nor do their functors run, when the connection is down.
\<close>

fun op_enabled :: "conn_op \<Rightarrow> conn_sys \<Rightarrow> bool" where
  "op_enabled (EvRead io) s \<longleftrightarrow> asks isReading s \<and>
     (case io of ReadError e \<Rightarrow> True | ReadBytes d \<Rightarrow> length d \<le> iov_capacity (inputBuffer (conn s)))"
| "op_enabled (EvWrite out) s \<longleftrightarrow> write_honest out (readableBytes (outputBuffer (conn s)))"
| "op_enabled EvHup s \<longleftrightarrow> asks (\<lambda>c. \<not> isNoneEvent c) s"
| "op_enabled (RunTask alive out) s \<longleftrightarrow>
     (case tasks s of
        SendTask owned msg # ts \<Rightarrow> (owned \<or> alive) \<and> write_honest out (passed msg) \<and> (shut s \<longrightarrow> failed_for_good out)
      | StartReadTask # ts \<Rightarrow> conn_state (conn s) \<noteq> kDisconnected
      | StopReadTask # ts \<Rightarrow> conn_state (conn s) \<noteq> kDisconnected
      | _ \<Rightarrow> True)"
| "op_enabled (Api a) s \<longleftrightarrow> act_honest a \<and> (conn_state (conn s) = kDisconnected \<longrightarrow> quiet_act a)"
| "op_enabled (OtherSendBuffer b) s \<longleftrightarrow> buffer_inv b"
| "op_enabled DelayElapsed s \<longleftrightarrow> 0 < delayed s"
| "op_enabled _ s \<longleftrightarrow> True"

text \<open>A sequence of steps, each of which meets its condition in the state where it is taken.\<close>

primrec well_run :: "conn_callback \<Rightarrow> conn_callback \<Rightarrow> conn_op list \<Rightarrow> conn_sys \<Rightarrow> bool" where
  "well_run on_conn on_msg [] s \<longleftrightarrow> True"
| "well_run on_conn on_msg (x # xs) s \<longleftrightarrow> op_enabled x s \<and>
     (case run_op on_conn on_msg x s of Inl e \<Rightarrow> True | Inr s' \<Rightarrow> well_run on_conn on_msg xs s')"

lemma registered_mark [simp]:
  "registered a c (l\<lparr>currentActiveChannel := cur, handlingEvents := b\<rparr>) \<longleftrightarrow> registered a c l"
  by (simp add: registered_def poller_inv_def slot_ok_def interest_def)

lemma mark_simps [simp]:
  "open_conn c (mark_handling cur b s) \<longleftrightarrow> open_conn c s" "closed_conn c (mark_handling cur b s) \<longleftrightarrow> closed_conn c s"
  "conn_ok (mark_handling cur b s) \<longleftrightarrow> conn_ok s" "conn_inv (mark_handling None False s) \<longleftrightarrow> conn_ok s"
  "conn (mark_handling cur b s) = conn s" "tasks (mark_handling cur b s) = tasks s" "wire (mark_handling cur b s) = wire s"
  "accepted (mark_handling cur b s) = accepted s" "handling (mark_handling cur b s) \<longleftrightarrow> b"
  by (simp_all add: mark_handling_def conn_defs closed_conn_def conn_ok_def conn_inv_def)

lemma in_handler_keeps:
  "safe E conn_ok (f (mark_handling (Some (conn_chan (conn s))) True s)) \<Longrightarrow> safe E conn_inv (in_handler f s)"
  by (auto simp: in_handler_def intro: safe_bind)

lemma queue_keeps:
  assumes inv: "conn_inv s" and t: "t \<noteq> DestroyTask" "t = ShutdownTask \<longrightarrow> conn_state (conn s) \<noteq> kConnected"
    "raw_call t \<longrightarrow> conn_state (conn s) \<noteq> kDisconnected"
  shows "conn_inv (queue_task t s)"
proof -
  have "conn_ok (queue_task t s)" if "open_conn c s" for c
    using that t by (intro conn_okI(1) [of c]) (auto simp: conn_defs queue_task_def)
  moreover have "conn_ok (queue_task t s)" if cl: "closed_conn c s" for c
  proof (rule conn_okI(2))
    have "\<not> raw_call t" using cl t(3) by (auto simp: closed_conn_def)
    then show "closed_conn c (queue_task t s)" by (rule closed_keeps(1) [OF cl t(1)])
  qed
  ultimately show ?thesis using inv by (auto simp: conn_inv_def conn_ok_def [of s])
qed

lemma forceClose_keeps: "conn_inv s \<Longrightarrow> conn_inv (forceClose s)"
  using open_state(4) [OF open_state(3)] by (fastforce simp: forceClose_def conn_inv_def conn_ok_def closed_conn_def)

lemma delayed_keeps: "conn_inv s \<Longrightarrow> conn_inv (s\<lparr>delayed := n\<rparr>)"
  by (auto simp: conn_inv_def conn_ok_def intro: open_state(5) closed_keeps(2) [OF _ conn_task.distinct(7)])

lemma disconnecting_keeps: "conn_inv s \<Longrightarrow> conn_state (conn s) = kConnected \<Longrightarrow> conn_inv (set_state kDisconnecting s)"
  by (auto simp: conn_inv_def conn_ok_def closed_conn_def intro: open_state(3))

lemma asks_ok:
  assumes "conn_ok s" and "asks p s" and "\<And>c. isNoneEvent c \<Longrightarrow> \<not> p c"
  shows "\<exists>c. open_conn c s"
  using assms by (auto simp: conn_ok_def asks_def closed_conn_def channel_of_def)

lemma handleRead_keeps:
  assumes op: "open_conn c s" and cbs: "honest_callback on_msg" "quiet_callback on_conn"
    and io: "case io of ReadError e \<Rightarrow> True | ReadBytes d \<Rightarrow> length d \<le> iov_capacity (inputBuffer (conn s))"
  shows "safe {OutOfBounds} conn_ok (handleRead on_conn on_msg io s)"
proof (cases io)
  case (ReadError e)
  with conn_okI(1) [OF op] show ?thesis by (simp add: handleRead_def on_readable_def readFd_def)
next
  case (ReadBytes d)
  obtain b where b: "readFd io (inputBuffer (conn s)) = Inr (int (length d), None, b)" "buffer_inv b"
    using readFd_Inr [of "inputBuffer (conn s)" d] op io ReadBytes by (auto simp: open_conn_def buffers_ok_def)
  let ?s = "s\<lparr>conn := (conn s)\<lparr>inputBuffer := b\<rparr>\<rparr>"
  have op': "open_conn c ?s" by (rule open_input [OF op b(2)])
  show ?thesis
  proof (cases "d = []")
    case True
    with handleClose_ok [OF op' cbs(2)] b(1) show ?thesis by (auto simp: handleRead_def on_readable_def intro: conn_okI)
  next
    case False
    have "safe {OutOfBounds} conn_ok (call_back on_msg Message ?s)"
      using call_back_open [OF op', of on_msg] cbs(1) by (auto simp: honest_callback_def intro: safe_weaken conn_okI)
    with False b(1) show ?thesis by (simp add: handleRead_def on_readable_def Let_def)
  qed
qed

lemma handleWrite_keeps:
  assumes "conn_ok s" and honest: "write_honest out (readableBytes (outputBuffer (conn s)))"
  shows "safe {} conn_ok (handleWrite out s)"
proof -
  consider c where "open_conn c s" | c where "closed_conn c s" using assms(1) by (auto simp: conn_ok_def)
  then show ?thesis
  proof cases
    case (1 c)
    then have "length (contents (outputBuffer (conn s))) = readableBytes (outputBuffer (conn s))"
      by (simp add: open_conn_def buffers_ok_def length_contents)
    with handleWrite_ok [OF 1, of out] honest show ?thesis by (auto intro: conn_okI)
  next
    case (2 c)
    then have "channel_of s = Inr c" "\<not> isWriting c" using isWriting_not_none by (auto simp: closed_conn_def channel_of_def)
    with conn_okI(2) [OF 2] show ?thesis by (simp add: handleWrite_def)
  qed
qed

lemma connectDestroyed_ok:
  assumes "closed_conn c (s\<lparr>tasks := DestroyTask # tasks s\<rparr>)" and idle: "\<not> handling s"
  shows "\<exists>s' c'. connectDestroyed on_conn s = Inr s' \<and> closed_conn c' s' \<and> destroys s' = 0 \<and>
    map_of (channels (cloop s')) (fd c') = None \<and> \<not> handling s'"
proof -
  have reg: "registered (conn_chan (conn s)) c (cloop s)" and c: "isNoneEvent c"
      "conn_state (conn s) = kDisconnected" "destroys s = 0"
    using assms by (auto simp: closed_conn_def destroys_def)
  obtain l where l: "channel_remove (conn_chan (conn s)) (cloop s) = Inr l" "others_kept (conn_chan (conn s)) (fd c) (cloop s) l"
      "chans l (conn_chan (conn s)) = Some (c\<lparr>addedToLoop := False\<rparr>)" "map_of (channels l) (fd c) = None"
    using remove_registered [OF reg c(1)] idle by auto
  have "connectDestroyed on_conn s = Inr (s\<lparr>cloop := l\<rparr>)"
    using l(1) c(2) by (simp add: connectDestroyed_def on_channel_def)
  moreover have "closed_conn (c\<lparr>addedToLoop := False\<rparr>) (s\<lparr>cloop := l\<rparr>)"
    using assms l(2-4) c
    by (auto simp: closed_conn_def destroys_def buffers_ok_def lifecycle_def isNoneEvent_def after_destroy_Cons)
  moreover have "\<not> handlingEvents l" using idle l(2) by (simp add: others_kept_def same_loop_def)
  ultimately show ?thesis using c(3) l(4) by (intro exI [of _ "s\<lparr>cloop := l\<rparr>"] exI [of _ "c\<lparr>addedToLoop := False\<rparr>"])
    (auto simp: destroys_def)
qed

lemma next_task_open:
  assumes "open_conn c s" and "tasks s = t # ts"
  shows "open_conn c (s\<lparr>tasks := ts\<rparr>)" and "t \<noteq> DestroyTask"
  using assms by (auto simp: conn_defs split: if_splits)

lemma next_task_closed:
  assumes "closed_conn c s" and "tasks s = t # ts" and "t \<noteq> DestroyTask"
  shows "closed_conn c (s\<lparr>tasks := ts\<rparr>)"
  using assms by (auto simp: closed_conn_def buffers_ok_def lifecycle_def destroys_def after_destroy_Cons)

lemma run_task_open:
  assumes op: "open_conn c s" and t: "t \<noteq> DestroyTask"
    and send: "\<And>owned msg. t = SendTask owned msg \<Longrightarrow> (owned \<or> alive) \<and> write_honest out (passed msg) \<and> (shut s \<longrightarrow> failed_for_good out)"
    and shut: "t = ShutdownTask \<Longrightarrow> conn_state (conn s) = kDisconnecting" and quiet: "quiet_callback on_conn"
  shows "safe {OutOfBounds} conn_ok (run_task on_conn alive out t s)"
proof (cases t)
  case ForceCloseTask
  with handleClose_ok [OF op quiet] op show ?thesis by (auto simp: forceCLoseInLoop_def intro: conn_okI)
next
  case ShutdownTask
  with shutdownInLoop_ok [OF op] shut show ?thesis by (simp add: conn_okI)
next
  case (SendTask owned msg)
  with send_int_ok [OF op, of out msg] send show ?thesis by (auto simp: sendInLoop_string_def intro: safe_weaken conn_okI)
next
  case StartReadTask
  with read_interest_ok(1) [OF op] show ?thesis by (auto intro: conn_okI)
next
  case StopReadTask
  with read_interest_ok(2) [OF op] show ?thesis by (auto intro: conn_okI)
qed (use op t in \<open>auto intro: conn_okI\<close>)

lemma run_task_closed:
  assumes cl: "closed_conn c s" and t: "t \<noteq> DestroyTask" "t \<noteq> StartReadTask" "t \<noteq> StopReadTask"
    and bytes: "\<And>owned msg. t = SendTask owned msg \<Longrightarrow> owned \<or> alive"
  shows "safe {} conn_ok (run_task on_conn alive out t s)"
proof -
  have st: "conn_state (conn s) = kDisconnected" "channel_of s = Inr c" "isNoneEvent c"
    using cl by (auto simp: closed_conn_def channel_of_def)
  show ?thesis
  proof (cases t)
    case ShutdownTask
    have "\<not> isWriting c" using st(3) isWriting_not_none by blast
    moreover have "closed_conn c (s\<lparr>shut := True\<rparr>)" using cl by (simp add: closed_conn_def buffers_ok_def lifecycle_def destroys_def)
    ultimately show ?thesis using ShutdownTask st by (auto simp: shutdownInLoop_def intro: conn_okI)
  qed (use st t cl bytes in \<open>auto simp: forceCLoseInLoop_def sendInLoop_string_def sendInLoop_int_def sendInLoop_negative_def sendInLoop_def
      intro: conn_okI\<close>)
qed

lemma alive_next:
  assumes ok: "conn_ok s" and t: "tasks s = t # ts" and "conn_state (conn s) = kDisconnected \<longrightarrow> t \<noteq> StartReadTask \<and> t \<noteq> StopReadTask"
  shows "conn_alive s"
proof -
  have "Closed \<notin> set (calls s)" if "lifecycle s = [Up]"
  proof
    assume "Closed \<in> set (calls s)"
    then have "Closed \<in> set (lifecycle s)" by (simp add: lifecycle_def)
    with that show False by simp
  qed
  then have "conn_alive s" if "open_conn c s" for c using that by (simp add: open_conn_def conn_alive_def)
  moreover have "conn_alive s" if cl: "closed_conn c s" for c
  proof (cases "DestroyTask \<in> set (tasks s)")
    case False
    then have "\<not> raw_call t" using cl t destroys_pos [of s] by (auto simp: closed_conn_def)
    moreover have "t \<noteq> StartReadTask" "t \<noteq> StopReadTask" using assms(3) cl by (simp_all add: closed_conn_def)
    ultimately have "holds_conn t" by (cases t) (auto simp: raw_call_def)
    with t show ?thesis by (auto simp: conn_alive_def)
  qed (auto simp: conn_alive_def intro: bexI [of _ DestroyTask])
  ultimately show ?thesis using ok by (auto simp: conn_ok_def)
qed

lemma run_task_handling:
  assumes "t \<noteq> DestroyTask" and "run_task on_conn alive out t s = Inr s'"
  shows "handling s' = handling s"
  using assms by (cases t) (auto simp: forceCLoseInLoop_def sendInLoop_string_def split: if_splits
      dest: handleClose_handling shutdownInLoop_handling sendInLoop_int_handling read_interest_handling)

lemma run_next_task:
  assumes inv: "conn_inv s" and en: "op_enabled (RunTask alive out) s" and quiet: "quiet_callback on_conn"
  shows "safe {OutOfBounds} conn_inv (run_next on_conn alive out s)"
proof (cases "tasks s")
  case Nil
  with inv show ?thesis by (simp add: run_next_def)
next
  case t: (Cons t ts)
  have idle: "\<not> handling s" and ok: "conn_ok s" using inv by (simp_all add: conn_inv_def)
  let ?s = "s\<lparr>tasks := ts\<rparr>"
  have read: "conn_state (conn s) = kDisconnected \<longrightarrow> t \<noteq> StartReadTask \<and> t \<noteq> StopReadTask" using en t by auto
  then have run: "run_next on_conn alive out s = run_task on_conn alive out t ?s"
    using alive_next [OF ok t] t by (simp add: run_next_def)
  have sends: "t = SendTask owned msg \<Longrightarrow> (owned \<or> alive) \<and> write_honest out (passed msg) \<and> (shut ?s \<longrightarrow> failed_for_good out)" for owned msg
    using en t by simp
  consider c where "open_conn c s" | c where "closed_conn c s" "t = DestroyTask" | c where "closed_conn c s" "t \<noteq> DestroyTask"
    using ok by (auto simp: conn_ok_def)
  then show ?thesis
  proof cases
    case (1 c)
    note n = next_task_open [OF 1 t]
    have "t = ShutdownTask \<Longrightarrow> conn_state (conn ?s) = kDisconnecting" using 1 t by (auto simp: open_conn_def)
    from run_task_open [OF n sends this quiet] have "safe {OutOfBounds} conn_ok (run_task on_conn alive out t ?s)" .
    then show ?thesis unfolding run by (rule safe_conn_inv) (use run_task_handling [OF n(2)] idle in fastforce)
  next
    case (2 c)
    have "s = ?s\<lparr>tasks := DestroyTask # tasks ?s\<rparr>" using t 2(2) by simp
    with 2(1) have "closed_conn c (?s\<lparr>tasks := DestroyTask # tasks ?s\<rparr>)" by argo
    from connectDestroyed_ok [OF this, of on_conn] idle run 2(2) show ?thesis by (auto simp: conn_inv_def intro: conn_okI)
  next
    case (3 c)
    have "conn_state (conn s) = kDisconnected" using 3 by (simp add: closed_conn_def)
    then have "t \<noteq> StartReadTask" "t \<noteq> StopReadTask" using read by auto
    with run_task_closed [OF next_task_closed [OF 3(1) t 3(2)] 3(2)] sends
    have "safe {OutOfBounds} conn_ok (run_task on_conn alive out t ?s)" by (blast intro: safe_faults)
    then show ?thesis unfolding run by (rule safe_conn_inv) (use run_task_handling [OF 3(2)] idle in fastforce)
  qed
qed

lemma run_other:
  assumes inv: "conn_inv s"
  shows "safe {OutOfBounds} conn_inv (run_op on_conn on_msg (OtherSend msg) s)"
    and "buffer_inv b \<Longrightarrow> safe {OutOfBounds} conn_inv (run_op on_conn on_msg (OtherSendBuffer b) s)"
    and "safe {OutOfBounds} conn_inv (run_op on_conn on_msg OtherShutdown s)"
    and "safe {OutOfBounds} conn_inv (run_op on_conn on_msg OtherStartRead s)"
    and "safe {OutOfBounds} conn_inv (run_op on_conn on_msg OtherStopRead s)"
proof -
  show "safe {OutOfBounds} conn_inv (run_op on_conn on_msg (OtherSend msg) s)"
    using inv queue_keeps [OF inv, of "SendTask False msg"] by (simp add: send_def)
  show "safe {OutOfBounds} conn_inv (run_op on_conn on_msg OtherShutdown s)"
  proof (cases "conn_state (conn s) = kConnected")
    case True
    have "conn_inv (queue_task ShutdownTask (set_state kDisconnecting s))"
      by (rule queue_keeps [OF disconnecting_keeps [OF inv True]]) (simp_all add: set_state_def)
    with True show ?thesis by (simp add: shutdown_def)
  qed (use inv in \<open>simp add: shutdown_def\<close>)
  show "safe {OutOfBounds} conn_inv (run_op on_conn on_msg OtherStartRead s)"
    using queue_keeps [OF inv, of StartReadTask] by (simp add: startRead_def raw_call_def)
  show "safe {OutOfBounds} conn_inv (run_op on_conn on_msg OtherStopRead s)"
    using queue_keeps [OF inv, of StopReadTask] by (simp add: stopRead_def raw_call_def)
  assume "buffer_inv b"
  then obtain str b' where "retrieveAllAsString b = Inr (str, b')"
    using retrieve_ok [of b "readableBytes b"] by (auto simp: retrieveAllAsString_def retrieveAsString_def Let_def)
  then show "safe {OutOfBounds} conn_inv (run_op on_conn on_msg (OtherSendBuffer b) s)"
    using inv queue_keeps [OF inv, of "SendTask True str"] by (simp add: send_buffer_def)
qed

lemma run_event:
  assumes ok: "conn_ok s" and cbs: "honest_callback on_msg" "quiet_callback on_conn"
  shows "op_enabled (EvRead io) s \<Longrightarrow> safe {OutOfBounds} conn_inv (run_op on_conn on_msg (EvRead io) s)"
    and "op_enabled (EvWrite out) s \<Longrightarrow> safe {OutOfBounds} conn_inv (run_op on_conn on_msg (EvWrite out) s)"
    and "op_enabled EvHup s \<Longrightarrow> safe {OutOfBounds} conn_inv (run_op on_conn on_msg EvHup s)"
proof -
  let ?s = "mark_handling (Some (conn_chan (conn s))) True s"
  show "safe {OutOfBounds} conn_inv (run_op on_conn on_msg (EvRead io) s)" if "op_enabled (EvRead io) s"
  proof -
    have "\<exists>c. open_conn c s"
      by (rule asks_ok [OF ok, of isReading]) (use that in \<open>auto simp: isReading_def isNoneEvent_def kNoneEvent_def\<close>)
    then obtain c where "open_conn c ?s" by auto
    from handleRead_keeps [OF this cbs, of io] that have "safe {OutOfBounds} conn_ok (handleRead on_conn on_msg io ?s)"
      by (cases io) simp_all
    then show ?thesis by (simp add: in_handler_keeps)
  qed
  show "safe {OutOfBounds} conn_inv (run_op on_conn on_msg (EvWrite out) s)" if "op_enabled (EvWrite out) s"
    using handleWrite_keeps [of ?s out] that ok by (auto intro: in_handler_keeps safe_faults)
  show "safe {OutOfBounds} conn_inv (run_op on_conn on_msg EvHup s)" if "op_enabled EvHup s"
  proof -
    have "\<exists>c. open_conn c s" by (rule asks_ok [OF ok, of "\<lambda>c. \<not> isNoneEvent c"]) (use that in auto)
    then obtain c where "open_conn c ?s" by auto
    from handleClose_ok [OF this cbs(2)] show ?thesis by (auto intro!: in_handler_keeps conn_okI)
  qed
qed

lemma run_op_keeps:
  assumes inv: "conn_inv s" and cbs: "honest_callback on_msg" "quiet_callback on_conn" and en: "op_enabled x s"
  shows "safe {OutOfBounds} conn_inv (run_op on_conn on_msg x s)"
proof -
  have ok: "conn_ok s" "\<not> handling s" using inv by (simp_all add: conn_inv_def)
  show ?thesis
  proof (cases x)
    case (RunTask alive out)
    with run_next_task [OF inv _ cbs(2)] en show ?thesis by simp
  next
    case (Api a)
    have "safe {OutOfBounds} conn_ok (perform_conn a s)" using perform_keeps_ok [OF ok(1), of a] en Api by simp
    then show ?thesis using ok(2) perform_handling [of a s] Api by (auto intro!: safe_conn_inv)
  next
    case OtherForceClose
    with forceClose_keeps [OF inv] show ?thesis by simp
  next
    case DelayElapsed
    with forceClose_keeps [OF delayed_keeps [OF inv]] delayed_keeps [OF inv] show ?thesis by (simp add: weak_callback_def)
  qed (use run_other [OF inv] run_event [OF ok(1) cbs] en in simp_all)
qed

lemma well_run_append:
  "well_run on_conn on_msg (xs @ ys) s \<longleftrightarrow> well_run on_conn on_msg xs s \<and>
    (case for_r xs (run_op on_conn on_msg) s of Inl e \<Rightarrow> True | Inr s' \<Rightarrow> well_run on_conn on_msg ys s')"
  by (induction xs arbitrary: s) (auto split: sum.splits)

lemma well_run_keeps:
  assumes "conn_inv s" and "honest_callback on_msg" "quiet_callback on_conn" and "well_run on_conn on_msg xs s"
  shows "safe {OutOfBounds} conn_inv (for_r xs (run_op on_conn on_msg) s)"
  using assms
proof (induction xs arbitrary: s)
  case (Cons x xs)
  have "safe {OutOfBounds} conn_inv (run_op on_conn on_msg x s)" using run_op_keeps [of s on_msg on_conn x] Cons.prems by simp
  then show ?case using Cons.IH Cons.prems by (cases "run_op on_conn on_msg x s") auto
qed simp

text \<open>The establishment of a new connection.\<close>

lemma connectEstablished_run:
  assumes l: "can_connect a f l" and new: "new_TcpConnection name a f l = Inr s"
  shows "\<exists>s1 c. connectEstablished on_conn s = for_r (on_conn s1) perform_conn s1 \<and> open_conn c s1 \<and> \<not> isNoneEvent c \<and>
    conn_state (conn s1) = kConnected \<and> contents (outputBuffer (conn s1)) = [] \<and> wire s1 = [] \<and> \<not> shut s1 \<and> \<not> handling s1 \<and>
    tasks s1 = [] \<and> \<not> has_writeComplete (conn s1) \<and> \<not> has_highWater (conn s1) \<and>
    fd c = f \<and> conn_name (conn s1) = name \<and> self (cloop s1) = self l \<and> contents (inputBuffer (conn s1)) = []"
proof -
  define c where "c = setCallback ErrorEv (setCallback CloseEv (setCallback WriteEv (setCallback ReadEv (new_Channel (self l) f))))"
  define t where "t = set_tie c"
  obtain b where b: "new_buffer kInitialSize = Inr b" "buffer_inv b" "contents b = []"
    using new_buffer_inv new_buffer_iff by metis
  have s: "conn_chan (conn s) = a" "cloop s = put_chan a c l" "conn_state (conn s) = kConnecting" "buffers_ok s" "tasks s = []"
      "calls s = []" "\<not> shut s" "contents (outputBuffer (conn s)) = []" "wire s = []" "\<not> has_writeComplete (conn s)" "\<not> has_highWater (conn s)"
      "conn_name (conn s) = name" "contents (inputBuffer (conn s)) = []"
    using new b by (auto simp: new_TcpConnection_def buffers_ok_def c_def)
  have t: "fd t = f" "ownerLoop t = self l" "index t < 0" "events t = 0" "put_chan a t (cloop s) = put_chan a t l"
    by (simp_all add: t_def c_def set_tie_def s(2) put_chan_def)
  obtain l' i where l': "update a (\<lambda>e. e OR kReadEvent) (put_chan a t l) = Inr l'" "same_loop l l'"
      "registered a (t\<lparr>events := events t OR kReadEvent, addedToLoop := True, index := i\<rparr>) l'"
    using tied_registers [of a t l] l t by auto
  let ?s1 = "((set_state kConnected s)\<lparr>cloop := l'\<rparr>)\<lparr>calls := calls s @ [Up]\<rparr>"
  have ch: "channel_of s = Inr c" using s(1,2) by (simp add: channel_of_def put_chan_def get_chan_def)
  have run: "connectEstablished on_conn s = for_r (on_conn ?s1) perform_conn ?s1"
    using l'(1) s(1,3) ch t(5)
    by (simp add: connectEstablished_def on_channel_def enableReading_def call_back_def set_state_def Let_def t_def)
  have "\<not> isWriting (t\<lparr>events := events t OR kReadEvent, addedToLoop := True, index := i\<rparr>)"
    using masks(3) [where c = t and t = True and i = i] t(4) by (simp add: isWriting_def)
  then have "open_conn (t\<lparr>events := events t OR kReadEvent, addedToLoop := True, index := i\<rparr>) ?s1"
    using l'(3) s unfolding conn_defs set_state_def by simp
  moreover have "\<not> isNoneEvent (t\<lparr>events := events t OR kReadEvent, addedToLoop := True, index := i\<rparr>)"
    by (simp add: isNoneEvent_def t(4) kReadEvent_def kNoneEvent_def POLLIN_def POLLPRI_def)
  moreover have "fd (t\<lparr>events := events t OR kReadEvent, addedToLoop := True, index := i\<rparr>) = f" using t(1) by simp
  moreover have "conn_state (conn ?s1) = kConnected" "contents (outputBuffer (conn ?s1)) = []" "wire ?s1 = []" "\<not> shut ?s1" "\<not> handling ?s1" "tasks ?s1 = []"
      "\<not> has_writeComplete (conn ?s1)" "\<not> has_highWater (conn ?s1)" "conn_name (conn ?s1) = name" "self (cloop ?s1) = self l"
      "contents (inputBuffer (conn ?s1)) = []"
    using s l'(2) l by (simp_all add: set_state_def same_loop_def can_connect_def)
  ultimately show ?thesis using run by blast
qed

lemma connectEstablished_ok:
  assumes "can_connect a f l" and "new_TcpConnection name a f l = Inr s" and cb: "honest_callback on_conn"
  shows "safe {OutOfBounds} conn_inv (connectEstablished on_conn s)"
proof -
  obtain s1 c where s1: "connectEstablished on_conn s = for_r (on_conn s1) perform_conn s1" "open_conn c s1" "\<not> handling s1"
    using connectEstablished_run [OF assms(1,2)] by blast
  have "safe {OutOfBounds} conn_ok (for_r (on_conn s1) perform_conn s1)"
    using perform_all_open [OF s1(2), of "on_conn s1"] cb by (auto simp: honest_callback_def intro: safe_weaken conn_okI)
  then show ?thesis unfolding s1(1) by (rule safe_conn_inv) (use perform_all_handling s1(3) in blast)
qed

section \<open>Properties\<close>

lemma conn_inv_facts:
  assumes "conn_inv s"
  shows "wire s @ contents (outputBuffer (conn s)) = accepted s \<and>
    (conn_state (conn s) = kConnected \<or> conn_state (conn s) = kDisconnecting \<longrightarrow>
       lifecycle s = [Up] \<and> destroys s = 0 \<and> (asks isWriting s \<longleftrightarrow> contents (outputBuffer (conn s)) \<noteq> []) \<and>
       (shut s \<longrightarrow> contents (outputBuffer (conn s)) = [])) \<and>
    (conn_state (conn s) = kDisconnected \<longrightarrow> lifecycle s = [Up, Down, Closed] \<and> destroys s \<le> 1 \<and> \<not> asks (\<lambda>c. \<not> isNoneEvent c) s) \<and>
    conn_state (conn s) \<noteq> kConnecting"
proof -
  consider c where "open_conn c s" | c where "closed_conn c s" using assms by (auto simp: conn_inv_def conn_ok_def)
  then show ?thesis
  proof cases
    case (1 c)
    then have "channel_of s = Inr c" by (simp add: open_conn_def)
    then have "asks isWriting s \<longleftrightarrow> isWriting c" by (simp add: asks_def)
    with 1 show ?thesis by (auto simp: open_conn_def buffers_ok_def)
  next
    case (2 c)
    then have "\<not> asks (\<lambda>c. \<not> isNoneEvent c) s" by (simp add: closed_conn_def asks_def channel_of_def)
    with 2 show ?thesis by (auto simp: closed_conn_def buffers_ok_def)
  qed
qed


lemma sample_new: "\<exists>s. new_TcpConnection ''c'' 10 5 (new_Loop 1) = Inr s"
proof -
  obtain b where "new_buffer kInitialSize = Inr b" using new_buffer_iff by blast
  then show ?thesis by (simp add: new_TcpConnection_def)
qed

text \<open>A connection that has just come up.\<close>

lemma sample_open:
  "\<exists>s0 s c. new_TcpConnection ''c'' 10 5 (new_Loop 1) = Inr s0 \<and> connectEstablished defaultConnectionCallback s0 = Inr s \<and>
    open_conn c s \<and> \<not> isNoneEvent c \<and> conn_state (conn s) = kConnected \<and> contents (outputBuffer (conn s)) = [] \<and> wire s = [] \<and>
    \<not> shut s \<and> \<not> handling s \<and> tasks s = [] \<and> \<not> has_writeComplete (conn s) \<and> \<not> has_highWater (conn s)"
proof -
  obtain s0 where s0: "new_TcpConnection ''c'' 10 5 (new_Loop 1) = Inr s0" using sample_new by blast
  from connectEstablished_run [OF sample_can_connect this, of defaultConnectionCallback] s0 show ?thesis
    by (auto simp: defaultConnectionCallback_def)
qed

text \<open>
  A run: another thread sends five bytes, of which the kernel takes two and then three; the connection is closed and destroyed.
\<close>

lemma on_channel_rest: "on_channel f s = Inr s' \<Longrightarrow> tasks s' = tasks s \<and> has_writeComplete (conn s') = has_writeComplete (conn s)"
  by (auto simp: on_channel_def result_simps)

lemma buffer_rest_tasks:
  "buffer_rest msg n k s = Inr s' \<Longrightarrow> \<not> has_highWater (conn s) \<Longrightarrow>
    tasks s' = tasks s \<and> has_writeComplete (conn s') = has_writeComplete (conn s)"
  by (auto simp: buffer_rest_def note_highWater_def Let_def result_simps split: if_splits dest!: on_channel_rest)

lemma no_callback_tasks:
  assumes "\<not> has_writeComplete (conn s)" and "\<not> has_highWater (conn s)"
  shows "sendInLoop out msg s = Inr s' \<Longrightarrow> tasks s' = tasks s \<and> \<not> has_writeComplete (conn s')"
proof -
  assume "sendInLoop out msg s = Inr s'"
  then show ?thesis using assms
    by (auto simp: sendInLoop_def Let_def result_simps split: if_splits write_out.splits dest!: buffer_rest_tasks)
qed

definition sample_ops :: "conn_op list" where
  "sample_ops = [OtherSend ''hello'', RunTask True (Wrote 2), EvWrite (Wrote 3), OtherForceClose, RunTask True (Wrote 0), RunTask True (Wrote 0)]"

lemma sample_quiet: "honest_callback defaultConnectionCallback" "honest_callback defaultMessageCallback"
    "quiet_callback defaultConnectionCallback"
  by (simp_all add: honest_callback_def quiet_callback_def defaultConnectionCallback_def defaultMessageCallback_def act_honest_def)

text \<open>Its three parts: sending, draining, closing.\<close>

lemma sample_send:
  assumes s: "open_conn c s" "conn_state (conn s) = kConnected" "contents (outputBuffer (conn s)) = []" "wire s = []" "\<not> shut s"
      "\<not> handling s" "tasks s = []" "\<not> has_writeComplete (conn s)" "\<not> has_highWater (conn s)"
  shows "\<exists>s' c'. for_r (take 2 sample_ops) (run_op on_conn on_msg) s = Inr s' \<and> well_run on_conn on_msg (take 2 sample_ops) s \<and>
    open_conn c' s' \<and> conn_state (conn s') = kConnected \<and> contents (outputBuffer (conn s')) = ''llo'' \<and> wire s' = ''he'' \<and>
    \<not> handling s' \<and> tasks s' = [] \<and> \<not> has_writeComplete (conn s')"
proof -
  have q: "open_conn c (queue_task (SendTask False ''hello'') s)" using s(1) by (auto simp: conn_defs queue_task_def)
  have self: "s\<lparr>tasks := []\<rparr> = s" using s(7) by (cases s) simp
  have "conn_alive (queue_task (SendTask False ''hello'') s)"
    by (rule alive_next [OF conn_okI(1) [OF q], of "SendTask False ''hello''" "[]"]) (use s(7) in \<open>simp_all add: queue_task_def\<close>)
  then have "run_next on_conn True (Wrote 2) (queue_task (SendTask False ''hello'') s) = sendInLoop (Wrote 2) ''hello'' (s\<lparr>tasks := []\<rparr>)"
    using s(7) sendInLoop_int_small [of "''hello''"] by (simp add: run_next_def queue_task_def sendInLoop_string_def)
  then have next_run: "run_next on_conn True (Wrote 2) (queue_task (SendTask False ''hello'') s) = sendInLoop (Wrote 2) ''hello'' s"
    unfolding self .
  obtain s' c' where s': "sendInLoop (Wrote 2) ''hello'' s = Inr s'" "open_conn c' s'" "conn_state (conn s') = kConnected"
      "accepted s' = ''hello''" "wire s' = ''he''"
    using sendInLoop_idle [OF s(1,3), of "Wrote 2" "''hello''"] s open_idle(3) [OF s(1,3)]
    by (auto simp: write_honest_def failed_for_good_def)
  then have "contents (outputBuffer (conn s')) = ''llo''" by (simp add: open_conn_def buffers_ok_def)
  moreover have "op_enabled (RunTask True (Wrote 2)) (queue_task (SendTask False ''hello'') s)"
    using s(5,7) by (simp add: queue_task_def write_honest_def passed_small)
  ultimately show ?thesis
    using next_run s' s no_callback_tasks [OF s(8,9) s'(1)] sendInLoop_handling [OF s'(1)]
    by (simp add: sample_ops_def send_def del: op_enabled.simps) (auto simp: queue_task_def)
qed

lemma sample_drain:
  assumes s: "open_conn c s" "conn_state (conn s) = kConnected" "contents (outputBuffer (conn s)) = ''llo''" "wire s = ''he''"
      "tasks s = []" "\<not> has_writeComplete (conn s)"
  shows "\<exists>s' c'. run_op on_conn on_msg (EvWrite (Wrote 3)) s = Inr s' \<and> op_enabled (EvWrite (Wrote 3)) s \<and>
    open_conn c' s' \<and> conn_state (conn s') = kConnected \<and> wire s' = ''hello'' \<and> \<not> handling s' \<and> tasks s' = []"
proof -
  let ?m = "mark_handling (Some (conn_chan (conn s))) True s"
  have "accepted s = ''hello''" using s by (simp add: open_conn_def buffers_ok_def)
  then have m: "open_conn c ?m" "contents (outputBuffer (conn ?m)) = ''llo''" "tasks ?m = []" "accepted ?m = ''hello''"
    using s by simp_all
  obtain s' c' where s': "handleWrite (Wrote 3) ?m = Inr s'" "open_conn c' s'" "accepted s' = ''hello''" "conn_state (conn s') = kConnected"
      "contents (outputBuffer (conn s')) = []" "tasks s' = []"
    using handleWrite_ok [OF m(1), of "Wrote 3"] m s(2,6) by (auto simp: write_honest_def)
  have "wire s' = ''hello''" using s'(2,3,5) by (simp add: open_conn_def buffers_ok_def)
  moreover have "op_enabled (EvWrite (Wrote 3)) s"
    using s(1,3) length_contents [of "outputBuffer (conn s)"] by (simp add: write_honest_def open_conn_def buffers_ok_def)
  moreover have "run_op on_conn on_msg (EvWrite (Wrote 3)) s = Inr (mark_handling None False s')" using s'(1) by (simp add: in_handler_def)
  ultimately show ?thesis using s'
    by (intro exI [of _ "mark_handling None False s'"] exI [of _ c']) simp
qed


lemma sample_close:
  assumes s: "open_conn c s" "conn_state (conn s) = kConnected" "\<not> handling s" "tasks s = []" and quiet: "quiet_callback on_conn"
  shows "\<exists>s' c'. for_r (drop 3 sample_ops) (run_op on_conn on_msg) s = Inr s' \<and> well_run on_conn on_msg (drop 3 sample_ops) s \<and>
    closed_conn c' s' \<and> destroys s' = 0 \<and> wire s' = wire s"
proof -
  define s1 where "s1 = forceClose s"
  have s1: "open_conn c s1" "tasks s1 = [ForceCloseTask]" "\<not> handling s1" "conn_state (conn s1) = kDisconnecting" "wire s1 = wire s"
    using s open_state(4) [OF open_state(3) [OF s(1)]] by (simp_all add: s1_def forceClose_def queue_task_def set_state_def)
  let ?t = "s1\<lparr>tasks := []\<rparr>"
  obtain s2 c2 where s2: "handleClose on_conn ?t = Inr s2" "closed_conn c2 s2" "tasks s2 = [DestroyTask]" "wire s2 = wire s"
    using handleClose_ok [OF next_task_open(1) [OF s1(1,2)] quiet] s1(5) by auto
  have idle: "\<not> handling (s2\<lparr>tasks := []\<rparr>)" using handleClose_handling [OF s2(1)] s1(3) by simp
  have run1: "run_next on_conn True (Wrote 0) s1 = Inr s2"
    using alive_next [OF conn_okI(1) [OF s1(1)] s1(2)] s1(2,4) s2(1) by (simp add: run_next_def forceCLoseInLoop_def)
  have "s2 = s2\<lparr>tasks := DestroyTask # tasks (s2\<lparr>tasks := []\<rparr>)\<rparr>" using s2(3) by (cases s2) simp
  then have "closed_conn c2 (s2\<lparr>tasks := []\<rparr>\<lparr>tasks := DestroyTask # tasks (s2\<lparr>tasks := []\<rparr>)\<rparr>)" using s2(2) by simp
  from connectDestroyed_ok [OF this idle, of on_conn] obtain s3 c3
    where s3: "connectDestroyed on_conn (s2\<lparr>tasks := []\<rparr>) = Inr s3" "closed_conn c3 s3" "destroys s3 = 0" by blast
  then have "run_next on_conn True (Wrote 0) s2 = Inr s3"
    using alive_next [OF conn_okI(2) [OF s2(2)] s2(3)] s2(3) by (simp add: run_next_def)
  moreover have "wire s3 = wire s"
    using s3(1) s2(2,4) by (auto simp: connectDestroyed_def on_channel_def closed_conn_def result_simps)
  ultimately show ?thesis using run1 s1(2) s2(3) s3 by (auto simp: sample_ops_def s1_def [symmetric])
qed

lemma sample_run:
  "\<exists>s0 s s' c. new_TcpConnection ''c'' 10 5 (new_Loop 1) = Inr s0 \<and> connectEstablished defaultConnectionCallback s0 = Inr s \<and>
    well_run defaultConnectionCallback defaultMessageCallback sample_ops s \<and>
    for_r sample_ops (run_op defaultConnectionCallback defaultMessageCallback) s = Inr s' \<and> closed_conn c s' \<and> wire s' = ''hello''"
proof -
  obtain s0 s c where s: "new_TcpConnection ''c'' 10 5 (new_Loop 1) = Inr s0" "connectEstablished defaultConnectionCallback s0 = Inr s"
      "open_conn c s" "conn_state (conn s) = kConnected" "contents (outputBuffer (conn s)) = []" "wire s = []" "\<not> shut s"
      "\<not> handling s" "tasks s = []" "\<not> has_writeComplete (conn s)" "\<not> has_highWater (conn s)"
    using sample_open by blast
  let ?run = "run_op defaultConnectionCallback defaultMessageCallback"
  obtain s1 c1 where s1: "for_r (take 2 sample_ops) ?run s = Inr s1"
      "well_run defaultConnectionCallback defaultMessageCallback (take 2 sample_ops) s"
      "open_conn c1 s1" "conn_state (conn s1) = kConnected" "contents (outputBuffer (conn s1)) = ''llo''" "wire s1 = ''he''"
      "tasks s1 = []" "\<not> has_writeComplete (conn s1)"
    using sample_send [OF s(3-)] by blast
  obtain s2 c2 where s2: "?run (EvWrite (Wrote 3)) s1 = Inr s2" "op_enabled (EvWrite (Wrote 3)) s1" "open_conn c2 s2"
      "conn_state (conn s2) = kConnected" "wire s2 = ''hello''" "\<not> handling s2" "tasks s2 = []"
    using sample_drain [OF s1(3-)] by blast
  obtain s3 c3 where s3: "for_r (drop 3 sample_ops) ?run s2 = Inr s3" "closed_conn c3 s3" "wire s3 = ''hello''"
      "well_run defaultConnectionCallback defaultMessageCallback (drop 3 sample_ops) s2"
    using sample_close [OF s2(3,4,6,7) sample_quiet(3), of defaultMessageCallback] s2(5) by auto
  have split: "sample_ops = take 2 sample_ops @ EvWrite (Wrote 3) # drop 3 sample_ops" by (simp add: sample_ops_def)
  have "for_r sample_ops ?run s = Inr s3"
    by (subst split) (use s1(1) s2(1) s3(1) in \<open>simp add: for_r_append del: run_op.simps\<close>)
  moreover have "well_run defaultConnectionCallback defaultMessageCallback sample_ops s"
    by (subst split) (use s1(1,2) s2(1,2) s3(4) in \<open>simp add: well_run_append del: run_op.simps op_enabled.simps\<close>)
  ultimately show ?thesis using s(1,2) s3(2,3) by blast
qed



text \<open>
  C17 (functional). \<^verbatim>\<open>sendInLoop\<close> on an open connection with nothing pending writes what the kernel takes and keeps the rest in
  the output buffer with the channel asking for writability, so that no byte is lost or reordered unless the peer is gone; with
  output pending it reads past the end of every message that is not empty, because \<^verbatim>\<open>nwrote\<close> starts at the length of the message.
\<close>

theorem sendInLoop_effect:
  assumes "open_conn c s" and "write_honest out (length msg)" and "shut s \<longrightarrow> failed_for_good out"
  shows "if contents (outputBuffer (conn s)) = []
    then \<exists>s' c'. sendInLoop out msg s = Inr s' \<and> open_conn c' s' \<and> handling s' = handling s \<and>
      wire s' = wire s @ (case out of Wrote n \<Rightarrow> take n msg | WriteFailed e \<Rightarrow> []) \<and>
      wire s' @ contents (outputBuffer (conn s')) = wire s @ (if failed_for_good out then [] else msg) \<and>
      (isWriting c' \<longleftrightarrow> contents (outputBuffer (conn s')) \<noteq> [])
    else sendInLoop out msg s = (if msg = [] then Inr s else Inl OutOfBounds)"
proof (cases "contents (outputBuffer (conn s)) = []")
  case True
  obtain s' c' where s': "sendInLoop out msg s = Inr s'" "open_conn c' s'" "accepted s' = accepted s @ (if failed_for_good out then [] else msg)"
      "wire s' = wire s @ (case out of Wrote n \<Rightarrow> take n msg | WriteFailed e \<Rightarrow> [])"
    using sendInLoop_idle [OF assms(1) True assms(2,3)] by blast
  moreover have "wire s = accepted s" using open_idle(3) [OF assms(1) True] .
  moreover have "wire s' @ contents (outputBuffer (conn s')) = accepted s'" "isWriting c' \<longleftrightarrow> contents (outputBuffer (conn s')) \<noteq> []"
    using s'(2) by (simp_all add: open_conn_def buffers_ok_def)
  ultimately show ?thesis using True sendInLoop_handling [OF s'(1)] by auto
qed (use sendInLoop_pending [OF assms(1)] in simp)

theorem sendInLoop_effect_witness:
  "\<exists>s0 s s1 c1. connectEstablished defaultConnectionCallback s0 = Inr s \<and> sendInLoop (Wrote 2) ''hello'' s = Inr s1 \<and>
    wire s1 = ''he'' \<and> contents (outputBuffer (conn s1)) = ''llo'' \<and> open_conn c1 s1 \<and> sendInLoop (Wrote 5) ''world'' s1 = Inl OutOfBounds"
proof -
  obtain s0 s c where s: "connectEstablished defaultConnectionCallback s0 = Inr s" "open_conn c s"
      "contents (outputBuffer (conn s)) = []" "wire s = []" "\<not> shut s"
    using sample_open by blast
  obtain s1 c1 where s1: "sendInLoop (Wrote 2) ''hello'' s = Inr s1" "open_conn c1 s1" "wire s1 = ''he''"
      "wire s1 @ contents (outputBuffer (conn s1)) = ''hello''"
    using sendInLoop_effect [OF s(2), of "Wrote 2" "''hello''"] s by (auto simp: write_honest_def failed_for_good_def)
  then have rest: "contents (outputBuffer (conn s1)) = ''llo''" by simp
  then have "\<not> shut s1" using s1(2) by (auto simp: open_conn_def)
  with sendInLoop_effect [OF s1(2), of "Wrote 5" "''world''"] rest s1 s(1) show ?thesis by (auto simp: write_honest_def)
qed

text \<open>
  C18 (functional). \<^verbatim>\<open>handleWrite\<close> moves what the kernel takes from the front of the output buffer to the wire, keeps the rest, and when
  the buffer runs empty stops asking for writability and completes a shutdown that was waiting for it.
\<close>

theorem handleWrite_drains:
  assumes "open_conn c s" and "contents (outputBuffer (conn s)) \<noteq> []" and "write_honest out (length (contents (outputBuffer (conn s))))"
  shows "\<exists>s' c'. handleWrite out s = Inr s' \<and> open_conn c' s' \<and> handling s' = handling s \<and>
    wire s' @ contents (outputBuffer (conn s')) = wire s @ contents (outputBuffer (conn s)) \<and>
    contents (outputBuffer (conn s')) = (case out of Wrote n \<Rightarrow> drop n (contents (outputBuffer (conn s)))
      | WriteFailed e \<Rightarrow> contents (outputBuffer (conn s))) \<and>
    (isWriting c' \<longleftrightarrow> contents (outputBuffer (conn s')) \<noteq> []) \<and>
    (contents (outputBuffer (conn s')) = [] \<and> conn_state (conn s) = kDisconnecting \<longrightarrow> shut s')"
proof -
  obtain s' c' where s': "handleWrite out s = Inr s'" "open_conn c' s'" "accepted s' = accepted s"
      "contents (outputBuffer (conn s')) = (case out of Wrote n \<Rightarrow> drop n (contents (outputBuffer (conn s)))
        | WriteFailed e \<Rightarrow> contents (outputBuffer (conn s)))"
      "contents (outputBuffer (conn s)) \<noteq> [] \<and> contents (outputBuffer (conn s')) = [] \<and> conn_state (conn s) = kDisconnecting \<longrightarrow> shut s'"
    using handleWrite_ok [OF assms(1,3)] by blast
  moreover have "wire s' @ contents (outputBuffer (conn s')) = accepted s'" "isWriting c' \<longleftrightarrow> contents (outputBuffer (conn s')) \<noteq> []"
    using s'(2) by (simp_all add: open_conn_def buffers_ok_def)
  moreover have "wire s @ contents (outputBuffer (conn s)) = accepted s" using assms(1) by (simp add: open_conn_def buffers_ok_def)
  ultimately show ?thesis using assms(2) handleWrite_handling [OF s'(1)] by auto
qed

theorem handleWrite_drains_witness:
  "\<exists>s1 s2. contents (outputBuffer (conn s1)) = ''llo'' \<and> handleWrite (Wrote 3) s1 = Inr s2 \<and>
    contents (outputBuffer (conn s2)) = [] \<and> wire s2 = ''hello''"
proof -
  obtain s0 s c where s: "connectEstablished defaultConnectionCallback s0 = Inr s" "open_conn c s"
      "contents (outputBuffer (conn s)) = []" "wire s = []" "\<not> shut s"
    using sample_open by blast
  obtain s1 c1 where s1: "open_conn c1 s1" "wire s1 = ''he''" "accepted s1 = ''hello''"
    using sendInLoop_idle [OF s(2,3), of "Wrote 2" "''hello''"] s(4,5) open_idle(3) [OF s(2,3)]
    by (auto simp: write_honest_def failed_for_good_def)
  then have rest: "contents (outputBuffer (conn s1)) = ''llo''" by (simp add: open_conn_def buffers_ok_def)
  from handleWrite_drains [OF s1(1), of "Wrote 3"] rest s1(2) show ?thesis by (auto simp: write_honest_def)
qed

lemma connectDestroyed_connected:
  assumes op: "open_conn c s" and st: "conn_state (conn s) = kConnected" and quiet: "quiet_callback on_conn" and out: "\<not> handling s"
  shows "\<exists>s'. connectDestroyed on_conn s = Inr s'"
proof -
  let ?s0 = "set_state kDisconnected s"
  have reg0: "registered (conn_chan (conn ?s0)) c (cloop ?s0)" using op by (simp add: open_conn_def set_state_def)
  obtain l i where l: "on_channel disableAll ?s0 = Inr (?s0\<lparr>cloop := l\<rparr>)" "same_loop (cloop s) l"
      "registered (conn_chan (conn s)) (c\<lparr>events := kNoneEvent, addedToLoop := True, index := i\<rparr>) l"
    using on_channel_update [OF reg0, of "\<lambda>_. kNoneEvent"] by (auto simp: disableAll_def [abs_def] set_state_def)
  let ?s1 = "(?s0\<lparr>cloop := l\<rparr>)\<lparr>calls := calls (?s0\<lparr>cloop := l\<rparr>) @ [Down]\<rparr>"
  have down: "buffers_ok ?s1" "conn_state (conn ?s1) = kDisconnected"
    using op by (auto simp: open_conn_def buffers_ok_def set_state_def)
  then obtain b where b: "for_r (on_conn ?s1) perform_conn ?s1 = Inr (?s1\<lparr>conn := (conn ?s1)\<lparr>inputBuffer := b\<rparr>\<rparr>)"
    using perform_all_down [OF down] quiet unfolding quiet_callback_def by blast
  have idle: "\<not> handlingEvents l" using out l(2) by (simp add: same_loop_def)
  then obtain l2 where "channel_remove (conn_chan (conn s)) l = Inr l2"
    using remove_registered [OF l(3)] by (auto simp: isNoneEvent_def)
  with b l(1) st show ?thesis
    by (simp add: connectDestroyed_def call_back_def Let_def on_channel_def set_state_def)
qed

text \<open>
  C38 (error). \<^verbatim>\<open>connectDestroyed\<close> on a connection that is going down, as the destructor of the server calls it for every
  connection left, fails an assert: only \<^verbatim>\<open>kConnected\<close> has its events disabled before the channel is removed. Outside of
  the handling of events, and with a connection callback that does not call \<^verbatim>\<open>startRead\<close> or \<^verbatim>\<open>stopRead\<close> when it is told that the connection is down, the assert
  fails in no other case.
\<close>

theorem connectDestroyed_disconnecting:
  assumes "open_conn c s" and "\<not> isNoneEvent c"
  shows "(conn_state (conn s) = kDisconnecting \<longrightarrow> connectDestroyed on_conn s = Inl AssertFail) \<and>
    (quiet_callback on_conn \<and> \<not> handling s \<longrightarrow>
      (connectDestroyed on_conn s = Inl AssertFail \<longleftrightarrow> conn_state (conn s) = kDisconnecting))"
proof -
  have reg: "registered (conn_chan (conn s)) c (cloop s)" using assms(1) by (simp add: open_conn_def)
  show ?thesis
  proof (cases "conn_state (conn s) = kDisconnecting")
    case True
    with remove_busy [OF registered_simps(2) [OF reg] assms(2)] show ?thesis
      by (simp add: connectDestroyed_def on_channel_def)
  next
    case False
    then have st: "conn_state (conn s) = kConnected" using assms(1) by (auto simp: open_conn_def)
    have "connectDestroyed on_conn s \<noteq> Inl AssertFail" if quiet: "quiet_callback on_conn" and out: "\<not> handling s"
      using connectDestroyed_connected [OF assms(1) st quiet out] by auto
    with False show ?thesis by blast
  qed
qed

theorem connectDestroyed_disconnecting_witness:
  "\<exists>s0 s s1. connectEstablished defaultConnectionCallback s0 = Inr s \<and> shutdown True s = Inr s1 \<and>
    connectDestroyed defaultConnectionCallback s1 = Inl AssertFail"
proof -
  obtain s0 s c where s: "connectEstablished defaultConnectionCallback s0 = Inr s" "open_conn c s" "\<not> isNoneEvent c"
      "conn_state (conn s) = kConnected" "contents (outputBuffer (conn s)) = []"
    using sample_open by blast
  let ?s1 = "(set_state kDisconnecting s)\<lparr>shut := True\<rparr>"
  have st: "conn_state (conn (set_state kDisconnecting s)) = kDisconnecting" "contents (outputBuffer (conn (set_state kDisconnecting s))) = []"
    using s(5) by (simp_all add: set_state_def)
  have "shutdown True s = Inr ?s1" "open_conn c ?s1"
    using shutdownInLoop_ok [OF open_state(3) [OF s(2)] st(1)] st(2) s(4) by (simp_all add: shutdown_def)
  with connectDestroyed_disconnecting [of c ?s1] s(1,3) st(1) show ?thesis by auto
qed

text \<open>
  \<^verbatim>\<open>startRead\<close> on a connection that is down puts its channel back into the poller with an event to wait for, since it does not look at the
  state. The functor that destroys the connection then fails the assert in the removal of the channel, and until then the hang-up that is reported
  fails the assert of \<^verbatim>\<open>handleClose\<close>.
\<close>

theorem startRead_after_close:
  assumes cl: "closed_conn c s" and reg: "registered (conn_chan (conn s)) c (cloop s)"
  shows "\<exists>s'. startRead True s = Inr s' \<and> connectDestroyed on_conn s' = Inl AssertFail \<and> handleClose on_conn s' = Inl AssertFail"
proof -
  have c: "isNoneEvent c" "channel_of s = Inr c" "conn_state (conn s) = kDisconnected" "\<not> isReading c"
    using cl reg by (auto simp: closed_conn_def isReading_def isNoneEvent_def kNoneEvent_def)
  obtain l i where l: "on_channel enableReading s = Inr (s\<lparr>cloop := l\<rparr>)"
      "registered (conn_chan (conn s)) (c\<lparr>events := events c OR kReadEvent, addedToLoop := True, index := i\<rparr>) l"
    using on_channel_update [OF reg, of "\<lambda>e. e OR kReadEvent"] by (auto simp: enableReading_def [abs_def])
  let ?c = "c\<lparr>events := events c OR kReadEvent, addedToLoop := True, index := i\<rparr>"
  let ?s = "s\<lparr>cloop := l, conn := (conn s)\<lparr>reading := True\<rparr>\<rparr>"
  have "startRead True s = Inr ?s" using c l(1) by (simp add: startRead_def startReadInLoop_def)
  moreover have "\<not> isNoneEvent ?c" using c(1) by (simp add: isNoneEvent_def kReadEvent_def kNoneEvent_def POLLIN_def POLLPRI_def)
  then have "connectDestroyed on_conn ?s = Inl AssertFail"
    using remove_busy [OF registered_simps(2) [OF l(2)]] c(3) by (simp add: connectDestroyed_def on_channel_def)
  moreover have "handleClose on_conn ?s = Inl AssertFail" using c(3) by (simp add: handleClose_def)
  ultimately show ?thesis by blast
qed

end
