(* ===== verification/Inet_Address.thy ===== *)
theory Inet_Address
  imports Text_Format "HOL-Library.Word"
begin

text \<open>
  \<^verbatim>\<open>net/InetAddress.h\<close> and \<^verbatim>\<open>net/InetAddress.cpp\<close>. Addresses are kept in
  network byte order, as in a \<^verbatim>\<open>sockaddr_in\<close> of a little-endian machine: the first octet of an address is the
  least significant byte of its word.
\<close>

unbundle bit_operations_syntax

section \<open>InetAddress\<close>

record InetAddress =
  sin_family :: nat
  sin_port :: "16 word"
  s_addr :: "32 word"

abbreviation AF_INET :: nat where
  "AF_INET \<equiv> 2"

definition htons :: "16 word \<Rightarrow> 16 word" where
  "htons w = push_bit 8 w OR drop_bit 8 w"

definition htonl :: "32 word \<Rightarrow> 32 word" where
  "htonl w = push_bit 24 w OR push_bit 8 (w AND 0xFF00) OR (drop_bit 8 w AND 0xFF00) OR drop_bit 24 w"

definition octet :: "nat \<Rightarrow> 32 word \<Rightarrow> nat" where
  "octet i a = unat (drop_bit (8 * i) a AND 0xFF)"

definition inet_ntoa :: "32 word \<Rightarrow> string" where
  "inet_ntoa a = digits (octet 0 a) @ ''.'' @ digits (octet 1 a) @ ''.'' @ digits (octet 2 a) @ ''.'' @ digits (octet 3 a)"

definition kInaddrAny :: "32 word" where
  "kInaddrAny = 0"

definition kInaddrLoopback :: "32 word" where
  "kInaddrLoopback = 0x7F000001"

definition new_InetAddress :: "16 word \<Rightarrow> bool \<Rightarrow> InetAddress" where
  "new_InetAddress p loopbackOnly =
     \<lparr>sin_family = AF_INET, sin_port = htons p, s_addr = htonl (if loopbackOnly then kInaddrLoopback else kInaddrAny)\<rparr>"

text \<open>\<open>inet_addr\<close> is the function of the C library; an address it cannot read is only logged.\<close>

definition InetAddress_of_ip :: "(string \<Rightarrow> 32 word) \<Rightarrow> string \<Rightarrow> 16 word \<Rightarrow> InetAddress" where
  "InetAddress_of_ip inet_addr ip p = \<lparr>sin_family = AF_INET, sin_port = htons p, s_addr = inet_addr ip\<rparr>"

definition toIp :: "InetAddress \<Rightarrow> string" where
  "toIp a = inet_ntoa (s_addr a)"

definition port :: "InetAddress \<Rightarrow> 16 word" where
  "port a = htons (sin_port a)"

definition toIpPort :: "InetAddress \<Rightarrow> string" where
  "toIpPort a = toIp a @ snprintf 8 ('':'' @ digits (unat (htons (sin_port a))))"

text \<open>
  \<open>gethostbyname_r\<close> gives its return value and, when it found one, a host entry: whether that is of the expected type and
  length, and its first address. \<open>getsockname\<close> gives the address of a descriptor, or fails.
\<close>

definition resolve :: "(string \<Rightarrow> int \<times> (bool \<times> 32 word) option) \<Rightarrow> string \<Rightarrow> InetAddress \<Rightarrow> (bool \<times> InetAddress) result" where
  "resolve gethostbyname_r hostname res =
     (case gethostbyname_r hostname of
        (ret, Some (ipv4, addr)) \<Rightarrow>
          if ret = 0 then asserting ipv4 (Inr (True, res\<lparr>s_addr := addr\<rparr>)) else Inr (False, res)
      | (ret, None) \<Rightarrow> Inr (False, res))"

definition getLocalAddr :: "(int \<Rightarrow> InetAddress option) \<Rightarrow> int \<Rightarrow> InetAddress" where
  "getLocalAddr getsockname sockfd =
     (case getsockname sockfd of Some a \<Rightarrow> a | None \<Rightarrow> \<lparr>sin_family = 0, sin_port = 0, s_addr = 0\<rparr>)"

section \<open>Properties\<close>

lemma htons_htons [simp]: "htons (htons w) = w"
  unfolding htons_def by (rule bit_word_eqI) (auto simp: bit_simps)

lemma htons_inj: "htons v = htons w \<longleftrightarrow> v = w"
  by (metis htons_htons)

lemma octet_less: "octet i a < 256"
proof -
  have "drop_bit (8 * i) a AND 0xFF \<le> (0xFF :: 32 word)" by (rule word_and_le1)
  then have "unat (drop_bit (8 * i) a AND 0xFF) \<le> unat (0xFF :: 32 word)" by (simp add: word_le_nat_alt)
  then show ?thesis by (simp add: octet_def)
qed

lemma octets_inj:
  assumes "octet 0 a = octet 0 b" and "octet 1 a = octet 1 b" and "octet 2 a = octet 2 b" and "octet 3 a = octet 3 b"
  shows "a = b"
proof (rule bit_word_eqI)
  fix n assume n: "n < LENGTH(32)"
  have mask: "(0xFF :: 32 word) = mask 8" by (simp add: mask_eq_exp_minus_1)
  have eq: "drop_bit (8 * i) a AND mask 8 = drop_bit (8 * i) b AND mask 8" if "octet i a = octet i b" for i
    using that by (intro unsigned_word_eqI [where 'a = nat]) (simp add: octet_def mask)
  have same: "bit a n = bit b n" if "octet i a = octet i b" "8 * i \<le> n" "n < 8 * i + 8" for i
  proof -
    have "n - 8 * i < 8" "n - 8 * i < 32" using that(2,3) by linarith+
    then show ?thesis using arg_cong [OF eq [OF that(1)], of "\<lambda>w. bit w (n - 8 * i)"] that(2) by (simp add: bit_simps)
  qed
  consider "n < 8" | "8 \<le> n" "n < 16" | "16 \<le> n" "n < 24" | "24 \<le> n" using n by linarith
  then show "bit a n = bit b n"
    using same [OF assms(1)] same [OF assms(2)] same [OF assms(3)] same [OF assms(4)] n by cases simp_all
qed

text \<open>A text before a separator it does not contain is determined.\<close>

lemma separated:
  "c \<notin> set xs \<Longrightarrow> c \<notin> set ys \<Longrightarrow> xs @ c # us = ys @ c # vs \<longleftrightarrow> xs = ys \<and> us = vs"
proof (induction xs arbitrary: ys)
  case (Cons x xs)
  then show ?case by (cases ys) auto
qed (auto simp: Cons_eq_append_conv)

lemma not_in_digits: "c \<notin> set digit_chars \<Longrightarrow> c \<notin> set (digits n)"
  using digits_set by blast

lemma no_separators [simp]: "CHR ''.'' \<notin> set (digits n)" "CHR '':'' \<notin> set (digits n)"
  by (auto intro!: not_in_digits simp: digit_chars_def)

lemma inet_ntoa_inj: "inet_ntoa a = inet_ntoa b \<longleftrightarrow> a = b"
  using octets_inj [of a b] by (auto simp: inet_ntoa_def separated dest!: digits_inj)

lemma port_fits: "snprintf 8 ('':'' @ digits (unat (w :: 16 word))) = '':'' @ digits (unat w)"
proof -
  have "unat w < 2 ^ 16" using unsigned_less [of w] by simp
  then have "length (digits (unat w)) \<le> 5" by (intro length_digits) simp_all
  then show ?thesis by (simp add: snprintf_fits)
qed

lemma length_octet: "length (digits (octet i a)) \<le> 3"
  using octet_less [of i a] by (intro length_digits) simp_all

lemma toIpPort_text: "toIpPort a = inet_ntoa (s_addr a) @ '':'' @ digits (unat (port a))"
  by (simp only: toIpPort_def toIp_def port_def port_fits)

lemma length_toIpPort: "length (toIpPort a) \<le> 21"
proof -
  have "unat (port a) < 2 ^ 16" using unsigned_less [of "port a"] by simp
  then have "length (digits (unat (port a))) \<le> 5" by (intro length_digits) simp_all
  then show ?thesis
    using length_octet [of 0 "s_addr a"] length_octet [of 1 "s_addr a"] length_octet [of 2 "s_addr a"] length_octet [of 3 "s_addr a"]
    by (simp add: toIpPort_text inet_ntoa_def)
qed

lemma toIpPort_inj: "toIpPort a = toIpPort b \<longleftrightarrow> s_addr a = s_addr b \<and> port a = port b"
proof -
  have "CHR '':'' \<notin> set (inet_ntoa w)" for w by (simp add: inet_ntoa_def)
  then show ?thesis by (auto simp: toIpPort_text separated inet_ntoa_inj intro: unsigned_word_eqI [where 'a = nat] dest!: digits_inj)
qed

lemma own_addresses:
  "inet_ntoa (htonl kInaddrAny) = ''0.0.0.0''" "inet_ntoa (htonl kInaddrLoopback) = ''127.0.0.1''"
  by (simp_all add: inet_ntoa_def octet_def htonl_def kInaddrAny_def kInaddrLoopback_def digits.simps drop_bit_eq_div push_bit_eq_mult char_of_def bit_0)

text \<open>
  C35 (roundtrip). The text of an address: it is the dotted form, a colon and the port, has at most 21 characters, and determines
  the address and the port. An address made from its dotted form, which \<^verbatim>\<open>inet_addr\<close> reads back, has that form and the port given.
  A server's own address is \<^verbatim>\<open>127.0.0.1\<close> or \<^verbatim>\<open>0.0.0.0\<close>.
\<close>

theorem InetAddress_text:
  assumes "inet_addr (inet_ntoa w) = w"
  shows "toIp (InetAddress_of_ip inet_addr (inet_ntoa w) p) = inet_ntoa w \<and>
    port (InetAddress_of_ip inet_addr (inet_ntoa w) p) = p \<and>
    toIpPort (InetAddress_of_ip inet_addr (inet_ntoa w) p) = inet_ntoa w @ '':'' @ digits (unat p) \<and>
    toIpPort (new_InetAddress p lb) = (if lb then ''127.0.0.1'' else ''0.0.0.0'') @ '':'' @ digits (unat p) \<and>
    (toIpPort a = toIpPort b \<longleftrightarrow> s_addr a = s_addr b \<and> port a = port b) \<and> length (toIpPort a) \<le> 21"
proof -
  have p: "port (InetAddress_of_ip inet_addr (inet_ntoa w) p) = p" "s_addr (InetAddress_of_ip inet_addr (inet_ntoa w) p) = w"
    using assms by (simp_all add: InetAddress_of_ip_def port_def)
  have own: "port (new_InetAddress p lb) = p" "s_addr (new_InetAddress p lb) = htonl (if lb then kInaddrLoopback else kInaddrAny)"
    by (simp_all add: new_InetAddress_def port_def)
  show ?thesis
    by (intro conjI toIpPort_inj length_toIpPort) (simp_all add: toIp_def p own toIpPort_text own_addresses)
qed

theorem InetAddress_text_witness:
  "toIpPort (InetAddress_of_ip (\<lambda>ip. if ip = ''10.0.0.1'' then 0x0100000A else 0xFFFFFFFF) ''10.0.0.1'' 80) = ''10.0.0.1:80'' \<and>
    toIpPort (new_InetAddress 80 False) = ''0.0.0.0:80''"
proof -
  let ?f = "\<lambda>ip. if ip = ''10.0.0.1'' then 0x0100000A else (0xFFFFFFFF :: 32 word)"
  have ip: "inet_ntoa 0x0100000A = ''10.0.0.1''"
    by (simp add: inet_ntoa_def octet_def digits.simps drop_bit_eq_div char_of_def bit_0)
  have d: "digits 80 = ''80''" by (simp add: digits.simps char_of_def bit_0)
  from InetAddress_text [of ?f "0x0100000A" 80 False] show ?thesis by (simp add: ip d)
qed

end
