(* ===== verification/Sockets.thy ===== *)
theory Sockets
  imports Inet_Address Log_Level
begin

text \<open>
  \<^verbatim>\<open>net/Socket.h\<close> and \<^verbatim>\<open>net/Socket.cpp\<close>: the handle of a socket descriptor, and the two other functions that open descriptors,
  \<^verbatim>\<open>createEventfd\<close> and \<^verbatim>\<open>createTimerfd\<close>. The operating system is a parameter: a function from a system call and the state of the kernel to its
  answer and the new state. The functions here translate requests into such calls and failures into log messages.
\<close>

section \<open>The state of a connection as text\<close>

record tcp_info =
  tcpi_retransmits :: "8 word"
  tcpi_rto :: "32 word"
  tcpi_ato :: "32 word"
  tcpi_snd_mss :: "32 word"
  tcpi_rcv_mss :: "32 word"
  tcpi_lost :: "32 word"
  tcpi_retrans :: "32 word"
  tcpi_rtt :: "32 word"
  tcpi_rttvar :: "32 word"
  tcpi_snd_ssthresh :: "32 word"
  tcpi_snd_cwnd :: "32 word"
  tcpi_total_retrans :: "32 word"

abbreviation show_u :: "'a::len word \<Rightarrow> string" where
  "show_u w \<equiv> digits (unat w)"

definition tcp_info_text :: "tcp_info \<Rightarrow> string" where
  "tcp_info_text t =
     ''unrecovered='' @ show_u (tcpi_retransmits t) @ '' rto='' @ show_u (tcpi_rto t) @ '' ato='' @ show_u (tcpi_ato t) @
     '' snd_mss='' @ show_u (tcpi_snd_mss t) @ '' rcv_mss='' @ show_u (tcpi_rcv_mss t) @ '' lost='' @ show_u (tcpi_lost t) @
     '' retrans='' @ show_u (tcpi_retrans t) @ '' rtt='' @ show_u (tcpi_rtt t) @ '' rttvar='' @ show_u (tcpi_rttvar t) @
     '' sshthresh='' @ show_u (tcpi_snd_ssthresh t) @ '' cwnd='' @ show_u (tcpi_snd_cwnd t) @
     '' total_retrans='' @ show_u (tcpi_total_retrans t)"

section \<open>System calls\<close>

datatype sockopt = TCP_NODELAY | SO_REUSEADDR | SO_REUSEPORT | SO_KEEPALIVE

datatype sys_call =
    SysSocket
  | SysOpenNull
  | SysOpenFile string
  | SysEventfd
  | SysTimerfd
  | SysBind int InetAddress
  | SysListen int
  | SysAccept4 int
  | SysAccept int
  | SysShutdownWrite int
  | SysSetsockopt int sockopt int
  | SysGetTcpInfo int
  | SysGetSoError int
  | SysClose int

text \<open>
  An answer is the returned number, the value of \<^verbatim>\<open>errno\<close> when that is negative, and what the call writes through its pointers: the address
  of a peer, the statistics of a connection or the pending error of a socket.
\<close>

record sys_answer =
  ret :: int
  err :: int
  from_addr :: InetAddress
  out_info :: tcp_info
  out_error :: int

text \<open>
  The environment of the process: the system calls, and what a call of the logger leaves in \<^verbatim>\<open>errno\<close>, which the functions of the C
  library may set also when they succeed. The state of the world is the kernel, \<^verbatim>\<open>errno\<close> and the messages given to the logger so far.
\<close>

record 'k env =
  sys :: "sys_call \<Rightarrow> 'k \<Rightarrow> sys_answer \<times> 'k"
  log_errno :: "int \<Rightarrow> int"

record 'k World =
  kernel :: 'k
  errno :: int
  log_lines :: "(Level \<times> string) list"

definition syscall :: "'k env \<Rightarrow> sys_call \<Rightarrow> 'k World \<Rightarrow> sys_answer \<times> 'k World" where
  "syscall E c w =
     (case sys E c (kernel w) of (a, k) \<Rightarrow> (a, w\<lparr>kernel := k, errno := (if ret a < 0 then err a else errno w)\<rparr>))"

definition log_msg :: "'k env \<Rightarrow> Level \<Rightarrow> string \<Rightarrow> 'k World \<Rightarrow> 'k World" where
  "log_msg E level msg w = w\<lparr>log_lines := log_lines w @ [(level, msg)], errno := log_errno E (errno w)\<rparr>"

section \<open>Socket\<close>

definition createNonBlockingSocket :: "'k env \<Rightarrow> 'k World \<Rightarrow> int \<times> 'k World" where
  "createNonBlockingSocket E w =
     (case syscall E SysSocket w of (a, w1) \<Rightarrow>
        (ret a, if ret a < 0 then log_msg E FATAL ''create non-blocking socket failed.'' w1 else w1))"

definition destroy_Socket :: "'k env \<Rightarrow> int \<Rightarrow> 'k World \<Rightarrow> 'k World" where
  "destroy_Socket E sockfd w = snd (syscall E (SysClose sockfd) w)"

definition zero_info :: tcp_info where
  "zero_info = \<lparr>tcpi_retransmits = 0, tcpi_rto = 0, tcpi_ato = 0, tcpi_snd_mss = 0, tcpi_rcv_mss = 0, tcpi_lost = 0, tcpi_retrans = 0,
     tcpi_rtt = 0, tcpi_rttvar = 0, tcpi_snd_ssthresh = 0, tcpi_snd_cwnd = 0, tcpi_total_retrans = 0\<rparr>"

definition getTcpInfo :: "'k env \<Rightarrow> int \<Rightarrow> 'k World \<Rightarrow> bool \<times> tcp_info \<times> 'k World" where
  "getTcpInfo E sockfd w =
     (case syscall E (SysGetTcpInfo sockfd) w of (a, w1) \<Rightarrow> (ret a = 0, if ret a = 0 then out_info a else zero_info, w1))"

definition getTcpInfoString :: "'k env \<Rightarrow> int \<Rightarrow> string \<Rightarrow> nat \<Rightarrow> 'k World \<Rightarrow> bool \<times> string \<times> 'k World" where
  "getTcpInfoString E sockfd buf size_buf w =
     (case getTcpInfo E sockfd w of (ok, info, w1) \<Rightarrow> (ok, if ok then snprintf size_buf (tcp_info_text info) else buf, w1))"

definition socket_bind :: "'k env \<Rightarrow> int \<Rightarrow> InetAddress \<Rightarrow> 'k World \<Rightarrow> 'k World" where
  "socket_bind E sockfd localAddr w =
     (case syscall E (SysBind sockfd localAddr) w of (a, w1) \<Rightarrow>
        if ret a < 0 then log_msg E FATAL ''Socket bind() fatal.'' w1 else w1)"

definition socket_listen :: "'k env \<Rightarrow> int \<Rightarrow> 'k World \<Rightarrow> 'k World" where
  "socket_listen E sockfd w =
     (case syscall E (SysListen sockfd) w of (a, w1) \<Rightarrow>
        if ret a < 0 then log_msg E FATAL ''Socket listen() fatal.'' w1 else w1)"

definition socket_accept :: "'k env \<Rightarrow> int \<Rightarrow> InetAddress \<Rightarrow> 'k World \<Rightarrow> int \<times> InetAddress \<times> 'k World" where
  "socket_accept E sockfd peerAddr w =
     (case syscall E (SysAccept4 sockfd) w of (a, w1) \<Rightarrow>
        if ret a < 0
        then (ret a, peerAddr, log_msg E ERROR (''Socket::accept() error, errno = '' @ show_int (errno w1)) w1)
        else (ret a, from_addr a, w1))"

definition shutdownWrite :: "'k env \<Rightarrow> int \<Rightarrow> 'k World \<Rightarrow> 'k World" where
  "shutdownWrite E sockfd w =
     (case syscall E (SysShutdownWrite sockfd) w of (a, w1) \<Rightarrow>
        if ret a < 0 then log_msg E ERROR ''Socket::shutdownWrite() error.'' w1 else w1)"

definition setTcpNoDelay :: "'k env \<Rightarrow> int \<Rightarrow> bool \<Rightarrow> 'k World \<Rightarrow> 'k World" where
  "setTcpNoDelay E sockfd on w = snd (syscall E (SysSetsockopt sockfd TCP_NODELAY (if on then 1 else 0)) w)"

definition setReuseAddr :: "'k env \<Rightarrow> int \<Rightarrow> bool \<Rightarrow> 'k World \<Rightarrow> 'k World" where
  "setReuseAddr E sockfd on w =
     (case syscall E (SysSetsockopt sockfd SO_REUSEADDR (if on then 1 else 0)) w of (a, w1) \<Rightarrow>
        if ret a < 0 \<and> on then log_msg E ERROR ''SO_REUSEADDR failed.'' w1 else w1)"

definition setReusePort :: "'k env \<Rightarrow> int \<Rightarrow> bool \<Rightarrow> 'k World \<Rightarrow> 'k World" where
  "setReusePort E sockfd on w =
     (case syscall E (SysSetsockopt sockfd SO_REUSEPORT (if on then 1 else 0)) w of (a, w1) \<Rightarrow>
        if ret a < 0 \<and> on then log_msg E ERROR ''SO_REUSEPORT failed.'' w1 else w1)"

definition setKeepAlive :: "'k env \<Rightarrow> int \<Rightarrow> bool \<Rightarrow> 'k World \<Rightarrow> 'k World" where
  "setKeepAlive E sockfd on w = snd (syscall E (SysSetsockopt sockfd SO_KEEPALIVE (if on then 1 else 0)) w)"

section \<open>Other descriptors\<close>

text \<open>Without a descriptor for its wakeups a loop calls \<^verbatim>\<open>abort\<close>; without one for its timers it goes on with the negative number.\<close>

definition createEventfd :: "'k env \<Rightarrow> 'k World \<Rightarrow> (int \<times> 'k World) result" where
  "createEventfd E w = (case syscall E SysEventfd w of (a, w1) \<Rightarrow> if ret a < 0 then Inl Terminated else Inr (ret a, w1))"

definition createTimerfd :: "'k env \<Rightarrow> 'k World \<Rightarrow> int \<times> 'k World" where
  "createTimerfd E w =
     (case syscall E SysTimerfd w of (a, w1) \<Rightarrow> (ret a, if ret a < 0 then log_msg E FATAL ''Failed in timerfd_create.'' w1 else w1))"

section \<open>Open descriptors\<close>

text \<open>
  What POSIX promises of descriptors: a call that opens one gives a number that was not open, \<^verbatim>\<open>close\<close> frees one, and no other call changes
  which numbers are open. \<open>fds\<close> reads the open descriptors of the process off the state of the kernel.
\<close>

fun opens :: "sys_call \<Rightarrow> bool" where
  "opens SysSocket = True"
| "opens SysOpenNull = True"
| "opens (SysOpenFile name) = True"
| "opens SysEventfd = True"
| "opens SysTimerfd = True"
| "opens (SysAccept4 f) = True"
| "opens (SysAccept f) = True"
| "opens c = False"

definition fds_after :: "sys_call \<Rightarrow> int \<Rightarrow> int set \<Rightarrow> int set" where
  "fds_after c r F =
     (if opens c then if 0 \<le> r then insert r F else F else case c of SysClose f \<Rightarrow> F - {f} | _ \<Rightarrow> F)"

definition posix_fds :: "('k \<Rightarrow> int set) \<Rightarrow> 'k env \<Rightarrow> bool" where
  "posix_fds fds E \<longleftrightarrow>
     (\<forall>c k. case sys E c k of (a, k') \<Rightarrow> fds k' = fds_after c (ret a) (fds k) \<and> (opens c \<longrightarrow> ret a \<notin> fds k)) \<and>
     (\<forall>k. \<forall>f \<in> fds k. 0 \<le> f)"

lemma posix_nonneg: "posix_fds fds E \<Longrightarrow> f \<in> fds k \<Longrightarrow> 0 \<le> f"
  by (auto simp: posix_fds_def)

lemma posix_close_none: "posix_fds fds E \<Longrightarrow> f < 0 \<Longrightarrow> fds k - {f} = fds k"
  using posix_nonneg by fastforce

lemma syscall_fds:
  assumes "posix_fds fds E" and "syscall E c w = (a, w')"
  shows "fds (kernel w') = fds_after c (ret a) (fds (kernel w))" and "opens c \<Longrightarrow> ret a \<notin> fds (kernel w)"
  using assms unfolding posix_fds_def syscall_def by (auto split: prod.splits)

named_theorems world_fds \<open>the open descriptors after an operation\<close>

lemma log_msg_kernel [simp]: "kernel (log_msg E lv msg w) = kernel w"
  by (simp add: log_msg_def)

lemma socket_opens:
  assumes "posix_fds fds E" and "createNonBlockingSocket E w = (f, w')"
  shows "fds (kernel w') = (if 0 \<le> f then insert f (fds (kernel w)) else fds (kernel w))" and "f \<notin> fds (kernel w)"
  using syscall_fds [OF assms(1), of SysSocket w] assms(2)
  by (auto simp: createNonBlockingSocket_def fds_after_def split: prod.splits)

lemma close_fds [world_fds]: "posix_fds fds E \<Longrightarrow> fds (kernel (snd (syscall E (SysClose f) w))) = fds (kernel w) - {f}"
  using syscall_fds(1) [of fds E "SysClose f" w "fst (syscall E (SysClose f) w)" "snd (syscall E (SysClose f) w)"]
  by (simp add: fds_after_def)

text \<open>Every other call leaves them alone.\<close>

fun silent :: "sys_call \<Rightarrow> bool" where
  "silent (SysClose f) = False"
| "silent c = (\<not> opens c)"

lemma silent_fds: "posix_fds fds E \<Longrightarrow> silent c \<Longrightarrow> fds (kernel (snd (syscall E c w))) = fds (kernel w)"
  using syscall_fds(1) [of fds E c w "fst (syscall E c w)" "snd (syscall E c w)"] by (cases c) (simp_all add: fds_after_def)

lemma logged_call_fds:
  assumes "posix_fds fds E" and "silent c"
  shows "fds (kernel (case syscall E c w of (a, w1) \<Rightarrow> if P a then log_msg E lv msg w1 else w1)) = fds (kernel w)"
  using silent_fds [OF assms, of w] by (cases "syscall E c w") simp

lemma socket_calls_fds [world_fds]:
  assumes "posix_fds fds E"
  shows "fds (kernel (socket_bind E f addr w)) = fds (kernel w)"
    and "fds (kernel (socket_listen E f w)) = fds (kernel w)"
    and "fds (kernel (shutdownWrite E f w)) = fds (kernel w)"
    and "fds (kernel (setTcpNoDelay E f b w)) = fds (kernel w)"
    and "fds (kernel (setReuseAddr E f b w)) = fds (kernel w)"
    and "fds (kernel (setReusePort E f b w)) = fds (kernel w)"
    and "fds (kernel (setKeepAlive E f b w)) = fds (kernel w)"
    and "fds (kernel (destroy_Socket E f w)) = fds (kernel w) - {f}"
  by (simp_all add: socket_bind_def socket_listen_def shutdownWrite_def setTcpNoDelay_def setReuseAddr_def setReusePort_def
      setKeepAlive_def destroy_Socket_def close_fds [OF assms] silent_fds [OF assms] logged_call_fds [OF assms])

lemma accept_opens:
  assumes "posix_fds fds E" and "socket_accept E f p w = (g, p', w')"
  shows "fds (kernel w') = (if 0 \<le> g then insert g (fds (kernel w)) else fds (kernel w))" and "g \<notin> fds (kernel w)"
proof -
  obtain a w1 where c: "syscall E (SysAccept4 f) w = (a, w1)" by fastforce
  then have "g = ret a" "kernel w' = kernel w1"
    using assms(2) unfolding socket_accept_def by (cases "ret a < 0"; force)+
  with syscall_fds [OF assms(1) c]
  show "fds (kernel w') = (if 0 \<le> g then insert g (fds (kernel w)) else fds (kernel w))" and "g \<notin> fds (kernel w)"
    by (simp_all add: fds_after_def)
qed

section \<open>A table of descriptors\<close>

text \<open>
  A kernel for examples: the open descriptors in a list, at most \<open>limit\<close> of them, and every call succeeds unless it needs a
  descriptor and none is left; then the error is \<^verbatim>\<open>EMFILE\<close>, 24.
\<close>

abbreviation EMFILE :: int where
  "EMFILE \<equiv> 24"

definition table_sys :: "nat \<Rightarrow> sys_call \<Rightarrow> nat list \<Rightarrow> sys_answer \<times> nat list" where
  "table_sys limit c k =
     (let ans = \<lparr>ret = 0, err = 0, from_addr = new_InetAddress 4000 True, out_info = zero_info, out_error = 0\<rparr>;
          f = Suc (fold max k 2)
      in if opens c then (if length k < limit then (ans\<lparr>ret := int f\<rparr>, f # k) else (ans\<lparr>ret := -1, err := EMFILE\<rparr>, k))
         else case c of SysClose g \<Rightarrow> (ans, filter (\<lambda>h. int h \<noteq> g) k) | _ \<Rightarrow> (ans, k))"

definition table_env :: "nat \<Rightarrow> nat list env" where
  "table_env limit = \<lparr>sys = table_sys limit, log_errno = (\<lambda>e. e)\<rparr>"

definition table_world :: "nat list World" where
  "table_world = \<lparr>kernel = [], errno = 0, log_lines = []\<rparr>"

lemma fold_max_ge: "m \<le> fold max k m \<and> (\<forall>x \<in> set k. x \<le> fold max k m)" for m :: nat
  by (induction k arbitrary: m) (fastforce simp: max_def split: if_splits)+

lemma table_posix: "posix_fds (\<lambda>k. int ` set k) (table_env limit)"
proof -
  have "1 + int (fold max k 2) \<noteq> int x" if "x \<in> set k" for k x using fold_max_ge [of 2 k] that by fastforce
  then show ?thesis
    by (auto simp: posix_fds_def table_env_def table_sys_def fds_after_def Let_def image_iff split: sys_call.splits)
qed

text \<open>The text of \<^verbatim>\<open>getTcpInfoString\<close> always fits into the buffer a connection gives it.\<close>

lemma show_u_32: "length (show_u (w :: 32 word)) \<le> 10"
proof -
  have "unat w < 2 ^ 32" using unsigned_less [of w] by simp
  then show ?thesis by (intro length_digits) simp_all
qed

lemma show_u_8: "length (show_u (w :: 8 word)) \<le> 3"
proof -
  have "unat w < 2 ^ 8" using unsigned_less [of w] by simp
  then show ?thesis by (intro length_digits) simp_all
qed

lemma length_tcp_info_text: "length (tcp_info_text t) < 1024"
  using show_u_8 [of "tcpi_retransmits t"] show_u_32 [of "tcpi_rto t"] show_u_32 [of "tcpi_ato t"] show_u_32 [of "tcpi_snd_mss t"]
      show_u_32 [of "tcpi_rcv_mss t"] show_u_32 [of "tcpi_lost t"] show_u_32 [of "tcpi_retrans t"] show_u_32 [of "tcpi_rtt t"]
      show_u_32 [of "tcpi_rttvar t"] show_u_32 [of "tcpi_snd_ssthresh t"] show_u_32 [of "tcpi_snd_cwnd t"] show_u_32 [of "tcpi_total_retrans t"]
  by (simp add: tcp_info_text_def)


end
