(* ===== verification/Acceptor.thy ===== *)
theory Acceptor
  imports Sockets Channel_Registry
begin

text \<open>
  \<^verbatim>\<open>net/Acceptor.h\<close> and \<^verbatim>\<open>net/Acceptor.cpp\<close>: the listening socket, its channel, and a descriptor kept in reserve for the moment when the
  process has no other left. The operations are those of \<open>Sockets\<close> and \<open>Channel_Poller\<close>.
\<close>

section \<open>The class\<close>

record Acceptor =
  acceptSocket :: int
  acc_chan :: nat
  has_newConnection :: bool
  listening :: bool
  idleFd :: int

definition new_Acceptor :: "'k env \<Rightarrow> nat \<Rightarrow> InetAddress \<Rightarrow> bool \<Rightarrow> 'k World \<times> Loop \<Rightarrow> (Acceptor \<times> 'k World \<times> Loop) result" where
  "new_Acceptor E a listenAddr reuseport st =
     (case st of (w, l) \<Rightarrow>
      case createNonBlockingSocket E w of (sockfd, w1) \<Rightarrow>
      case syscall E SysOpenNull w1 of (ans, w2) \<Rightarrow>
        asserting (ret ans \<ge> 0)
          (let w3 = socket_bind E sockfd listenAddr (setReusePort E sockfd reuseport (setReuseAddr E sockfd True w2))
           in Inr (\<lparr>acceptSocket = sockfd, acc_chan = a, has_newConnection = False, listening = False, idleFd = ret ans\<rparr>,
                   w3, put_chan a (setCallback ReadEv (new_Channel (self l) sockfd)) l)))"

definition setNewConnectionCallback :: "Acceptor \<Rightarrow> Acceptor" where
  "setNewConnectionCallback ac = ac\<lparr>has_newConnection := True\<rparr>"

definition acceptor_listen :: "'k env \<Rightarrow> Acceptor \<times> 'k World \<times> Loop \<Rightarrow> (Acceptor \<times> 'k World \<times> Loop) result" where
  "acceptor_listen E st =
     (case st of (ac, w, l) \<Rightarrow>
        let ac1 = ac\<lparr>listening := True\<rparr>; w1 = socket_listen E (acceptSocket ac) w
        in bind_r (enableReading (acc_chan ac) l) (\<lambda>l1. Inr (ac1, w1, l1)))"

text \<open>The body of the destructor, then the destructors of the members, the last declared first.\<close>

definition destroy_Acceptor :: "'k env \<Rightarrow> Acceptor \<times> 'k World \<times> Loop \<Rightarrow> ('k World \<times> Loop) result" where
  "destroy_Acceptor E st =
     (case st of (ac, w, l) \<Rightarrow>
        bind_r (disableAll (acc_chan ac) l) (\<lambda>l1.
        bind_r (channel_remove (acc_chan ac) l1) (\<lambda>l2.
        let w1 = snd (syscall E (SysClose (idleFd ac)) w)
        in bind_r (destroy_Channel (acc_chan ac) l2) (\<lambda>l3. Inr (destroy_Socket E (acceptSocket ac) w1, l3)))))"

text \<open>The result is what is handed to the callback, the descriptor of a new connection and the address of its peer.\<close>

definition acceptor_handleRead :: "'k env \<Rightarrow> Acceptor \<Rightarrow> 'k World \<Rightarrow> (int \<times> InetAddress) option \<times> Acceptor \<times> 'k World" where
  "acceptor_handleRead E ac w =
     (case socket_accept E (acceptSocket ac) (new_InetAddress 0 False) w of (connfd, peerAddr, w1) \<Rightarrow>
        if connfd \<ge> 0 then
          if has_newConnection ac then (Some (connfd, peerAddr), ac, w1)
          else (None, ac, snd (syscall E (SysClose connfd) w1))
        else
          let w2 = log_msg E ERROR ''Acceptor::handleRead error.'' w1
          in if errno w2 = EMFILE then
               case syscall E (SysAccept (acceptSocket ac)) (snd (syscall E (SysClose (idleFd ac)) w2)) of (again, w3) \<Rightarrow>
               case syscall E SysOpenNull (snd (syscall E (SysClose (ret again)) w3)) of (reserve, w4) \<Rightarrow>
                 (None, ac\<lparr>idleFd := ret reserve\<rparr>, w4)
             else (None, ac, w2))"

section \<open>Descriptors\<close>

text \<open>The descriptors an acceptor owns; a negative number is none.\<close>

definition own_fds :: "Acceptor \<Rightarrow> int set" where
  "own_fds ac = {f \<in> {acceptSocket ac, idleFd ac}. 0 \<le> f}"

text \<open>
  The life of an acceptor in its server: the listening socket is readable, or a connection that it was handed over to is destroyed and closes its
  descriptor. \<open>held\<close> are the descriptors of connections.
\<close>

datatype acc_event = Readable | Release int

fun acc_run :: "'k env \<Rightarrow> acc_event \<Rightarrow> Acceptor \<times> 'k World \<times> int set \<Rightarrow> Acceptor \<times> 'k World \<times> int set" where
  "acc_run E Readable (ac, w, held) =
     (case acceptor_handleRead E ac w of (h, ac', w') \<Rightarrow> (ac', w', case h of Some (f, p) \<Rightarrow> insert f held | None \<Rightarrow> held))"
| "acc_run E (Release f) (ac, w, held) = (if f \<in> held then (ac, destroy_Socket E f w, held - {f}) else (ac, w, held))"

text \<open>The descriptors of the process are those of its other parts, \<open>F\<close>, those of the acceptor and those of connections, all different.\<close>

definition fds_split :: "int set \<Rightarrow> Acceptor \<Rightarrow> int set \<Rightarrow> int set \<Rightarrow> bool" where
  "fds_split F ac held opened \<longleftrightarrow> opened = F \<union> own_fds ac \<union> held \<and> F \<inter> own_fds ac = {} \<and> F \<inter> held = {} \<and> own_fds ac \<inter> held = {} \<and>
     (0 \<le> acceptSocket ac \<longrightarrow> idleFd ac \<noteq> acceptSocket ac)"

lemma own_fds_simps [simp]:
  "own_fds (ac\<lparr>listening := b\<rparr>) = own_fds ac" "own_fds (setNewConnectionCallback ac) = own_fds ac"
  "acceptSocket (setNewConnectionCallback ac) = acceptSocket ac" "idleFd (setNewConnectionCallback ac) = idleFd ac"
  "acc_chan (setNewConnectionCallback ac) = acc_chan ac"
  by (simp_all add: own_fds_def setNewConnectionCallback_def)

lemma new_Acceptor_fds:
  assumes "posix_fds fds E" and "new_Acceptor E a addr rp (w, l) = Inr (ac, w1, l1)"
  shows "fds_split (fds (kernel w)) ac {} (fds (kernel w1))" "acc_chan ac = a" "\<not> listening ac"
    "l1 = put_chan a (setCallback ReadEv (new_Channel (self l) (acceptSocket ac))) l"
proof -
  obtain f u ans v where f: "createNonBlockingSocket E w = (f, u)" "syscall E SysOpenNull u = (ans, v)" by fastforce
  note fresh = socket_opens [OF assms(1) f(1)] syscall_fds [OF assms(1) f(2)]
  show "fds_split (fds (kernel w)) ac {} (fds (kernel w1))"
    using assms(2) fresh f posix_nonneg [OF assms(1)]
    by (auto simp: new_Acceptor_def asserting_Inr_iff Let_def fds_split_def own_fds_def fds_after_def world_fds [OF assms(1)]
        split: if_splits)
  show "acc_chan ac = a" "\<not> listening ac" "l1 = put_chan a (setCallback ReadEv (new_Channel (self l) (acceptSocket ac))) l"
    using assms(2) f by (auto simp: new_Acceptor_def asserting_Inr_iff Let_def)
qed

text \<open>The reserve is closed, a connection taken and closed in its place, and the reserve opened again: only the reserve changes.\<close>

lemma swap_reserve:
  assumes posix: "posix_fds fds E" and split: "fds_split F ac held (fds (kernel w))"
    and again: "syscall E (SysAccept (acceptSocket ac)) (snd (syscall E (SysClose (idleFd ac)) w)) = (ag, w1)"
    and reserve: "syscall E SysOpenNull (snd (syscall E (SysClose (ret ag)) w1)) = (rs, w2)"
  shows "fds_split F (ac\<lparr>idleFd := ret rs\<rparr>) held (fds (kernel w2))"
proof -
  let ?rest = "F \<union> {f. f = acceptSocket ac \<and> 0 \<le> f} \<union> held"
  have idle: "idleFd ac \<notin> F \<union> held"
  proof
    assume in_rest: "idleFd ac \<in> F \<union> held"
    then have "idleFd ac \<in> fds (kernel w)" using split by (auto simp: fds_split_def)
    then have "0 \<le> idleFd ac" by (rule posix_nonneg [OF posix])
    with in_rest split show False by (auto simp: fds_split_def own_fds_def)
  qed
  then have "fds (kernel w) - {idleFd ac} = ?rest"
    using split by (auto simp: fds_split_def own_fds_def)
  then have "fds (kernel w1) - {ret ag} = ?rest"
    using syscall_fds [OF posix again] by (auto simp: fds_after_def world_fds [OF posix] split: if_splits)
  then have "fds (kernel w2) = (if 0 \<le> ret rs then insert (ret rs) ?rest else ?rest)" "ret rs \<notin> ?rest"
    using syscall_fds [OF posix reserve] by (simp_all add: fds_after_def world_fds [OF posix])
  then show ?thesis using split by (auto simp: fds_split_def own_fds_def split: if_splits)
qed

lemma handleRead_fds:
  assumes posix: "posix_fds fds E" and split: "fds_split F ac held (fds (kernel w))"
    and run: "acceptor_handleRead E ac w = (h, ac', w')"
  shows "fds_split F ac' (case h of Some (f, p) \<Rightarrow> insert f held | None \<Rightarrow> held) (fds (kernel w'))" "acceptSocket ac' = acceptSocket ac"
    "acc_chan ac' = acc_chan ac"
proof -
  obtain g p u where g: "socket_accept E (acceptSocket ac) (new_InetAddress 0 False) w = (g, p, u)" by (metis prod_cases3)
  note fresh = accept_opens [OF posix g]
  show "fds_split F ac' (case h of Some (f, p) \<Rightarrow> insert f held | None \<Rightarrow> held) (fds (kernel w'))"
  proof (cases "0 \<le> g")
    case True
    with run g fresh split show ?thesis
      by (auto simp: acceptor_handleRead_def fds_split_def own_fds_def world_fds [OF posix] split: if_splits)
  next
    case False
    let ?w = "log_msg E ERROR ''Acceptor::handleRead error.'' u"
    obtain ag w1 rs w2 where sw: "syscall E (SysAccept (acceptSocket ac)) (snd (syscall E (SysClose (idleFd ac)) ?w)) = (ag, w1)"
        "syscall E SysOpenNull (snd (syscall E (SysClose (ret ag)) w1)) = (rs, w2)" by fastforce
    have "fds_split F ac held (fds (kernel ?w))" using fresh(1) False split by simp
    with swap_reserve [OF posix this sw] run g False sw show ?thesis
      by (auto simp: acceptor_handleRead_def Let_def split: if_splits)
  qed
  show "acceptSocket ac' = acceptSocket ac" "acc_chan ac' = acc_chan ac"
    using run g by (auto simp: acceptor_handleRead_def Let_def split: if_splits prod.splits)
qed

lemma accept_fresh:
  assumes "posix_fds fds E" and "acceptor_handleRead E ac w = (Some (f, p), ac', w')"
  shows "0 \<le> f" and "f \<notin> fds (kernel w)"
proof -
  obtain g q u where g: "socket_accept E (acceptSocket ac) (new_InetAddress 0 False) w = (g, q, u)" by (metis prod_cases3)
  with assms(2) have "0 \<le> g" "f = g" by (auto simp: acceptor_handleRead_def Let_def split: if_splits prod.splits)
  with accept_opens(2) [OF assms(1) g] show "0 \<le> f" "f \<notin> fds (kernel w)" by simp_all
qed

lemma acc_runs:
  assumes posix: "posix_fds fds E"
  shows "fds_split F ac held (fds (kernel w)) \<Longrightarrow>
    case fold (acc_run E) evs (ac, w, held) of (ac', w', held') \<Rightarrow>
      fds_split F ac' held' (fds (kernel w')) \<and> acceptSocket ac' = acceptSocket ac \<and> acc_chan ac' = acc_chan ac"
proof (induction evs arbitrary: ac w held)
  case (Cons e evs)
  obtain ac1 w1 held1 where st: "acc_run E e (ac, w, held) = (ac1, w1, held1)" by (metis prod_cases3)
  have "fds_split F ac1 held1 (fds (kernel w1)) \<and> acceptSocket ac1 = acceptSocket ac \<and> acc_chan ac1 = acc_chan ac"
  proof (cases e)
    case Readable
    obtain h ac' w' where h: "acceptor_handleRead E ac w = (h, ac', w')" by (metis prod_cases3)
    with st Readable have "ac1 = ac'" "w1 = w'" "held1 = (case h of Some (f, p) \<Rightarrow> insert f held | None \<Rightarrow> held)" by auto
    with handleRead_fds [OF posix Cons.prems h] show ?thesis by simp
  next
    case (Release f)
    with st Cons.prems show ?thesis by (auto simp: fds_split_def world_fds [OF posix] split: if_splits)
  qed
  with Cons.IH [of ac1 held1 w1] st show ?case by auto
qed simp

lemma destroy_Acceptor_fds:
  assumes posix: "posix_fds fds E" and split: "fds_split F ac held (fds (kernel w))"
    and reg: "registered (acc_chan ac) c l" "\<not> handlingEvents l" "\<not> eventHandling c"
  shows "\<exists>w' l'. destroy_Acceptor E (ac, w, l) = Inr (w', l') \<and> fds (kernel w') = F \<union> held \<and> poller_inv l' \<and>
    map_of (channels l') (fd c) = None"
proof -
  obtain l1 l2 where l: "disableAll (acc_chan ac) l = Inr l1" "channel_remove (acc_chan ac) l1 = Inr l2"
      "destroy_Channel (acc_chan ac) l2 = Inr (l2\<lparr>chans := (chans l2)(acc_chan ac := None)\<rparr>)" "map_of (channels l2) (fd c) = None"
      "poller_inv (l2\<lparr>chans := (chans l2)(acc_chan ac := None)\<rparr>)"
    using dismantle_registered [OF reg] by blast
  have none: "f < 0 \<Longrightarrow> f \<notin> F \<union> held" for f
    using split posix_nonneg [OF posix, of f "kernel w"] by (auto simp: fds_split_def)
  have "fds (kernel w) - {idleFd ac} - {acceptSocket ac} = F \<union> held"
    using split none [of "idleFd ac"] none [of "acceptSocket ac"]
    by (cases "0 \<le> idleFd ac"; cases "0 \<le> acceptSocket ac") (auto simp: fds_split_def own_fds_def)
  with l show ?thesis by (simp add: destroy_Acceptor_def Let_def world_fds [OF posix])
qed

lemma acceptor_registers:
  assumes posix: "posix_fds fds E" and new: "new_Acceptor E a addr rp (w, l) = Inr (ac, w1, l1)" and sock: "0 \<le> acceptSocket ac"
    and loop: "poller_inv l" "chans l a = None" "\<not> handlingEvents l" "\<forall>f. map_of (channels l) f \<noteq> None \<longrightarrow> f \<in> fds (kernel w)"
  shows "\<exists>l2 c. enableReading a l1 = Inr l2 \<and> registered a c l2 \<and> \<not> handlingEvents l2 \<and> \<not> eventHandling c \<and> fd c = acceptSocket ac"
    and "\<exists>l2. disableAll a l1 = Inr l2 \<and> channel_remove a l2 = Inl AssertFail"
proof -
  let ?c = "setCallback ReadEv (new_Channel (self l) (acceptSocket ac))"
  note ac = new_Acceptor_fds [OF posix new]
  have "acceptSocket ac \<notin> fds (kernel w)" using ac(1) sock by (auto simp: fds_split_def own_fds_def)
  then have free: "map_of (channels l) (acceptSocket ac) = None" using loop(4) by blast
  then have "can_connect a (fd ?c) l" using loop(1-3) sock by (simp add: can_connect_def)
  from tied_registers [OF this] show "\<exists>l2 c. enableReading a l1 = Inr l2 \<and> registered a c l2 \<and> \<not> handlingEvents l2 \<and>
      \<not> eventHandling c \<and> fd c = acceptSocket ac"
    using loop(3) unfolding ac(4) enableReading_def by (force simp: same_loop_def setCallback_def new_Channel_def)
  have "poller_inv l1" using poller_inv_new(1) [OF loop(1,2)] by (simp add: ac(4))
  then show "\<exists>l2. disableAll a l1 = Inr l2 \<and> channel_remove a l2 = Inl AssertFail"
    using free sock loop(3) by (intro disable_remove_fails [of l1 a ?c]) (simp_all add: ac(4) put_chan_def)
qed

text \<open>
  A process that may have three descriptors: after the socket and the reserve one connection can be accepted; the next one is taken with the
  reserve's number and closed.
\<close>

definition sample_acceptor :: Acceptor where
  "sample_acceptor = \<lparr>acceptSocket = 3, acc_chan = 10, has_newConnection = False, listening = False, idleFd = 4\<rparr>"

lemma sample_new_Acceptor:
  "new_Acceptor (table_env 3) 10 (new_InetAddress 80 False) True (table_world, new_Loop 1) =
     Inr (sample_acceptor, table_world\<lparr>kernel := [4, 3]\<rparr>, put_chan 10 (setCallback ReadEv (new_Channel 1 3)) (new_Loop 1))"
  by (simp add: new_Acceptor_def createNonBlockingSocket_def syscall_def table_env_def table_sys_def table_world_def Let_def
      setReuseAddr_def setReusePort_def socket_bind_def sample_acceptor_def new_Loop_def)

lemma sample_new_Acceptor_logged:
  "new_Acceptor (table_env 3) 10 (new_InetAddress 80 False) True (log_msg (table_env 3) lv msg table_world, new_Loop 1) =
     Inr (sample_acceptor, log_msg (table_env 3) lv msg table_world\<lparr>kernel := [4, 3]\<rparr>,
       put_chan 10 (setCallback ReadEv (new_Channel 1 3)) (new_Loop 1))"
  by (simp add: new_Acceptor_def createNonBlockingSocket_def syscall_def table_env_def table_sys_def table_world_def Let_def
      setReuseAddr_def setReusePort_def socket_bind_def sample_acceptor_def new_Loop_def log_msg_def)

definition sample_unstarted :: "Acceptor \<times> nat list World \<times> Loop" where
  "sample_unstarted = (setNewConnectionCallback sample_acceptor, table_world\<lparr>kernel := [4, 3]\<rparr>,
     put_chan 10 (setCallback ReadEv (new_Channel 1 3)) (new_Loop 1))"

lemma sample_new_loop:
  "poller_inv (new_Loop 1)" "chans (new_Loop 1) 10 = None" "\<not> handlingEvents (new_Loop 1)"
  "\<forall>f. map_of (channels (new_Loop 1)) f \<noteq> None \<longrightarrow> f \<in> int ` set (kernel table_world)"
  by (simp_all add: new_Loop_inv) (simp_all add: new_Loop_def)

lemma sample_acceptor_simps: "0 \<le> acceptSocket sample_acceptor" "\<not> listening sample_acceptor" "kernel table_world = []" "acc_chan sample_acceptor = 10"
  by (simp_all add: sample_acceptor_def table_world_def)

lemma sample_listen: "\<exists>rest. acceptor_listen (table_env 3) sample_unstarted = Inr rest"
  using acceptor_registers(1) [OF table_posix sample_new_Acceptor sample_acceptor_simps(1) sample_new_loop]
  by (auto simp: sample_unstarted_def acceptor_listen_def Let_def sample_acceptor_simps)

text \<open>
  C14 (safety). The descriptors of a server. An acceptor that is constructed and listens, then accepts any number of connections, some of which end,
  while the process may run out of descriptors at any time, owns at every moment its socket and its reserve and nothing else: the open descriptors are
  those of the rest of the process, these two, and those of the connections that were handed over and have not ended. Its destructor fails no assert, closes
  both and unregisters the socket. An acceptor that is destroyed before it has listened fails an assert.
\<close>

theorem acceptor_descriptors:
  assumes "posix_fds fds E" and "new_Acceptor E a addr rp (w, l) = Inr (ac, w1, l1)" and "0 \<le> acceptSocket ac"
    and "poller_inv l" and "chans l a = None" and "\<not> handlingEvents l" and "\<forall>f. map_of (channels l) f \<noteq> None \<longrightarrow> f \<in> fds (kernel w)"
  shows "(\<exists>ac2 w2 l2. acceptor_listen E (setNewConnectionCallback ac, w1, l1) = Inr (ac2, w2, l2) \<and>
      (\<forall>evs. case fold (acc_run E) evs (ac2, w2, {}) of (ac3, w3, held) \<Rightarrow>
        fds_split (fds (kernel w)) ac3 held (fds (kernel w3)) \<and>
        (\<exists>w4 l4. destroy_Acceptor E (ac3, w3, l2) = Inr (w4, l4) \<and> fds (kernel w4) = fds (kernel w) \<union> held \<and>
          poller_inv l4 \<and> map_of (channels l4) (acceptSocket ac) = None))) \<and>
    destroy_Acceptor E (ac, w1, l1) = Inl AssertFail"
proof
  note ac = new_Acceptor_fds [OF assms(1,2)]
  obtain l2 c where l2: "enableReading a l1 = Inr l2" "registered a c l2" "\<not> handlingEvents l2" "\<not> eventHandling c" "fd c = acceptSocket ac"
    using acceptor_registers(1) [OF assms] by blast
  let ?ac2 = "setNewConnectionCallback ac\<lparr>listening := True\<rparr>" and ?w2 = "socket_listen E (acceptSocket ac) w1"
  have "acceptor_listen E (setNewConnectionCallback ac, w1, l1) = Inr (?ac2, ?w2, l2)"
    using l2(1) ac(2) by (simp add: acceptor_listen_def Let_def)
  moreover have start: "fds_split (fds (kernel w)) ?ac2 {} (fds (kernel ?w2))"
    using ac(1) by (simp add: fds_split_def world_fds [OF assms(1)])
  have "case fold (acc_run E) evs (?ac2, ?w2, {}) of (ac3, w3, held) \<Rightarrow>
        fds_split (fds (kernel w)) ac3 held (fds (kernel w3)) \<and>
        (\<exists>w4 l4. destroy_Acceptor E (ac3, w3, l2) = Inr (w4, l4) \<and> fds (kernel w4) = fds (kernel w) \<union> held \<and>
          poller_inv l4 \<and> map_of (channels l4) (acceptSocket ac) = None)" for evs
  proof -
    obtain ac3 w3 held where run: "fold (acc_run E) evs (?ac2, ?w2, {}) = (ac3, w3, held)" by (metis prod_cases3)
    with acc_runs [OF assms(1) start, of evs]
    have s: "fds_split (fds (kernel w)) ac3 held (fds (kernel w3))" "acc_chan ac3 = a" using ac(2) by simp_all
    with destroy_Acceptor_fds [OF assms(1) s(1), of c l2] l2 run show ?thesis by auto
  qed
  ultimately show "\<exists>ac2 w2 l2. acceptor_listen E (setNewConnectionCallback ac, w1, l1) = Inr (ac2, w2, l2) \<and>
      (\<forall>evs. case fold (acc_run E) evs (ac2, w2, {}) of (ac3, w3, held) \<Rightarrow>
        fds_split (fds (kernel w)) ac3 held (fds (kernel w3)) \<and>
        (\<exists>w4 l4. destroy_Acceptor E (ac3, w3, l2) = Inr (w4, l4) \<and> fds (kernel w4) = fds (kernel w) \<union> held \<and>
          poller_inv l4 \<and> map_of (channels l4) (acceptSocket ac) = None))" by blast
  show "destroy_Acceptor E (ac, w1, l1) = Inl AssertFail"
    using acceptor_registers(2) [OF assms] ac(2) by (auto simp: destroy_Acceptor_def)
qed

theorem acceptor_descriptors_witness:
  "\<exists>ac2 w2 l2. acceptor_listen (table_env 3) sample_unstarted = Inr (ac2, w2, l2) \<and>
    (case fold (acc_run (table_env 3)) [Readable, Readable] (ac2, w2, {}) of (ac3, w3, held) \<Rightarrow>
      fds_split {} ac3 held (int ` set (kernel w3)) \<and>
      (\<exists>w4 l4. destroy_Acceptor (table_env 3) (ac3, w3, l2) = Inr (w4, l4) \<and> int ` set (kernel w4) = held))"
proof -
  obtain ac2 w2 l2 where l2: "acceptor_listen (table_env 3) sample_unstarted = Inr (ac2, w2, l2)"
      "\<forall>evs. case fold (acc_run (table_env 3)) evs (ac2, w2, {}) of (ac3, w3, held) \<Rightarrow>
        fds_split (int ` set (kernel table_world)) ac3 held (int ` set (kernel w3)) \<and>
        (\<exists>w4 l4. destroy_Acceptor (table_env 3) (ac3, w3, l2) = Inr (w4, l4) \<and>
          int ` set (kernel w4) = int ` set (kernel table_world) \<union> held \<and> poller_inv l4 \<and>
          map_of (channels l4) (acceptSocket sample_acceptor) = None)"
    using acceptor_descriptors [OF table_posix sample_new_Acceptor sample_acceptor_simps(1) sample_new_loop]
    unfolding sample_unstarted_def by blast
  from l2(2) [rule_format, of "[Readable, Readable]"] l2(1) show ?thesis
    by (intro exI [of _ ac2] exI [of _ w2] exI [of _ l2]) (auto simp: sample_acceptor_simps simp del: fold_simps)
qed

text \<open>
  The error number is read after two messages were logged, and nothing restores it: a logger that changes it hides from the acceptor that
  the process has run out of descriptors. Then the reserve is not used, and the connection that waits is neither taken nor closed.
\<close>

lemma errno_hidden:
  assumes "socket_accept E (acceptSocket ac) (new_InetAddress 0 False) w = (g, p, w1)" and "g < 0" and "\<forall>e. log_errno E e \<noteq> EMFILE"
  shows "acceptor_handleRead E ac w = (None, ac, log_msg E ERROR ''Acceptor::handleRead error.'' w1)"
  using assms by (simp add: acceptor_handleRead_def Let_def log_msg_def)

end
