(* ===== verification/Tcp_Server.thy ===== *)
theory Tcp_Server
  imports Loop_Threads Tcp_Connection Acceptor
begin

text \<open>
  \<^verbatim>\<open>net/TcpServer.h\<close> and \<^verbatim>\<open>net/TcpServer.cpp\<close>: making connections of the descriptors the acceptor hands over and keeping track
  of them by name; and the operations of \<^verbatim>\<open>net/TcpConnection.cpp\<close> that only concern the socket. What else a connection does is in \<open>Tcp_Connection\<close>.
\<close>

section \<open>TcpServer\<close>

text \<open>
  Connections are addresses, never used twice. \<open>conn_objs\<close> gives for each of them what \<^verbatim>\<open>newConnection\<close> constructs and sets:
  its name, its loop, its descriptor, the two addresses and its callbacks. \<open>handed\<close> lists the functors handed to event loops, each with the
  loop it was given to, in order.
\<close>

datatype callback_id = DefaultCallback | UserCallback nat

record conn_callbacks =
  connectionCallback :: callback_id
  messageCallback :: callback_id
  writeCompleteCallback :: "nat option"

record conn_obj =
  obj_name :: string
  obj_loop :: nat
  obj_fd :: int
  obj_localAddr :: InetAddress
  obj_peerAddr :: InetAddress
  obj_callbacks :: conn_callbacks

datatype handed_functor = ConnectEstablished nat | ConnectDestroyed nat

record TcpServer =
  srv_loop :: nat
  ipPort :: string
  srv_name :: string
  srv_pool :: EventLoopThreadPool
  srv_callbacks :: conn_callbacks
  srv_started :: bool
  nextConnId :: int
  connections :: "(string \<times> nat) list"
  conn_objs :: "nat \<rightharpoonup> conn_obj"
  handed :: "(nat \<times> handed_functor) list"

definition new_TcpServer :: "nat \<Rightarrow> InetAddress \<Rightarrow> string \<Rightarrow> TcpServer" where
  "new_TcpServer lp listenAddr name =
     \<lparr>srv_loop = lp, ipPort = toIpPort listenAddr, srv_name = name, srv_pool = new_EventLoopThreadPool lp name,
      srv_callbacks = \<lparr>connectionCallback = DefaultCallback, messageCallback = DefaultCallback, writeCompleteCallback = None\<rparr>,
      srv_started = False, nextConnId = 1, connections = [], conn_objs = Map.empty, handed = []\<rparr>"

definition server_setThreadNum :: "int \<Rightarrow> TcpServer \<Rightarrow> TcpServer result" where
  "server_setThreadNum n s = asserting (n \<ge> 0) (Inr (s\<lparr>srv_pool := setThreadNum n (srv_pool s)\<rparr>))"

definition server_setConnectionCallback :: "nat \<Rightarrow> TcpServer \<Rightarrow> TcpServer" where
  "server_setConnectionCallback cb s = s\<lparr>srv_callbacks := (srv_callbacks s)\<lparr>connectionCallback := UserCallback cb\<rparr>\<rparr>"

definition server_setMessageCallback :: "nat \<Rightarrow> TcpServer \<Rightarrow> TcpServer" where
  "server_setMessageCallback cb s = s\<lparr>srv_callbacks := (srv_callbacks s)\<lparr>messageCallback := UserCallback cb\<rparr>\<rparr>"

definition server_setWriteCompleteCallback :: "nat \<Rightarrow> TcpServer \<Rightarrow> TcpServer" where
  "server_setWriteCompleteCallback cb s = s\<lparr>srv_callbacks := (srv_callbacks s)\<lparr>writeCompleteCallback := Some cb\<rparr>\<rparr>"

text \<open>The constructor makes the acceptor and becomes its callback.\<close>

datatype OPtion = kNoReusePort | kReusePort

definition construct_TcpServer ::
  "'k env \<Rightarrow> nat \<Rightarrow> nat \<Rightarrow> InetAddress \<Rightarrow> string \<Rightarrow> OPtion \<Rightarrow> 'k World \<times> Loop \<Rightarrow> (TcpServer \<times> Acceptor \<times> 'k World \<times> Loop) result" where
  "construct_TcpServer E a lp listenAddr name opt st =
     bind_r (new_Acceptor E a listenAddr (opt = kReusePort) st) (\<lambda>(ac, w, l).
       Inr (new_TcpServer lp listenAddr name, setNewConnectionCallback ac, w, l))"

text \<open>\<^verbatim>\<open>start\<close> from the loop's own thread, where \<^verbatim>\<open>runInLoop\<close> calls \<^verbatim>\<open>listen\<close> at once.\<close>

definition server_start ::
  "'k env \<Rightarrow> (nat \<Rightarrow> nat) \<Rightarrow> bool \<Rightarrow> TcpServer \<times> Acceptor \<times> 'k World \<times> Loop \<Rightarrow> (TcpServer \<times> Acceptor \<times> 'k World \<times> Loop) result" where
  "server_start E loop_at has_cb st =
     (case st of (s, ac, w, l) \<Rightarrow>
        if srv_started s then Inr st
        else bind_r (pool_start loop_at has_cb (srv_pool s)) (\<lambda>p.
          asserting (\<not> listening ac)
            (bind_r (acceptor_listen E (ac, w, l)) (\<lambda>(ac', w', l').
               Inr (s\<lparr>srv_pool := p, srv_started := True\<rparr>, ac', w', l')))))"

definition connName :: "TcpServer \<Rightarrow> int \<Rightarrow> string" where
  "connName s n = srv_name s @ snprintf 64 (''-'' @ ipPort s @ ''#'' @ show_int n)"

text \<open>The connection is constructed with the server's own loop; the loop of the pool only runs \<^verbatim>\<open>connectEstablished\<close>.\<close>

definition newConnection :: "(int \<Rightarrow> InetAddress option) \<Rightarrow> nat \<Rightarrow> int \<Rightarrow> InetAddress \<Rightarrow> TcpServer \<Rightarrow> TcpServer result" where
  "newConnection getsockname c sockfd peerAddr s =
     bind_r (getNextLoop (srv_pool s)) (\<lambda>(ioLoop, p).
     bind_r (int32 (nextConnId s + 1)) (\<lambda>n.
       let name = connName s (nextConnId s);
           obj = \<lparr>obj_name = name, obj_loop = srv_loop s, obj_fd = sockfd, obj_localAddr = getLocalAddr getsockname sockfd,
                  obj_peerAddr = peerAddr, obj_callbacks = srv_callbacks s\<rparr>
       in Inr (s\<lparr>srv_pool := p, nextConnId := n, connections := map_set name c (connections s),
                 conn_objs := (conn_objs s)(c \<mapsto> obj), handed := handed s @ [(ioLoop, ConnectEstablished c)]\<rparr>)))"

definition removeConnectionInLoop :: "nat \<Rightarrow> TcpServer \<Rightarrow> TcpServer result" where
  "removeConnectionInLoop c s =
     (case conn_objs s c of
        None \<Rightarrow> Inl UseAfterFree
      | Some obj \<Rightarrow>
          (case map_erase (obj_name obj) (connections s) of (m, k) \<Rightarrow>
             asserting (k = 1) (Inr (s\<lparr>connections := m, handed := handed s @ [(obj_loop obj, ConnectDestroyed c)]\<rparr>))))"

definition destroy_TcpServer :: "TcpServer \<Rightarrow> TcpServer result" where
  "destroy_TcpServer s =
     for_r (map snd (connections s)) (\<lambda>c s'.
       case conn_objs s' c of
         None \<Rightarrow> Inl UseAfterFree
       | Some obj \<Rightarrow> Inr (s'\<lparr>handed := handed s' @ [(obj_loop obj, ConnectDestroyed c)]\<rparr>)) s"

text \<open>The destructor: its body, then that of the acceptor it owns.\<close>

definition delete_TcpServer :: "'k env \<Rightarrow> TcpServer \<times> Acceptor \<times> 'k World \<times> Loop \<Rightarrow> (TcpServer \<times> 'k World \<times> Loop) result" where
  "delete_TcpServer E st =
     (case st of (s, ac, w, l) \<Rightarrow>
        bind_r (destroy_TcpServer s) (\<lambda>s'.
        bind_r (destroy_Acceptor E (ac, w, l)) (\<lambda>(w', l'). Inr (s', w', l'))))"

text \<open>\<^verbatim>\<open>removeConnection\<close>, called in the loop's own thread, where \<^verbatim>\<open>runInLoop\<close> runs its functor at once.\<close>

definition removeConnection :: "nat \<Rightarrow> TcpServer \<Rightarrow> TcpServer result" where
  "removeConnection c s = removeConnectionInLoop c s"

text \<open>
  A readable listening socket, through all the objects: the acceptor hands the descriptor to \<^verbatim>\<open>newConnection\<close>, whose new connection
  asks the socket for keep-alive probes.
\<close>

definition accept_connection ::
  "'k env \<Rightarrow> (int \<Rightarrow> InetAddress option) \<Rightarrow> nat \<Rightarrow> TcpServer \<times> Acceptor \<times> 'k World \<Rightarrow> (TcpServer \<times> Acceptor \<times> 'k World) result" where
  "accept_connection E getsockname c st =
     (case st of (s, ac, w) \<Rightarrow>
      case acceptor_handleRead E ac w of (handed_fd, ac', w1) \<Rightarrow>
        (case handed_fd of
           None \<Rightarrow> Inr (s, ac', w1)
         | Some (sockfd, peerAddr) \<Rightarrow>
             bind_r (newConnection getsockname c sockfd peerAddr s) (\<lambda>s'.
               let w2 = log_msg E INFO (''TcpServer::newConnection ['' @ srv_name s @ ''] - new connection ['' @ connName s (nextConnId s) @
                                        ''] from '' @ toIpPort peerAddr) w1
               in Inr (s', ac', setKeepAlive E sockfd True w2))))"

subsection \<open>The socket of a connection\<close>

definition conn_getTcpInfoString :: "'k env \<Rightarrow> conn_obj \<Rightarrow> 'k World \<Rightarrow> string \<times> 'k World" where
  "conn_getTcpInfoString E obj w = (case getTcpInfoString E (obj_fd obj) [] 1024 w of (ok, buf, w1) \<Rightarrow> (buf, w1))"

definition conn_setTcpNoDelay :: "'k env \<Rightarrow> bool \<Rightarrow> conn_obj \<Rightarrow> 'k World \<Rightarrow> 'k World" where
  "conn_setTcpNoDelay E on obj w = setTcpNoDelay E (obj_fd obj) on w"

text \<open>\<open>strerror_r\<close> is the function of the C library.\<close>

definition handleError :: "'k env \<Rightarrow> (int \<Rightarrow> string) \<Rightarrow> conn_obj \<Rightarrow> 'k World \<Rightarrow> 'k World" where
  "handleError E strerror_r obj w =
     (case syscall E (SysGetSoError (obj_fd obj)) w of (a, w1) \<Rightarrow>
        let optval = (if ret a < 0 then errno w1 else out_error a)
        in log_msg E ERROR (''TcpConnection::handleError ['' @ obj_name obj @ ''] - SO_ERROR = '' @ show_int optval @ '' '' @
                            strerror_r optval) w1)"

section \<open>The map of connections\<close>

text \<open>Connections come and go: \<open>up\<close> are those accepted and not removed.\<close>

datatype srv_op = Accept nat int InetAddress | Close nat

fun srv_run :: "(int \<Rightarrow> InetAddress option) \<Rightarrow> srv_op \<Rightarrow> TcpServer \<times> nat set \<Rightarrow> (TcpServer \<times> nat set) result" where
  "srv_run gsn (Accept c f peer) (s, up) =
     (if conn_objs s c = None then bind_r (newConnection gsn c f peer s) (\<lambda>s'. Inr (s', insert c up)) else Inr (s, up))"
| "srv_run gsn (Close c) (s, up) =
     (if c \<in> up then bind_r (removeConnectionInLoop c s) (\<lambda>s'. Inr (s', up - {c})) else Inr (s, up))"

definition pool_ok :: "EventLoopThreadPool \<Rightarrow> bool" where
  "pool_ok p \<longleftrightarrow> started p \<and> (loops p = [] \<or> 0 \<le> next_index p \<and> nat (next_index p) < length (loops p))"

text \<open>
  The entry of a connection that is up: its object has the server's loop and callbacks, and a name made from a number that
  was given out, under which the map holds the connection.
\<close>

definition entry_ok :: "TcpServer \<Rightarrow> nat \<Rightarrow> bool" where
  "entry_ok s c \<longleftrightarrow> (\<exists>n obj. 1 \<le> n \<and> n < nextConnId s \<and> conn_objs s c = Some obj \<and>
     obj_name obj = connName s n \<and> obj_loop obj = srv_loop s \<and> obj_callbacks obj = srv_callbacks s \<and>
     map_of (connections s) (connName s n) = Some c)"

definition destroyed :: "TcpServer \<Rightarrow> nat list" where
  "destroyed s = concat (map (\<lambda>(lp, f). case f of ConnectDestroyed c \<Rightarrow> [c] | ConnectEstablished c \<Rightarrow> []) (handed s))"

definition srv_inv :: "TcpServer \<times> nat set \<Rightarrow> bool" where
  "srv_inv = (\<lambda>(s, up). pool_ok (srv_pool s) \<and> 1 \<le> nextConnId s \<and> nextConnId s < 2 ^ 31 \<and> length (ipPort s) \<le> 51 \<and>
     map_invar (connections s) \<and> (\<forall>c \<in> up. entry_ok s c) \<and>
     distinct (destroyed s) \<and> set (destroyed s) = dom (conn_objs s) - up \<and>
     (\<forall>nm c. map_of (connections s) nm = Some c \<longrightarrow> c \<in> up \<and> (\<exists>obj. conn_objs s c = Some obj \<and> obj_name obj = nm)))"

lemma getNextLoop_pool:
  assumes "pool_ok p"
  shows "\<exists>lp p'. getNextLoop p = Inr (lp, p') \<and> pool_ok p'"
proof (cases "loops p = []")
  case True
  with assms show ?thesis by (simp add: pool_ok_def getNextLoop_def)
next
  case False
  then have "0 \<le> (next_index p + 1) mod int (length (loops p))" "(next_index p + 1) mod int (length (loops p)) < int (length (loops p))"
    by simp_all
  with False assms show ?thesis by (simp add: pool_ok_def getNextLoop_def nat_less_iff)
qed

lemma connName_fits:
  assumes "0 \<le> n" and "n < 2 ^ 31" and "length (ipPort s) \<le> 51"
  shows "connName s n = srv_name s @ ''-'' @ ipPort s @ ''#'' @ digits (nat n)"
proof -
  have "nat n < 10 ^ 10" using assms(1,2) by (simp add: nat_less_iff)
  then have "length (digits (nat n)) \<le> 10" using length_digits [of "nat n" 10] by simp
  with assms show ?thesis by (simp add: connName_def snprintf_fits show_int_def)
qed

lemma connName_inj:
  assumes "0 \<le> m" and "m < 2 ^ 31" and "0 \<le> n" and "n < 2 ^ 31" and "length (ipPort s) \<le> 51" and "connName s m = connName s n"
  shows "m = n"
  using assms digits_inj [of "nat m" "nat n"] by (simp add: connName_fits)

lemma connName_same [simp]:
  "connName (s\<lparr>srv_pool := p, nextConnId := k, connections := m, conn_objs := i, handed := h\<rparr>) n = connName s n"
  "connName (s\<lparr>connections := m, handed := h\<rparr>) n = connName s n"
  by (simp_all add: connName_def)

lemma newConnection_ok:
  assumes inv: "srv_inv (s, up)" and c: "conn_objs s c = None" and room: "nextConnId s < 2 ^ 31 - 1"
  shows "\<exists>s'. newConnection gsn c f peer s = Inr s' \<and> srv_inv (s', insert c up) \<and> nextConnId s' = nextConnId s + 1 \<and>
    srv_loop s' = srv_loop s \<and> srv_callbacks s' = srv_callbacks s"
proof -
  have ids: "1 \<le> nextConnId s" "length (ipPort s) \<le> 51" "map_invar (connections s)" "pool_ok (srv_pool s)"
    and ent: "\<And>c. c \<in> up \<Longrightarrow> entry_ok s c" and gone: "distinct (destroyed s)" "set (destroyed s) = dom (conn_objs s) - up"
    and own: "\<And>nm c. map_of (connections s) nm = Some c \<Longrightarrow> c \<in> up \<and> (\<exists>obj. conn_objs s c = Some obj \<and> obj_name obj = nm)"
    using inv by (auto simp: srv_inv_def)
  obtain io p where io: "getNextLoop (srv_pool s) = Inr (io, p)" "pool_ok p" using getNextLoop_pool [OF ids(4)] by blast
  let ?n = "nextConnId s"
  let ?obj = "\<lparr>obj_name = connName s ?n, obj_loop = srv_loop s, obj_fd = f, obj_localAddr = getLocalAddr gsn f,
      obj_peerAddr = peer, obj_callbacks = srv_callbacks s\<rparr>"
  let ?s = "s\<lparr>srv_pool := p, nextConnId := ?n + 1, connections := map_set (connName s ?n) c (connections s),
      conn_objs := (conn_objs s)(c \<mapsto> ?obj), handed := handed s @ [(io, ConnectEstablished c)]\<rparr>"
  have run: "newConnection gsn c f peer s = Inr ?s" using io(1) room ids(1) by (simp add: newConnection_def int32_def Let_def)
  have cs: "map_of (connections ?s) = (map_of (connections s))(connName s ?n \<mapsto> c)" "map_invar (connections ?s)"
    using om.lookup_assign [OF ids(3)] om.invar_assign [OF ids(3)] by simp_all
  have old: "entry_ok ?s d" if d: "d \<in> up" for d
  proof -
    obtain n g where n: "1 \<le> n" "n < ?n" "map_of (connections s) (connName s n) = Some d" "conn_objs s d = Some g"
        "obj_name g = connName s n" "obj_loop g = srv_loop s" "obj_callbacks g = srv_callbacks s"
      using ent [OF d] unfolding entry_ok_def by blast
    have "connName s n \<noteq> connName s ?n" using connName_inj [of n ?n s] n ids room by auto
    with n c show ?thesis unfolding entry_ok_def cs by (intro exI [of _ n] exI [of _ g]) auto
  qed
  have new: "entry_ok ?s c" unfolding entry_ok_def cs by (intro exI [of _ ?n] exI [of _ ?obj]) (use ids in simp)
  have "d \<in> insert c up \<and> (\<exists>obj. conn_objs ?s d = Some obj \<and> obj_name obj = nm)" if "map_of (connections ?s) nm = Some d" for nm d
    using that own [of nm d] c unfolding cs by (auto split: if_splits)
  moreover have "distinct (destroyed ?s)" "set (destroyed ?s) = dom (conn_objs ?s) - insert c up"
    using gone c by (auto simp: destroyed_def)
  ultimately have "srv_inv (?s, insert c up)"
    using old new cs ids io(2) room unfolding srv_inv_def by simp
  with run show ?thesis by simp
qed

lemma removeConnection_ok:
  assumes inv: "srv_inv (s, up)" and c: "c \<in> up"
  shows "\<exists>s'. removeConnectionInLoop c s = Inr s' \<and> srv_inv (s', up - {c}) \<and> nextConnId s' = nextConnId s \<and>
    srv_loop s' = srv_loop s \<and> srv_callbacks s' = srv_callbacks s \<and> handed s' = handed s @ [(srv_loop s, ConnectDestroyed c)]"
proof -
  have mi: "map_invar (connections s)" and ent: "\<And>c. c \<in> up \<Longrightarrow> entry_ok s c"
    and gone: "distinct (destroyed s)" "set (destroyed s) = dom (conn_objs s) - up"
    and own: "\<And>nm c. map_of (connections s) nm = Some c \<Longrightarrow> c \<in> up \<and> (\<exists>obj. conn_objs s c = Some obj \<and> obj_name obj = nm)"
    using inv by (auto simp: srv_inv_def)
  obtain n obj where n: "map_of (connections s) (connName s n) = Some c" "conn_objs s c = Some obj"
      "obj_name obj = connName s n" "obj_loop obj = srv_loop s"
    using ent [OF c] unfolding entry_ok_def by blast
  let ?s = "s\<lparr>connections := fst (map_erase (connName s n) (connections s)), handed := handed s @ [(srv_loop s, ConnectDestroyed c)]\<rparr>"
  have run: "removeConnectionInLoop c s = Inr ?s"
    using n om.erase_count [of "connName s n" "connections s"]
    by (simp add: removeConnectionInLoop_def case_prod_beta)
  have cs: "map_of (connections ?s) = (map_of (connections s))(connName s n := None)" "map_invar (connections ?s)"
    using om.lookup_erase [OF mi] om.invar_erase [OF mi] by simp_all
  have old: "entry_ok ?s d" if d: "d \<in> up - {c}" for d
  proof -
    obtain m g where m: "1 \<le> m" "m < nextConnId s" "map_of (connections s) (connName s m) = Some d" "conn_objs s d = Some g"
        "obj_name g = connName s m" "obj_loop g = srv_loop s" "obj_callbacks g = srv_callbacks s"
      using ent [OF DiffD1 [OF d]] unfolding entry_ok_def by blast
    with n d show ?thesis unfolding entry_ok_def cs by (intro exI [of _ m] exI [of _ g]) auto
  qed
  have "d \<in> up - {c} \<and> (\<exists>obj. conn_objs ?s d = Some obj \<and> obj_name obj = nm)" if "map_of (connections ?s) nm = Some d" for nm d
    using that own [of nm d] n unfolding cs by (auto split: if_splits)
  moreover have "distinct (destroyed ?s)" "set (destroyed ?s) = dom (conn_objs ?s) - (up - {c})"
    using gone c n(2) by (auto simp: destroyed_def)
  ultimately have "srv_inv (?s, up - {c})" using old cs inv unfolding srv_inv_def by simp
  with run show ?thesis by simp
qed

lemma srv_run_ok:
  assumes "srv_inv (s, up)" and "nextConnId s < 2 ^ 31 - 1"
  shows "\<exists>s' up'. srv_run gsn ev (s, up) = Inr (s', up') \<and> srv_inv (s', up') \<and> nextConnId s' \<le> nextConnId s + 1 \<and>
    srv_loop s' = srv_loop s \<and> srv_callbacks s' = srv_callbacks s"
proof (cases ev)
  case (Accept c f peer)
  with assms newConnection_ok [of s up c gsn f peer] show ?thesis by (cases "conn_objs s c = None") auto
next
  case (Close c)
  with assms removeConnection_ok [of s up c] show ?thesis by (cases "c \<in> up") auto
qed

lemma srv_runs_ok:
  assumes "srv_inv (s, up)" and "nextConnId s + int (length ops) < 2 ^ 31"
  shows "\<exists>s' up'. for_r ops (srv_run gsn) (s, up) = Inr (s', up') \<and> srv_inv (s', up') \<and>
    srv_loop s' = srv_loop s \<and> srv_callbacks s' = srv_callbacks s"
  using assms
proof (induction ops arbitrary: s up)
  case (Cons ev ops)
  obtain s1 up1 where s1: "srv_run gsn ev (s, up) = Inr (s1, up1)" "srv_inv (s1, up1)" "nextConnId s1 \<le> nextConnId s + 1"
      "srv_loop s1 = srv_loop s" "srv_callbacks s1 = srv_callbacks s"
    using srv_run_ok [OF Cons.prems(1), of gsn ev] Cons.prems(2) by auto
  with Cons.IH [OF s1(2)] Cons.prems(2) show ?case by auto
qed simp

lemma srv_entries:
  assumes "srv_inv (s, up)"
  shows "snd ` set (connections s) = up" and "distinct (map snd (connections s))"
    and "\<And>nm c. (nm, c) \<in> set (connections s) \<Longrightarrow>
      \<exists>obj. conn_objs s c = Some obj \<and> obj_name obj = nm \<and> obj_loop obj = srv_loop s \<and> obj_callbacks obj = srv_callbacks s"
proof -
  have mi: "map_invar (connections s)" and ent: "\<And>c. c \<in> up \<Longrightarrow> entry_ok s c"
    and own: "\<And>nm c. map_of (connections s) nm = Some c \<Longrightarrow> c \<in> up \<and> (\<exists>obj. conn_objs s c = Some obj \<and> obj_name obj = nm)"
    using assms by (auto simp: srv_inv_def)
  have keys: "distinct (map fst (connections s))" by (rule strict_sorted_distinct [OF mi])
  have mem: "(nm, c) \<in> set (connections s) \<longleftrightarrow> map_of (connections s) nm = Some c" for nm c
    using keys by (simp add: map_of_is_SomeI)
  show "snd ` set (connections s) = up"
    using own ent mem unfolding entry_ok_def by (auto simp: image_iff) (metis snd_conv)
  have "nm = nm'" if "(nm, c) \<in> set (connections s)" "(nm', c) \<in> set (connections s)" for nm nm' c
    using that own [of nm c] own [of nm' c] by (auto simp: mem)
  then have "inj_on snd (set (connections s))" by (auto simp: inj_on_def)
  moreover have "distinct (connections s)" using keys by (simp add: distinct_map)
  ultimately show "distinct (map snd (connections s))" by (simp add: distinct_map)
  show "\<exists>obj. conn_objs s c = Some obj \<and> obj_name obj = nm \<and> obj_loop obj = srv_loop s \<and> obj_callbacks obj = srv_callbacks s"
    if "(nm, c) \<in> set (connections s)" for nm c
  proof -
    have "map_of (connections s) nm = Some c" using that mem by blast
    then have "c \<in> up" "\<exists>obj. conn_objs s c = Some obj \<and> obj_name obj = nm" using own by blast+
    with ent [of c] show ?thesis unfolding entry_ok_def by auto
  qed
qed

lemma destroy_run:
  assumes "\<And>c. c \<in> set cs \<Longrightarrow> \<exists>obj. conn_objs s c = Some obj \<and> obj_loop obj = lp"
  shows "for_r cs (\<lambda>c s'. case conn_objs s' c of None \<Rightarrow> Inl UseAfterFree
      | Some obj \<Rightarrow> Inr (s'\<lparr>handed := handed s' @ [(obj_loop obj, ConnectDestroyed c)]\<rparr>)) s =
    Inr (s\<lparr>handed := handed s @ map (\<lambda>c. (lp, ConnectDestroyed c)) cs\<rparr>)"
  using assms
proof (induction cs arbitrary: s)
  case (Cons c cs)
  obtain obj where "conn_objs s c = Some obj" "obj_loop obj = lp" using Cons.prems [of c] by auto
  then show ?case using Cons.IH [of "s\<lparr>handed := handed s @ [(lp, ConnectDestroyed c)]\<rparr>"] Cons.prems by simp
qed simp

lemma destroy_ok:
  assumes "srv_inv (s, up)"
  shows "\<exists>s'. destroy_TcpServer s = Inr s' \<and> distinct (destroyed s') \<and> set (destroyed s') = dom (conn_objs s)"
proof -
  note e = srv_entries [OF assms]
  let ?cs = "map snd (connections s)"
  have objs: "\<exists>obj. conn_objs s c = Some obj \<and> obj_loop obj = srv_loop s" if "c \<in> set ?cs" for c
    using that e(3) by fastforce
  have run: "destroy_TcpServer s = Inr (s\<lparr>handed := handed s @ map (\<lambda>c. (srv_loop s, ConnectDestroyed c)) ?cs\<rparr>)"
    unfolding destroy_TcpServer_def by (rule destroy_run [OF objs])
  have "concat (map (\<lambda>c. [c]) cs) = cs" for cs :: "nat list" by (induction cs) simp_all
  then have d: "destroyed (s\<lparr>handed := handed s @ map (\<lambda>c. (srv_loop s, ConnectDestroyed c)) ?cs\<rparr>) = destroyed s @ ?cs"
    by (simp add: destroyed_def comp_def)
  have g: "distinct (destroyed s)" "set (destroyed s) = dom (conn_objs s) - up" using assms by (auto simp: srv_inv_def)
  have "up \<subseteq> dom (conn_objs s)" using objs e(1) by auto
  then have "distinct (destroyed s @ ?cs)" "set (destroyed s @ ?cs) = dom (conn_objs s)"
    using g e(1,2) by auto
  with run d show ?thesis by simp
qed

lemma server_started_inv:
  assumes "server_setThreadNum n ((new_TcpServer lp addr nm)\<lparr>srv_callbacks := cbs\<rparr>) = Inr s0"
    and "server_start E loop_at has_cb (s0, rest) = Inr (s, rest')"
  shows "srv_inv (s, {})" and "srv_loop s = lp" and "nextConnId s = 1" and "srv_callbacks s = cbs"
proof -
  have s0: "s0 = (new_TcpServer lp addr nm)\<lparr>srv_callbacks := cbs, srv_pool := setThreadNum n (new_EventLoopThreadPool lp nm)\<rparr>" "0 \<le> n"
    using assms(1) by (auto simp: server_setThreadNum_def result_simps new_TcpServer_def)
  have "\<exists>p. pool_start loop_at has_cb (setThreadNum n (new_EventLoopThreadPool lp nm)) = Inr p \<and> pool_ok p"
    by (auto simp: pool_start_def start_threads pool_ok_def Let_def setThreadNum_def new_EventLoopThreadPool_def)
  then obtain p where p: "pool_start loop_at has_cb (srv_pool s0) = Inr p" "pool_ok p" using s0 by auto
  then have s: "s = s0\<lparr>srv_pool := p, srv_started := True\<rparr>"
    using assms(2) s0 by (auto simp: server_start_def new_TcpServer_def result_simps split: prod.splits)
  show "srv_inv (s, {})" "srv_loop s = lp" "nextConnId s = 1" "srv_callbacks s = cbs"
    using p(2) length_toIpPort [of addr] by (simp_all add: s s0 new_TcpServer_def srv_inv_def destroyed_def)
qed

lemma server_runs:
  assumes "server_setThreadNum n ((new_TcpServer lp addr nm)\<lparr>srv_callbacks := cbs\<rparr>) = Inr s0"
    and "server_start E loop_at has_cb (s0, rest) = Inr (s1, rest')" and "int (length ops) < 2 ^ 31 - 1"
  shows "\<exists>s up. for_r ops (srv_run gsn) (s1, {}) = Inr (s, up) \<and>
    snd ` set (connections s) = up \<and> distinct (map fst (connections s)) \<and> distinct (map snd (connections s)) \<and>
    (\<forall>(nm', c) \<in> set (connections s). \<exists>obj. conn_objs s c = Some obj \<and> obj_name obj = nm' \<and> obj_loop obj = lp \<and>
       obj_callbacks obj = cbs) \<and>
    (\<exists>s'. destroy_TcpServer s = Inr s' \<and> distinct (destroyed s') \<and> set (destroyed s') = dom (conn_objs s))"
proof -
  note st = server_started_inv [OF assms(1,2)]
  obtain s up where s: "for_r ops (srv_run gsn) (s1, {}) = Inr (s, up)" "srv_inv (s, up)" "srv_loop s = srv_loop s1"
      "srv_callbacks s = srv_callbacks s1"
    using srv_runs_ok [OF st(1), of ops gsn] st(3) assms(3) by auto
  note e = srv_entries [OF s(2)]
  have "map_invar (connections s)" using s(2) by (simp add: srv_inv_def)
  then have keys: "distinct (map fst (connections s))" by (rule strict_sorted_distinct)
  have objs: "\<forall>(nm', c) \<in> set (connections s). \<exists>obj. conn_objs s c = Some obj \<and> obj_name obj = nm' \<and> obj_loop obj = lp \<and>
      obj_callbacks obj = cbs"
    using e(3) s(3,4) st(2,4) by auto
  show ?thesis
    by (intro exI [of _ s] exI [of _ up] conjI s(1) e(1,2) keys objs destroy_ok [OF s(2)])
qed

text \<open>
  C12 (invariant). A started server accepts and removes connections, in any order and up to the number its counter can hold, without a
  failed assert: the map holds exactly the connections that are up, each once and under its own name; each has the server's own loop,
  whatever loop the pool chose, and the callbacks set before the start. When the server is destroyed, \<^verbatim>\<open>connectDestroyed\<close> has been
  handed over exactly once for every connection ever accepted.
\<close>

theorem server_connections:
  assumes "server_setThreadNum n ((new_TcpServer lp addr nm)\<lparr>srv_callbacks := cbs\<rparr>) = Inr s0"
    and "server_start E loop_at has_cb (s0, rest) = Inr (s1, rest')" and "int (length ops) < 2 ^ 31 - 1"
  shows "\<exists>s up. for_r ops (srv_run gsn) (s1, {}) = Inr (s, up) \<and>
    snd ` set (connections s) = up \<and> distinct (map fst (connections s)) \<and> distinct (map snd (connections s)) \<and>
    (\<forall>(nm', c) \<in> set (connections s). \<exists>obj. conn_objs s c = Some obj \<and> obj_name obj = nm' \<and> obj_loop obj = lp \<and>
       obj_callbacks obj = cbs) \<and>
    (\<exists>s'. destroy_TcpServer s = Inr s' \<and> distinct (destroyed s') \<and> set (destroyed s') = dom (conn_objs s))"
  by (rule server_runs [OF assms])

lemma sample_start:
  assumes "srv_started s0 = False" and "started (srv_pool s0) = False"
  shows "\<exists>s1 rest. server_start (table_env 3) loop_at has_cb (s0, sample_unstarted) = Inr (s1, rest)"
proof -
  obtain ac w l where "acceptor_listen (table_env 3) sample_unstarted = Inr (ac, w, l)" using sample_listen by (metis prod_cases3)
  with assms show ?thesis
    by (auto simp: server_start_def pool_start_def Let_def sample_unstarted_def setNewConnectionCallback_def sample_acceptor_def
        split: prod.splits)
qed

theorem server_connections_witness:
  "\<exists>s0 s1 rest'. server_setThreadNum 2 (server_setMessageCallback 3 (new_TcpServer 1 (new_InetAddress 80 False) ''web'')) = Inr s0 \<and>
    server_start (table_env 3) (\<lambda>i. 100 + i) False (s0, sample_unstarted) = Inr (s1, rest') \<and>
    (\<exists>s up. for_r [Accept 7 8 (new_InetAddress 5000 True), Accept 9 10 (new_InetAddress 5001 True), Close 7] (srv_run (\<lambda>f. None)) (s1, {}) =
        Inr (s, up) \<and> snd ` set (connections s) = up \<and>
      (\<exists>s'. destroy_TcpServer s = Inr s' \<and> distinct (destroyed s') \<and> set (destroyed s') = dom (conn_objs s)))"
proof -
  let ?new = "new_TcpServer 1 (new_InetAddress 80 False) ''web''"
  let ?cbs = "(srv_callbacks ?new)\<lparr>messageCallback := UserCallback 3\<rparr>"
  let ?s0 = "?new\<lparr>srv_callbacks := ?cbs, srv_pool := setThreadNum 2 (new_EventLoopThreadPool 1 ''web'')\<rparr>"
  let ?ops = "[Accept 7 8 (new_InetAddress 5000 True), Accept 9 10 (new_InetAddress 5001 True), Close 7]"
  have set: "server_setThreadNum 2 (?new\<lparr>srv_callbacks := ?cbs\<rparr>) = Inr ?s0"
    by (simp add: server_setThreadNum_def new_TcpServer_def)
  obtain s1 rest' where start: "server_start (table_env 3) (\<lambda>i. 100 + i) False (?s0, sample_unstarted) = Inr (s1, rest')"
    using sample_start [of ?s0 "\<lambda>i. 100 + i" False] unfolding new_TcpServer_def new_EventLoopThreadPool_def setThreadNum_def by auto
  have small: "int (length ?ops) < 2 ^ 31 - 1" by simp
  have "server_setThreadNum 2 (server_setMessageCallback 3 ?new) = Inr ?s0"
    using set by (simp only: server_setMessageCallback_def)
  then show ?thesis
    using start server_connections [OF set start small, of "\<lambda>f. None"]
    by (intro exI [of _ ?s0] exI [of _ s1] exI [of _ rest']) auto
qed

end
