(* ===== verification/Favicon.thy ===== *)
theory Favicon
  imports Tundra_Prelude
begin

text \<open>
  The picture \<^verbatim>\<open>favicon\<close> of \<^verbatim>\<open>main.cpp\<close>, byte by byte, and what a reader of pictures relies on: the file format of PNG at
  the level of chunks, each a length, a type, that many bytes of data and a checksum over type and data.
\<close>

section \<open>The array\<close>

definition favicon :: bytes where
  "favicon = [
     CHR 0x89, CHR ''P'', CHR ''N'', CHR ''G'', CHR 0x0D, CHR 0x0A, CHR 0x1A, CHR 0x0A,
     CHR 0x00, CHR 0x00, CHR 0x00, CHR 0x0D, CHR ''I'', CHR ''H'', CHR ''D'', CHR ''R'',
     CHR 0x00, CHR 0x00, CHR 0x00, CHR 0x10, CHR 0x00, CHR 0x00, CHR 0x00, CHR 0x10,
     CHR 0x08, CHR 0x06, CHR 0x00, CHR 0x00, CHR 0x00, CHR 0x1F, CHR 0xF3, CHR 0xFF,
     CHR ''a'', CHR 0x00, CHR 0x00, CHR 0x00, CHR 0x19, CHR ''t'', CHR ''E'', CHR ''X'',
     CHR ''t'', CHR ''S'', CHR ''o'', CHR ''f'', CHR ''t'', CHR ''w'', CHR ''a'', CHR ''r'',
     CHR ''e'', CHR 0x00, CHR ''A'', CHR ''d'', CHR ''o'', CHR ''b'', CHR ''e'', CHR 0x20,
     CHR ''I'', CHR ''m'', CHR ''a'', CHR ''g'', CHR ''e'', CHR ''R'', CHR ''e'', CHR ''a'',
     CHR ''d'', CHR ''y'', CHR ''q'', CHR 0xC9, CHR ''e'', CHR 0x3C, CHR 0x00, CHR 0x00,
     CHR 0x01, CHR 0xCD, CHR ''I'', CHR ''D'', CHR ''A'', CHR ''T'', CHR ''x'', CHR 0xDA,
     CHR 0x94, CHR 0x93, CHR ''9'', CHR ''H'', CHR 0x03, CHR ''A'', CHR 0x14, CHR 0x86,
     CHR 0xFF, CHR 0x5D, CHR ''b'', CHR 0xA7, CHR 0x04, CHR ''R'', CHR 0xC4, CHR ''m'',
     CHR 0x22, CHR 0x1E, CHR 0xA0, CHR ''F'', CHR 0x24, CHR 0x08, CHR 0x16, CHR 0x16,
     CHR ''v'', CHR 0x0A, CHR ''6'', CHR 0xBA, CHR ''J'', CHR 0x9A, CHR 0x80, CHR 0x08,
     CHR ''A'', CHR 0xB4, CHR ''q'', CHR 0x85, CHR ''X'', CHR 0x89, CHR ''G'', CHR 0xB0,
     CHR ''I'', CHR 0xA9, CHR ''Q'', CHR 0x24, CHR 0xCD, CHR 0xA6, CHR 0x08, CHR 0xA4,
     CHR ''H'', CHR ''c'', CHR 0x91, CHR ''B'', CHR 0x0B, CHR 0xAF, CHR ''V'', CHR 0xC1,
     CHR ''F'', CHR 0xB4, CHR 0x15, CHR 0xCF, CHR 0x22, CHR ''X'', CHR 0x98, CHR 0x0B,
     CHR ''T'', CHR ''H'', CHR 0x8A, CHR ''d'', CHR 0x93, CHR 0x8D, CHR 0xFB, CHR ''F'',
     CHR ''g'', CHR 0xC9, CHR 0x1A, CHR 0x14, CHR 0x7D, CHR 0xF0, CHR ''f'', CHR ''v'',
     CHR ''f'', CHR 0xDF, CHR 0x7C, CHR 0xEF, CHR 0xE7, CHR ''g'', CHR ''F'', CHR 0xA8,
     CHR 0xD5, CHR ''j'', CHR ''H'', CHR 0x24, CHR 0x12, CHR 0x2A, CHR 0x00, CHR 0x05,
     CHR 0xBF, CHR ''G'', CHR 0xD4, CHR 0xEF, CHR 0xF7, CHR 0x2F, CHR ''6'', CHR 0xEC,
     CHR 0x12, CHR 0x20, CHR 0x1E, CHR 0x8F, CHR 0xD7, CHR 0xAA, CHR 0xD5, CHR 0xEA,
     CHR 0xAF, CHR ''I'', CHR ''5'', CHR ''F'', CHR 0xAA, CHR ''T'', CHR 0x5F, CHR 0x9F,
     CHR 0x22, CHR ''A'', CHR 0x2A, CHR 0x95, CHR 0x0A, CHR 0x83, CHR 0xE5, CHR ''r'',
     CHR ''9'', CHR ''d'', CHR 0xB3, CHR ''Y'', CHR 0x96, CHR 0x99, CHR ''L'', CHR 0x06,
     CHR 0xE9, CHR ''t'', CHR 0x9A, CHR 0x25, CHR 0x85, CHR 0x2C, CHR 0xCB, CHR ''T'',
     CHR 0xA7, CHR 0xC4, CHR ''b'', CHR ''1'', CHR 0xB5, CHR 0x5E, CHR 0x00, CHR 0x03,
     CHR ''h'', CHR 0x9A, CHR 0xC6, CHR 0x16, CHR 0x82, CHR 0x20, CHR ''X'', CHR ''R'',
     CHR 0x14, CHR ''E'', CHR ''6'', CHR ''S'', CHR 0x94, CHR 0xCB, CHR ''e'', CHR ''x'',
     CHR 0xBD, CHR 0x5E, CHR 0xAA, CHR ''U'', CHR ''T'', CHR 0x23, CHR ''L'', CHR 0xC0,
     CHR 0xE0, CHR 0xE2, CHR 0xC1, CHR 0x8F, CHR 0x00, CHR 0x9E, CHR 0xBC, CHR 0x09,
     CHR ''A'', CHR 0x7C, CHR 0x3E, CHR 0x1F, CHR 0x83, CHR ''D'', CHR 0x22, CHR 0x11,
     CHR 0xD5, CHR ''T'', CHR 0x40, CHR 0x3F, CHR ''8'', CHR 0x80, CHR ''w'', CHR 0xE5,
     CHR ''3'', CHR 0x07, CHR 0xB8, CHR 0x5C, CHR 0x2E, CHR ''H'', CHR 0x92, CHR 0x04,
     CHR 0x87, CHR 0xC3, CHR 0x81, CHR 0x40, CHR 0x20, CHR 0x40, CHR ''g'', CHR 0x98,
     CHR 0xE9, CHR ''6'', CHR 0x1A, CHR 0xA6, CHR ''g'', CHR 0x15, CHR 0x04, CHR 0xE3,
     CHR 0xD7, CHR 0xC8, CHR 0xBD, CHR 0x15, CHR 0xE1, CHR ''i'', CHR 0xB7, CHR ''C'',
     CHR 0xAB, CHR 0xEA, CHR ''x'', CHR 0x2F, CHR ''j'', CHR ''X'', CHR 0x92, CHR 0xBB,
     CHR 0x18, CHR 0x20, CHR 0x9F, CHR 0xCF, CHR ''3'', CHR 0xC3, CHR 0xB8, CHR 0xE9,
     CHR ''N'', CHR 0xA7, CHR 0xD3, CHR ''l'', CHR ''J'', CHR 0x00, CHR ''i'', CHR ''6'',
     CHR 0x7C, CHR 0x8E, CHR 0xE1, CHR 0xFE, CHR ''V'', CHR 0x84, CHR 0xE7, CHR 0x3C,
     CHR 0x9F, CHR ''r'', CHR 0x2B, CHR 0x3A, CHR ''B'', CHR 0x7B, CHR ''7'', CHR ''f'',
     CHR ''w'', CHR 0xAE, CHR 0x8E, CHR 0x0E, CHR 0xF3, CHR 0xBD, CHR ''R'', CHR 0xA9,
     CHR ''d'', CHR 0x02, CHR ''B'', CHR 0xAF, CHR 0x85, CHR ''2'', CHR ''f'', CHR ''F'',
     CHR 0xBA, CHR 0x0C, CHR 0xD9, CHR 0x9F, CHR 0x1D, CHR 0x9A, CHR ''l'', CHR 0x22,
     CHR 0xE6, CHR 0xC7, CHR 0x3A, CHR 0x2C, CHR 0x80, CHR 0xEF, CHR 0xC1, CHR 0x15,
     CHR 0x90, CHR 0x07, CHR 0x93, CHR 0xA2, CHR 0x28, CHR 0xA0, CHR ''S'', CHR ''j'',
     CHR 0xB1, CHR 0xB8, CHR 0xDF, CHR 0x29, CHR ''5'', CHR ''C'', CHR 0x0E, CHR 0x3F,
     CHR ''X'', CHR 0xFC, CHR 0x98, CHR 0xDA, CHR ''y'', CHR ''j'', CHR ''P'', CHR 0x40,
     CHR 0x00, CHR 0x87, CHR 0xAE, CHR 0x1B, CHR 0x17, CHR ''B'', CHR 0xB4, CHR 0x3A,
     CHR 0x3F, CHR 0xBE, CHR ''y'', CHR 0xC7, CHR 0x0A, CHR 0x26, CHR 0xB6, CHR 0xEE,
     CHR 0xD9, CHR 0x9A, CHR 0x60, CHR 0x14, CHR 0x93, CHR 0xDB, CHR 0x8F, CHR 0x0D,
     CHR 0x0A, CHR 0x2E, CHR 0xE9, CHR 0x23, CHR 0x95, CHR 0x29, CHR ''X'', CHR 0x00,
     CHR 0x27, CHR 0xEB, CHR ''n'', CHR ''V'', CHR ''p'', CHR 0xBC, CHR 0xD6, CHR 0xCB,
     CHR 0xD6, CHR ''G'', CHR 0xAB, CHR 0x3D, CHR ''l'', CHR 0x7D, CHR 0xB8, CHR 0xD2,
     CHR 0xDD, CHR 0xA0, CHR 0x60, CHR 0x83, CHR 0xBA, CHR 0xEF, CHR 0x5F, CHR 0xA4,
     CHR 0xEA, CHR 0xCC, CHR 0x02, CHR ''N'', CHR 0xAE, CHR 0x5E, CHR ''p'', CHR 0x1A,
     CHR 0xEC, CHR 0xB3, CHR 0x40, CHR ''9'', CHR 0xAC, CHR 0xFE, CHR 0xF2, CHR 0x91,
     CHR 0x89, CHR ''g'', CHR 0x91, CHR 0x85, CHR 0x21, CHR 0xA8, CHR 0x87, CHR 0xB7,
     CHR ''X'', CHR 0x7E, CHR 0x7E, CHR 0x85, CHR 0xBB, CHR 0xCD, CHR ''N'', CHR ''N'',
     CHR ''b'', CHR ''t'', CHR 0x40, CHR 0xFA, CHR 0x93, CHR 0x89, CHR 0xEC, CHR 0x1E,
     CHR 0xEC, CHR 0x86, CHR 0x02, CHR ''H'', CHR 0x26, CHR 0x93, CHR 0xD0, CHR ''u'',
     CHR 0x1D, CHR 0x7F, CHR 0x09, CHR ''2'', CHR 0x95, CHR 0xBF, CHR 0x1F, CHR 0xDB,
     CHR 0xD7, CHR ''c'', CHR 0x8A, CHR 0x1A, CHR 0xF7, CHR 0x5C, CHR 0xC1, CHR 0xFF,
     CHR 0x22, CHR ''J'', CHR 0xC3, CHR 0x87, CHR 0x00, CHR 0x03, CHR 0x00, CHR ''K'',
     CHR 0xBB, CHR 0xF8, CHR 0xD6, CHR 0x2A, CHR ''v'', CHR 0x98, CHR ''I'', CHR 0x00,
     CHR 0x00, CHR 0x00, CHR 0x00, CHR ''I'', CHR ''E'', CHR ''N'', CHR ''D'', CHR 0xAE,
     CHR ''B'', CHR 0x60, CHR 0x82]"

section \<open>The file format\<close>

text \<open>
  The checksum is the cyclic redundancy check with 32 bits. A register is the list of its bits, the least significant one first;
  every bit of the data, from the least significant one of each byte on, moves the register by one place.
\<close>

fun bits_of :: "char \<Rightarrow> bool list" where
  "bits_of (Char b0 b1 b2 b3 b4 b5 b6 b7) = [b0, b1, b2, b3, b4, b5, b6, b7]"

definition crc_polynomial :: "bool list" where
  "crc_polynomial =
     [False, False, False, False, False, True, False, False, True, True, False, False, False, False, False, True,
      False, False, False, True, True, True, False, True, True, False, True, True, False, True, True, True]"

definition crc_bit :: "bool list \<Rightarrow> bool \<Rightarrow> bool list" where
  "crc_bit reg b = (case reg of [] \<Rightarrow> [] | r # rs \<Rightarrow> if r = b then rs @ [False] else map2 (\<noteq>) (rs @ [False]) crc_polynomial)"

definition crc32 :: "bytes \<Rightarrow> bool list" where
  "crc32 d = map Not (foldl crc_bit (replicate 32 True) (concat (map bits_of d)))"

definition big_endian :: "bytes \<Rightarrow> nat" where
  "big_endian d = foldl (\<lambda>n c. 256 * n + of_char c) 0 d"

definition png_signature :: bytes where
  "png_signature = [CHR 0x89, CHR ''P'', CHR ''N'', CHR ''G'', CHR 0x0D, CHR 0x0A, CHR 0x1A, CHR 0x0A]"

text \<open>The chunks of a file with their types, or None when a length leads behind the end or a checksum is wrong.\<close>

function png_chunks :: "bytes \<Rightarrow> (bytes \<times> bytes) list option" where
  "png_chunks d =
     (if d = [] then Some []
      else let n = big_endian (take 4 d); typ = take 4 (drop 4 d); payload = take n (drop 8 d)
        in if length d < n + 12 \<or> concat (map bits_of (rev (take 4 (drop (n + 8) d)))) \<noteq> crc32 (typ @ payload) then None
           else map_option ((#) (typ, payload)) (png_chunks (drop (n + 12) d)))"
  by pat_completeness auto
termination by (relation "measure length") auto

definition png_file :: "bytes \<Rightarrow> (bytes \<times> bytes) list option" where
  "png_file d = (if take 8 d = png_signature then png_chunks (drop 8 d) else None)"

text \<open>Width and height are the first two numbers of the first chunk.\<close>

definition png_size :: "(bytes \<times> bytes) list \<Rightarrow> nat \<times> nat" where
  "png_size cs = (let hdr = snd (hd cs) in (big_endian (take 4 hdr), big_endian (take 4 (drop 4 hdr))))"

lemma length_favicon [simp]: "length favicon = 555"
  by (simp add: favicon_def)

text \<open>Computation: the length and the checksum of the chunk at an offset of the array.\<close>

definition chunk_at :: "nat \<Rightarrow> nat \<Rightarrow> bool" where
  "chunk_at i n \<longleftrightarrow> big_endian (block favicon i (i + 4)) = n \<and>
     concat (map bits_of (rev (block favicon (i + n + 8) (i + n + 12)))) = crc32 (block favicon (i + 4) (i + n + 8))"

lemma chunks_at: "chunk_at 8 13" "chunk_at 33 25" "chunk_at 70 461" "chunk_at 543 0"
  by code_simp+

lemma png_chunks_at:
  assumes "chunk_at i n" and "i + n + 12 \<le> 555"
  shows "png_chunks (drop i favicon) =
    map_option ((#) (block favicon (i + 4) (i + 8), block favicon (i + 8) (i + n + 8))) (png_chunks (drop (i + n + 12) favicon))"
proof -
  let ?d = "drop i favicon"
  have long: "\<not> length ?d < n + 12" using assms(2) by simp
  then have "?d \<noteq> []" by (cases ?d) auto
  moreover have "take 4 ?d = block favicon i (i + 4)" "take 4 (drop 4 ?d) = block favicon (i + 4) (i + 8)"
    "take n (drop 8 ?d) = block favicon (i + 8) (i + n + 8)" "take 4 (drop (n + 8) ?d) = block favicon (i + n + 8) (i + n + 12)"
    by (simp_all add: block_def ac_simps)
  moreover have "block favicon (i + 4) (i + 8) @ block favicon (i + 8) (i + n + 8) = block favicon (i + 4) (i + n + 8)"
    by (simp add: block_append)
  ultimately show ?thesis
    using assms(1) long by (subst png_chunks.simps) (simp add: chunk_at_def Let_def ac_simps del: png_chunks.simps)
qed

lemma favicon_types:
  "block favicon 12 16 = ''IHDR''" "block favicon 37 41 = ''tEXt''" "block favicon 74 78 = ''IDAT''" "block favicon 547 551 = ''IEND''"
  by code_simp+

lemma favicon_chunks:
  "png_file favicon =
     Some [(''IHDR'', block favicon 16 29), (''tEXt'', block favicon 41 66), (''IDAT'', block favicon 78 539), (''IEND'', [])]"
proof -
  have "png_chunks [] = Some []" by simp
  then have "png_chunks (drop 8 favicon) =
     Some [(''IHDR'', block favicon 16 29), (''tEXt'', block favicon 41 66), (''IDAT'', block favicon 78 539), (''IEND'', [])]"
    using chunks_at by (simp add: png_chunks_at favicon_types del: png_chunks.simps)
  moreover have "take 8 favicon = png_signature" by (simp add: favicon_def png_signature_def)
  ultimately show ?thesis by (simp add: png_file_def del: png_chunks.simps)
qed

lemma favicon_size: "big_endian (take 4 (block favicon 16 29)) = 16" "big_endian (take 4 (drop 4 (block favicon 16 29))) = 16"
  by code_simp+

text \<open>
  The picture the server sends for \<^verbatim>\<open>/favicon.ico\<close> is a sound PNG file: behind the signature
  its 555 bytes are exactly four chunks, the header with its size of 16 by 16 pixels first, then a text, the image data and the end mark, the lengths
  add up to the size of the array and every checksum is right.
\<close>

theorem favicon_png:
  "map_option (map (\<lambda>(typ, payload). (typ, length payload))) (png_file favicon) =
     Some [(''IHDR'', 13), (''tEXt'', 25), (''IDAT'', 461), (''IEND'', 0)] \<and>
   map_option png_size (png_file favicon) = Some (16, 16)"
  by (simp add: favicon_chunks favicon_size length_block png_size_def)

end
