(* ===== verification/Http_Server.thy ===== *)
theory Http_Server
  imports Http_Context Tcp_Server Favicon
begin

text \<open>
  \<^verbatim>\<open>http/HttpServer.h\<close>, \<^verbatim>\<open>http/HttpServer.cpp\<close> and the request handler of \<^verbatim>\<open>main.cpp\<close>: what the server does with the
  bytes of a connection. The parser, the serialisation, the buffers and the connection come together here.
\<close>

section \<open>HttpServer\<close>

type_synonym HttpCallback = "HttpRequest \<Rightarrow> HttpResponse \<Rightarrow> HttpResponse"

definition defaultHttpCallback :: HttpCallback where
  "defaultHttpCallback req resp = setCloseConnection True (setStatusMessage ''Not Found'' (setStatusCode k404NotFound resp))"

definition bad_request :: bytes where
  "bad_request = ''HTTP/1.1 400 Bad Request'' @ kCRLF @ kCRLF"

definition asks_close :: "HttpRequest \<Rightarrow> bool" where
  "asks_close req \<longleftrightarrow>
     getHeader ''Connection'' req = ''close'' \<or> (version req = kHttp10 \<and> getHeader ''Connection'' req \<noteq> ''Keep-Alive'')"

definition onRequest :: "HttpCallback \<Rightarrow> write_out \<Rightarrow> HttpRequest \<Rightarrow> conn_sys \<Rightarrow> conn_sys result" where
  "onRequest cb out req s =
     (let response = cb req (new_HttpResponse (asks_close req)) in
      bind_r (new_buffer kInitialSize) (\<lambda>b0.
      bind_r (appendToBuffer response b0) (\<lambda>b1.
      bind_r (send_buffer True out b1 s) (\<lambda>(b2, s1).
        if closeConnection response then shutdown True s1 else Inr s1))))"

text \<open>
  \<^verbatim>\<open>onMessage\<close> parses with a context of its own. \<open>out\<close> is the answer of the \<^verbatim>\<open>write\<close> it causes. None is the value of a parser
  that does not return.
\<close>

definition onMessage :: "HttpCallback \<Rightarrow> TimeStamp \<Rightarrow> write_out \<Rightarrow> conn_sys \<Rightarrow> conn_sys result option" where
  "onMessage cb now out s =
     map_option (\<lambda>res. bind_r res (\<lambda>(ok, context, b).
       let s1 = s\<lparr>conn := (conn s)\<lparr>inputBuffer := b\<rparr>\<rparr>
       in bind_r (if \<not> ok then bind_r (send True out bad_request s1) (shutdown True) else Inr s1) (\<lambda>s2.
            if gotAll context then onRequest cb out (request context) s2 else Inr s2)))
       (parseRequest now new_HttpContext (inputBuffer (conn s)))"

section \<open>The handler of the server program\<close>

text \<open>\<open>now\<close> is the formatted time. What it prints to the terminal is left out.\<close>

definition main_onRequest :: "string \<Rightarrow> HttpCallback" where
  "main_onRequest now req resp =
     (if path req = ''/'' then
        setBody (''<html><head><title>This is title</title></head><body><h1>Hello</h1>Now is '' @ now @ ''</body></html>'')
          (resp_addHeader ''Server'' ''Muduo'' (setContentType ''text/html'' (setStatusMessage ''OK'' (setStatusCode k200OK resp))))
      else if path req = ''/favicon.ico'' then
        setBody favicon (setContentType ''image/png'' (setStatusMessage ''OK'' (setStatusCode k200OK resp)))
      else if path req = ''/hello'' then
        setBody (''hello, world!'' @ [CHR 0x0A])
          (resp_addHeader ''Server'' ''Muduo'' (setContentType ''text/plain'' (setStatusMessage ''OK'' (setStatusCode k200OK resp))))
      else setCloseConnection True (setStatusMessage ''Not Found'' (setStatusCode k404NotFound resp)))"

section \<open>The server object and the server program\<close>

text \<open>The functor of \<^verbatim>\<open>onMessage\<close> is known to the TCP server under a number, which \<open>functors\<close> below resolves.\<close>

definition onMessage_functor :: nat where
  "onMessage_functor = 0"

record HttpServer =
  server :: TcpServer
  httpCallback :: HttpCallback

definition new_HttpServer ::
  "'k env \<Rightarrow> nat \<Rightarrow> nat \<Rightarrow> InetAddress \<Rightarrow> string \<Rightarrow> OPtion \<Rightarrow> 'k World \<times> Loop \<Rightarrow> (HttpServer \<times> Acceptor \<times> 'k World \<times> Loop) result" where
  "new_HttpServer E a lp listenAddr name opt st =
     bind_r (construct_TcpServer E a lp listenAddr name opt st) (\<lambda>(s, rest).
       Inr (\<lparr>server = server_setMessageCallback onMessage_functor s, httpCallback = defaultHttpCallback\<rparr>, rest))"

definition setHttpCallback :: "HttpCallback \<Rightarrow> HttpServer \<Rightarrow> HttpServer" where
  "setHttpCallback cb h = h\<lparr>httpCallback := cb\<rparr>"

definition http_setThreadNum :: "int \<Rightarrow> HttpServer \<Rightarrow> HttpServer result" where
  "http_setThreadNum n h = bind_r (server_setThreadNum n (server h)) (\<lambda>s. Inr (h\<lparr>server := s\<rparr>))"

definition http_start ::
  "'k env \<Rightarrow> (nat \<Rightarrow> nat) \<Rightarrow> bool \<Rightarrow> HttpServer \<times> Acceptor \<times> 'k World \<times> Loop \<Rightarrow> (HttpServer \<times> Acceptor \<times> 'k World \<times> Loop) result" where
  "http_start E loop_at has_cb st =
     (case st of (h, ac, w, l) \<Rightarrow>
        let w1 = log_msg E WARN (''HttpServer['' @ srv_name (server h) @ ''] starts listening on '' @ ipPort (server h)) w
        in bind_r (server_start E loop_at has_cb (server h, ac, w1, l)) (\<lambda>(s, rest). Inr (h\<lparr>server := s\<rparr>, rest)))"

text \<open>
  The functors the server has made, by number: one, which calls its \<^verbatim>\<open>onMessage\<close>. A connection object calls the message callback it was
  given; the call of a functor that was never made throws.
\<close>

definition functors :: "HttpServer \<Rightarrow> nat \<rightharpoonup> (TimeStamp \<Rightarrow> write_out \<Rightarrow> conn_sys \<Rightarrow> conn_sys result option)" where
  "functors h = [onMessage_functor \<mapsto> onMessage (httpCallback h)]"

definition call_messageCallback :: "HttpServer \<Rightarrow> conn_obj \<Rightarrow> TimeStamp \<Rightarrow> write_out \<Rightarrow> conn_sys \<Rightarrow> conn_sys result option" where
  "call_messageCallback h obj now out s =
     (case messageCallback (obj_callbacks obj) of
        DefaultCallback \<Rightarrow> Some (call_back defaultMessageCallback Message s)
      | UserCallback f \<Rightarrow>
          (case functors h f of
             None \<Rightarrow> Some (Inl Terminated)
           | Some g \<Rightarrow> g now out (s\<lparr>calls := calls s @ [Message]\<rparr>)))"

text \<open>The socket of the connection object \<open>obj\<close> is readable: \<^verbatim>\<open>TcpConnection::handleRead\<close> with the callbacks of the object.\<close>

definition obj_handleRead ::
  "HttpServer \<Rightarrow> conn_obj \<Rightarrow> conn_callback \<Rightarrow> TimeStamp \<Rightarrow> write_out \<Rightarrow> io_in \<Rightarrow> conn_sys \<Rightarrow> conn_sys result option" where
  "obj_handleRead h obj on_conn now out io s = on_readable on_conn Some (call_messageCallback h obj now out) io s"

text \<open>
  The set-up in \<^verbatim>\<open>main\<close>, up to the call of \<^verbatim>\<open>loop\<close>: \<open>arg\<close> is the value \<^verbatim>\<open>atoi\<close> gives for the first argument, if there is one.
\<close>

definition main_setup ::
  "'k env \<Rightarrow> (nat \<Rightarrow> nat) \<Rightarrow> string \<Rightarrow> int option \<Rightarrow> nat \<Rightarrow> nat \<Rightarrow> 'k World \<times> Loop \<Rightarrow> (HttpServer \<times> Acceptor \<times> 'k World \<times> Loop) result" where
  "main_setup E loop_at now arg a lp st =
     (case st of (w, l) \<Rightarrow>
      let numThreads = (case arg of Some n \<Rightarrow> n | None \<Rightarrow> 0);
          listenAddr = new_InetAddress 80 False;
          w1 = log_msg E WARN ''prepare to launch.'' w
      in bind_r (new_HttpServer E a lp listenAddr ''tundra-http-server'' kReusePort (w1, l)) (\<lambda>(h, ac, w2, l2).
         bind_r (http_setThreadNum numThreads (setHttpCallback (main_onRequest now) h)) (\<lambda>h1.
           http_start E loop_at False (h1, ac, log_msg E WARN ''now start http server.'' w2, l2))))"

section \<open>Sending on an idle connection\<close>

definition idle_conn :: "conn_sys \<Rightarrow> bool" where
  "idle_conn s \<longleftrightarrow> (\<exists>c. open_conn c s) \<and> conn_state (conn s) = kConnected \<and> contents (outputBuffer (conn s)) = []"

text \<open>What a connection has accepted for sending, as the peer will see it.\<close>

definition sent :: "conn_sys \<Rightarrow> bytes" where
  "sent s = wire s @ contents (outputBuffer (conn s))"

lemma idle_input: "idle_conn s \<Longrightarrow> buffer_inv b \<Longrightarrow> idle_conn (s\<lparr>conn := (conn s)\<lparr>inputBuffer := b\<rparr>\<rparr>)"
  using open_input by (auto simp: idle_conn_def)

lemma idle_send:
  assumes idle: "idle_conn s" and honest: "write_honest out (length msg)" "\<not> failed_for_good out"
  shows "\<exists>s' c'. sendInLoop out msg s = Inr s' \<and> open_conn c' s' \<and> conn_state (conn s') = kConnected \<and> sent s' = sent s @ msg \<and>
    inputBuffer (conn s') = inputBuffer (conn s)"
proof -
  obtain c where c: "open_conn c s" using idle by (auto simp: idle_conn_def)
  have idle': "contents (outputBuffer (conn s)) = []" "conn_state (conn s) = kConnected" using idle by (auto simp: idle_conn_def)
  have "\<not> shut s" using c idle'(2) by (auto simp: open_conn_def)
  then obtain s' c' where s': "sendInLoop out msg s = Inr s'" "open_conn c' s'" "conn_state (conn s') = conn_state (conn s)"
      "accepted s' = accepted s @ msg"
    using sendInLoop_idle [OF c idle'(1) honest(1)] honest(2) by auto
  have "sent s = accepted s" "sent s' = accepted s'" using c s'(2) by (auto simp: sent_def open_conn_def buffers_ok_def)
  moreover have "inputBuffer (conn s') = inputBuffer (conn s)"
    using s'(1) by (auto simp: sendInLoop_def Let_def buffer_rest_def note_highWater_def queue_task_def on_channel_def bind_r_def
        split: if_splits sum.splits write_out.splits)
  ultimately show ?thesis using s' idle'(2) by auto
qed

lemma idle_calls: "idle_conn s \<Longrightarrow> idle_conn (s\<lparr>calls := calls s @ [Message]\<rparr>)"
  by (auto simp: idle_conn_def conn_defs)

lemma idle_mark [simp]: "idle_conn (mark_handling cur b s) \<longleftrightarrow> idle_conn s" "sent (mark_handling cur b s) = sent s"
  by (simp_all add: idle_conn_def sent_def)

lemma sent_calls [simp]: "sent (s\<lparr>calls := cs\<rparr>) = sent s" "sent (s\<lparr>conn := (conn s)\<lparr>inputBuffer := b\<rparr>\<rparr>) = sent s"
  by (simp_all add: sent_def)

lemma open_shutdown:
  assumes op: "open_conn c s" and st: "conn_state (conn s) = kConnected"
  shows "\<exists>s'. shutdown True s = Inr s' \<and> open_conn c s' \<and> conn_state (conn s') = kDisconnecting \<and> sent s' = sent s \<and>
    inputBuffer (conn s') = inputBuffer (conn s)"
proof -
  let ?s = "set_state kDisconnecting s"
  have "conn_state (conn ?s) = kDisconnecting" by (simp add: set_state_def)
  from shutdownInLoop_ok [OF open_state(3) [OF op] this] st show ?thesis
    by (auto simp: shutdown_def sent_def set_state_def)
qed

lemma status_line_short: "length (status_line r) \<le> 20"
  using length_show_int [of "status_int (statusCode r)" 3] by (cases "statusCode r") (simp_all add: status_line_def)

lemma body_shorter: "length (body r) \<le> length (response_text r)"
  by (simp add: response_text_def)

lemma onRequest_ok:
  assumes idle: "idle_conn s" and resp: "resp = cb req (new_HttpResponse (asks_close req))" and len: "length (response_text resp) < 2 ^ 31"
    and honest: "write_honest out (length (response_text resp))" "\<not> failed_for_good out"
  shows "\<exists>s' c'. onRequest cb out req s = Inr s' \<and> open_conn c' s' \<and> sent s' = sent s @ response_text resp \<and>
    conn_state (conn s') = (if closeConnection resp then kDisconnecting else kConnected) \<and> inputBuffer (conn s') = inputBuffer (conn s)"
proof -
  obtain b0 where b0: "new_buffer kInitialSize = Inr b0" "buffer_inv b0" "contents b0 = []"
    using new_buffer_inv new_buffer_iff by metis
  obtain b1 where b1: "appendToBuffer resp b0 = Inr b1" "buffer_inv b1" "contents b1 = response_text resp"
    using appendToBuffer_ok [OF b0(2), of resp] b0(3) len body_shorter [of resp] by auto
  obtain s1 c1 where s1: "sendInLoop out (response_text resp) s = Inr s1" "open_conn c1 s1" "conn_state (conn s1) = kConnected"
      "sent s1 = sent s @ response_text resp" "inputBuffer (conn s1) = inputBuffer (conn s)"
    using idle_send [OF idle honest] by blast
  have up: "conn_state (conn s) = kConnected" using idle by (simp add: idle_conn_def)
  have "readableBytes b1 = length (response_text resp)" using length_contents [OF b1(2)] b1(3) by simp
  then have "send_buffer True out b1 s = Inr (retrieveAll b1, s1)"
    using up block_peek [OF b1(2)] b1(3) s1(1) sendInLoop_int_small [OF len] by (simp add: send_buffer_def)
  then have run: "onRequest cb out req s = (if closeConnection resp then shutdown True s1 else Inr s1)"
    using b0(1) b1(1) by (simp add: onRequest_def Let_def resp [symmetric])
  show ?thesis
  proof (cases "closeConnection resp")
    case True
    with open_shutdown [OF s1(2,3)] run s1 show ?thesis by auto
  next
    case False
    with run s1 show ?thesis by auto
  qed
qed

text \<open>The request \<open>q\<close> is what the text of \<open>r\<close> with the headers \<open>hs\<close> means.\<close>

definition same_request :: "HttpRequest \<Rightarrow> (bytes \<times> bytes) list \<Rightarrow> HttpRequest \<Rightarrow> bool" where
  "same_request r hs q \<longleftrightarrow> request_method q = request_method r \<and> path q = path r \<and> query q = query r \<and> version q = version r \<and>
     map_of (headers q) = map_of (rev hs)"

definition answer :: "HttpCallback \<Rightarrow> HttpRequest \<Rightarrow> HttpResponse" where
  "answer cb q = cb q (new_HttpResponse (asks_close q))"

section \<open>Properties\<close>

lemma onMessage_answers:
  assumes "idle_conn s" and "contents (inputBuffer (conn s)) = request_text r hs @ rest" and "request_ok r" and "\<forall>h \<in> set hs. header_ok h"
    and "\<forall>q. same_request r hs q \<longrightarrow> length (response_text (answer cb q)) < 2 ^ 31 \<and> write_honest out (length (response_text (answer cb q)))"
    and "\<not> failed_for_good out"
  shows "\<exists>s' c' q. onMessage cb now out s = Some (Inr s') \<and> open_conn c' s' \<and> same_request r hs q \<and>
    sent s' = sent s @ response_text (answer cb q) \<and> contents (inputBuffer (conn s')) = rest \<and>
    (conn_state (conn s') = kDisconnecting \<longleftrightarrow> closeConnection (answer cb q))"
proof -
  have inv: "buffer_inv (inputBuffer (conn s))" using assms(1) by (auto simp: idle_conn_def open_conn_def buffers_ok_def)
  obtain q b' where p: "parseRequest now new_HttpContext (inputBuffer (conn s)) = Some (Inr (True, \<lparr>state = kGotAll, request = q\<rparr>, b'))"
      "contents b' = rest" "buffer_inv b'" "same_request r hs q"
    using request_text_parses [OF assms(3,4) inv assms(2), of now] unfolding same_request_def by blast
  let ?s1 = "s\<lparr>conn := (conn s)\<lparr>inputBuffer := b'\<rparr>\<rparr>"
  have "onMessage cb now out s = Some (onRequest cb out q ?s1)"
    using p(1) by (simp add: onMessage_def gotAll_def Let_def)
  moreover have "length (response_text (answer cb q)) < 2 ^ 31" "write_honest out (length (response_text (answer cb q)))"
    using assms(5) p(4) by blast+
  then obtain s' c' where s': "onRequest cb out q ?s1 = Inr s'" "open_conn c' s'" "sent s' = sent ?s1 @ response_text (answer cb q)"
      "conn_state (conn s') = (if closeConnection (answer cb q) then kDisconnecting else kConnected)"
      "inputBuffer (conn s') = inputBuffer (conn ?s1)"
    using onRequest_ok [where cb = cb and req = q, OF idle_input [OF assms(1) p(3)] answer_def [of cb q]] assms(6) by blast
  moreover have "sent ?s1 = sent s" by (simp add: sent_def)
  ultimately show ?thesis using p by (intro exI [of _ s'] exI [of _ c'] exI [of _ q]) auto
qed

text \<open>
  The server end to end: when the input buffer of an idle connection holds the text of a well-formed request,
  one call of \<^verbatim>\<open>onMessage\<close> returns and makes the connection send exactly the serialised response the callback builds for that request
  (method, path, query, version, and the last value of each header), leaves the bytes behind the request in the input
  buffer, and starts to close the connection if and only if the response says so. The response is shorter than \<open>2 ^ 31\<close> bytes, the range of the length of a message.
\<close>

theorem http_responds:
  assumes "idle_conn s" and "contents (inputBuffer (conn s)) = request_text r hs @ rest" and "request_ok r" and "\<forall>h \<in> set hs. header_ok h"
    and "\<forall>q. same_request r hs q \<longrightarrow> length (response_text (answer cb q)) < 2 ^ 31 \<and> write_honest out (length (response_text (answer cb q)))"
    and "\<not> failed_for_good out"
  shows "\<exists>s' c' q. onMessage cb now out s = Some (Inr s') \<and> open_conn c' s' \<and> same_request r hs q \<and>
    sent s' = sent s @ response_text (answer cb q) \<and> contents (inputBuffer (conn s')) = rest \<and>
    (conn_state (conn s') = kDisconnecting \<longleftrightarrow> closeConnection (answer cb q))"
  by (rule onMessage_answers [OF assms])

text \<open>An idle connection with given bytes to read.\<close>

definition text_buffer :: "bytes \<Rightarrow> buffer" where
  "text_buffer t = \<lparr>storage = t, readerIndex = 0, writerIndex = length t\<rparr>"

lemma text_buffer_ok [simp]: "buffer_inv (text_buffer t)" "contents (text_buffer t) = t"
  by (simp_all add: text_buffer_def buffer_inv_def contents_def)

lemma sample_idle: "\<exists>s. idle_conn s \<and> contents (inputBuffer (conn s)) = t \<and> sent s = []"
proof -
  obtain s where s: "\<exists>c. open_conn c s" "conn_state (conn s) = kConnected" "contents (outputBuffer (conn s)) = []" "wire s = []"
    using sample_open by blast
  let ?s = "s\<lparr>conn := (conn s)\<lparr>inputBuffer := text_buffer t\<rparr>\<rparr>"
  have "idle_conn s" using s by (simp add: idle_conn_def)
  then have "idle_conn ?s" by (rule idle_input) simp
  moreover have "sent ?s = []" using s(3,4) by (simp add: sent_def)
  ultimately show ?thesis by (intro exI [of _ ?s]) simp
qed

definition get_root :: HttpRequest where
  "get_root = new_HttpRequest\<lparr>request_method := kGet, path := ''/'', version := kHttp11\<rparr>"

lemma get_root_ok: "request_ok get_root"
  by (simp add: get_root_def request_ok_def plain_def new_HttpRequest_def)

theorem http_responds_witness:
  "\<exists>s s' q. contents (inputBuffer (conn s)) = request_text get_root [] @ ''x'' \<and>
    onMessage defaultHttpCallback (TimeStamp 5) (Wrote 0) s = Some (Inr s') \<and>
    sent s' = response_text (answer defaultHttpCallback q) \<and> contents (inputBuffer (conn s')) = ''x'' \<and>
    conn_state (conn s') = kDisconnecting"
proof -
  obtain s where s: "idle_conn s" "contents (inputBuffer (conn s)) = request_text get_root [] @ ''x''" "sent s = []"
    using sample_idle by blast
  have "\<forall>q. same_request get_root [] q \<longrightarrow> length (response_text (answer defaultHttpCallback q)) < 2 ^ 31 \<and>
      write_honest (Wrote 0) (length (response_text (answer defaultHttpCallback q)))"
    using status_line_short [of "answer defaultHttpCallback q" for q]
    by (force simp: answer_def defaultHttpCallback_def setCloseConnection_def setStatusMessage_def setStatusCode_def
        new_HttpResponse_def write_honest_def response_text_def kCRLF_def close_line_def intro: le_less_trans)
  from http_responds [OF s(1,2) get_root_ok _ this, of "TimeStamp 5"] s show ?thesis
    by (auto simp: failed_for_good_def answer_def defaultHttpCallback_def setCloseConnection_def)
qed

text \<open>A readable event on a connection of an HTTP server.\<close>

lemma obj_handleRead_bytes:
  assumes idle: "idle_conn s" and cb: "messageCallback (obj_callbacks obj) = UserCallback onMessage_functor"
    and d: "d \<noteq> []" "length d \<le> iov_capacity (inputBuffer (conn s))"
  shows "\<exists>s1. obj_handleRead h obj on_conn now out (ReadBytes d) s = onMessage (httpCallback h) now out s1 \<and> idle_conn s1 \<and>
    contents (inputBuffer (conn s1)) = contents (inputBuffer (conn s)) @ d \<and> sent s1 = sent s"
proof -
  have "buffer_inv (inputBuffer (conn s))" using idle by (auto simp: idle_conn_def open_conn_def buffers_ok_def)
  from readFd_Inr [OF this d(2)] obtain b where b: "readFd (ReadBytes d) (inputBuffer (conn s)) = Inr (int (length d), None, b)"
      "buffer_inv b" "contents b = contents (inputBuffer (conn s)) @ d" by blast
  let ?s = "s\<lparr>conn := (conn s)\<lparr>inputBuffer := b\<rparr>\<rparr>"
  have "obj_handleRead h obj on_conn now out (ReadBytes d) s =
      onMessage (httpCallback h) now out (?s\<lparr>calls := calls ?s @ [Message]\<rparr>)"
    using b(1) d(1) cb by (simp add: obj_handleRead_def on_readable_def call_messageCallback_def functors_def Let_def)
  with idle_calls [OF idle_input [OF idle b(2)]] b(3) show ?thesis
    by (intro exI [of _ "?s\<lparr>calls := calls ?s @ [Message]\<rparr>"]) simp
qed

lemma readable_capacity: "65536 \<le> iov_capacity b"
  by (simp add: iov_capacity_def extrabuf_size_def)

text \<open>What \<^verbatim>\<open>onMessage\<close> does with a request that ends in or before a header line, and with a line that is none.\<close>

lemma onMessage_incomplete:
  assumes idle: "idle_conn s" and input: "contents (inputBuffer (conn s)) = line_text r @ kCRLF @ concat (map header_text hs) @ t"
    and ok: "request_ok r" "\<forall>h \<in> set hs. header_ok h" and t: "split_line t = None"
  shows "\<exists>s1. onMessage cb now out s = Some (Inr s1) \<and> idle_conn s1 \<and> sent s1 = sent s \<and> contents (inputBuffer (conn s1)) = t"
proof -
  have inv: "buffer_inv (inputBuffer (conn s))" using idle by (auto simp: idle_conn_def open_conn_def buffers_ok_def)
  have split: "split_line (contents (inputBuffer (conn s))) = Some (line_text r, concat (map header_text hs) @ t)"
    using split_line_text request_line_text [OF ok(1)] input by simp
  have "\<exists>c1. reference_headers q0 (concat (map header_text hs) @ t) = Parsed c1 t \<and> state c1 = kExpectHeaders" for q0
    using parse_headers_partial [OF ok(2) t, of q0] by (auto simp: reference_headers_def)
  then have "\<exists>c1. reference_parse now new_HttpContext (contents (inputBuffer (conn s))) = Parsed c1 t \<and> state c1 = kExpectHeaders"
    using split request_line_text [OF ok(1)] by (auto simp: reference_parse_def new_HttpContext_def)
  then obtain c1 b1 where p1: "parseRequest now new_HttpContext (inputBuffer (conn s)) = Some (Inr (True, c1, b1))" "contents b1 = t"
      "buffer_inv b1" "state c1 = kExpectHeaders"
    using parseRequest_agrees [OF _ inv, of new_HttpContext now] by (auto simp: ready_def)
  have "onMessage cb now out s = Some (Inr (s\<lparr>conn := (conn s)\<lparr>inputBuffer := b1\<rparr>\<rparr>))" using p1 by (simp add: onMessage_def gotAll_def Let_def)
  with idle_input [OF idle p1(3)] p1(2) show ?thesis by auto
qed

lemma onMessage_bad:
  assumes idle: "idle_conn s" and input: "contents (inputBuffer (conn s)) = l @ kCRLF @ rest" "CHR 0x0D \<notin> set l" "request_line l = None"
    and honest: "write_honest out (length bad_request)" "\<not> failed_for_good out"
  shows "\<exists>s1. onMessage cb now out s = Some (Inr s1) \<and> sent s1 = sent s @ bad_request \<and> conn_state (conn s1) = kDisconnecting"
proof -
  have inv: "buffer_inv (inputBuffer (conn s))" using idle by (auto simp: idle_conn_def open_conn_def buffers_ok_def)
  have "split_line (contents (inputBuffer (conn s))) = Some (l, rest)" using split_line_text [OF input(2)] input(1) by simp
  then have "reference_parse now new_HttpContext (contents (inputBuffer (conn s))) = BadRequest"
    using input(3) by (simp add: reference_parse_def new_HttpContext_def)
  then obtain c where p: "parseRequest now new_HttpContext (inputBuffer (conn s)) = Some (Inr (False, c, inputBuffer (conn s)))" "\<not> gotAll c"
    using parseRequest_agrees [OF _ inv, of new_HttpContext now] by (auto simp: ready_def)
  obtain s3 c3 where s3: "sendInLoop out bad_request s = Inr s3" "open_conn c3 s3" "conn_state (conn s3) = kConnected"
      "sent s3 = sent s @ bad_request"
    using idle_send [OF idle honest] by blast
  obtain s4 where s4: "shutdown True s3 = Inr s4" "conn_state (conn s4) = kDisconnecting" "sent s4 = sent s3"
    using open_shutdown [OF s3(2,3)] by blast
  have "conn_state (conn s) = kConnected" using idle by (simp add: idle_conn_def)
  moreover have "sendInLoop_int out bad_request (int_of_size (length bad_request)) s = Inr s3"
    using s3(1) by (subst sendInLoop_int_small) (simp_all add: bad_request_def kCRLF_def)
  ultimately have "onMessage cb now out s = Some (Inr s4)"
    using p s4(1) by (simp add: onMessage_def Let_def send_def)
  with s3(4) s4 show ?thesis by auto
qed


definition sample_obj :: conn_obj where
  "sample_obj = \<lparr>obj_name = ''c'', obj_loop = 1, obj_fd = 5, obj_localAddr = new_InetAddress 80 False, obj_peerAddr = new_InetAddress 5000 True,
     obj_callbacks = \<lparr>connectionCallback = DefaultCallback, messageCallback = UserCallback onMessage_functor, writeCompleteCallback = None\<rparr>\<rparr>"


text \<open>
  The handler of the server program answers the three paths it knows with status 200 and everything else with status 404 and a
  request to close; the body it sends is announced with its length when the connection is kept.
\<close>

lemma main_onRequest_status:
  "statusCode (main_onRequest now req resp) =
     (if path req \<in> {''/'', ''/favicon.ico'', ''/hello''} then k200OK else k404NotFound) \<and>
   closeConnection (main_onRequest now req resp) =
     (if path req \<in> {''/'', ''/favicon.ico'', ''/hello''} then closeConnection resp else True)"
  by (auto simp: main_onRequest_def setBody_def resp_addHeader_def setContentType_def setStatusMessage_def setStatusCode_def
      setCloseConnection_def)

lemma main_onRequest_body:
  "length (body (main_onRequest now req resp)) \<le> length now + length (body resp) + 555"
  by (simp add: main_onRequest_def setBody_def resp_addHeader_def setContentType_def setStatusMessage_def setStatusCode_def
      setCloseConnection_def)

lemma main_response_short:
  assumes "length now < 2 ^ 30"
  shows "length (response_text (answer (main_onRequest now) q)) < 2 ^ 31"
proof -
  let ?r = "answer (main_onRequest now) q"
  have b: "length (body ?r) \<le> length now + 555"
    using main_onRequest_body [of now q "new_HttpResponse (asks_close q)"] by (simp add: answer_def new_HttpResponse_def)
  then have "\<bar>int (length (body ?r))\<bar> < 10 ^ 10" using assms by simp
  then have "length (show_int (int (length (body ?r)))) \<le> 11" using length_show_int [of "int (length (body ?r))" 10] by simp
  moreover note status_line_short [of ?r]
  moreover have "length (statusMessage ?r) \<le> 9" "length (concat (map header_text (resp_headers ?r))) \<le> 100"
    by (simp_all add: answer_def new_HttpResponse_def main_onRequest_def setBody_def resp_addHeader_def setContentType_def setStatusMessage_def
        setStatusCode_def setCloseConnection_def header_text_def kCRLF_def)
  ultimately show ?thesis
    using b assms by (simp add: response_text_def content_length_line_def close_line_def keep_alive_line_def kCRLF_def)
qed

section \<open>A connection of the server\<close>

text \<open>
  The object the TCP server keeps of a connection and the connection's own state: the constructor and \<^verbatim>\<open>connectEstablished\<close> on the object's data, and
  what of the object a state shows.
\<close>

definition establish :: "conn_obj \<Rightarrow> nat \<Rightarrow> Loop \<Rightarrow> conn_sys result" where
  "establish obj a l = bind_r (new_TcpConnection (obj_name obj) a (obj_fd obj) l) (connectEstablished defaultConnectionCallback)"

definition conn_of :: "conn_obj \<Rightarrow> conn_sys \<Rightarrow> bool" where
  "conn_of obj s \<longleftrightarrow> conn_name (conn s) = obj_name obj \<and> self (cloop s) = obj_loop obj \<and>
     (case channel_of s of Inl e \<Rightarrow> False | Inr c \<Rightarrow> fd c = obj_fd obj)"

lemma establish_idle:
  assumes "can_connect a (obj_fd obj) l" and "self l = obj_loop obj"
  shows "\<exists>s. establish obj a l = Inr s \<and> conn_of obj s \<and> idle_conn s \<and> sent s = [] \<and> contents (inputBuffer (conn s)) = []"
proof -
  obtain b where "new_buffer kInitialSize = Inr b" using new_buffer_iff by blast
  then obtain s0 where s0: "new_TcpConnection (obj_name obj) a (obj_fd obj) l = Inr s0" by (simp add: new_TcpConnection_def)
  obtain s c where s: "connectEstablished defaultConnectionCallback s0 = for_r (defaultConnectionCallback s) perform_conn s" "open_conn c s"
      "conn_state (conn s) = kConnected" "contents (outputBuffer (conn s)) = []" "wire s = []" "fd c = obj_fd obj"
      "conn_name (conn s) = obj_name obj" "self (cloop s) = self l" "contents (inputBuffer (conn s)) = []"
    using connectEstablished_run [OF assms(1) s0, of defaultConnectionCallback] by blast
  have "channel_of s = Inr c" using s(2) by (simp add: open_conn_def)
  with s s0 assms(2) show ?thesis
    by (intro exI [of _ s]) (auto simp: establish_def conn_of_def idle_conn_def sent_def defaultConnectionCallback_def)
qed

lemma conn_of_mark [simp]: "conn_of obj (mark_handling cur b s) \<longleftrightarrow> conn_of obj s"
  by (simp add: conn_of_def mark_handling_def channel_of_def get_chan_def)

text \<open>
  The server \<open>h\<close> serves the connection object \<open>obj\<close> with the given text of the time: the connection can be established, which leaves it idle
  with nothing received or sent; and whenever it is idle, a readable event that completes a well-formed request in the input buffer is answered.
\<close>

definition serves :: "HttpServer \<Rightarrow> conn_obj \<Rightarrow> bool" where
  "serves h obj \<longleftrightarrow>
     (\<forall>a l. can_connect a (obj_fd obj) l \<and> self l = obj_loop obj \<longrightarrow>
        (\<exists>s. establish obj a l = Inr s \<and> conn_of obj s \<and> idle_conn s \<and> sent s = [] \<and> contents (inputBuffer (conn s)) = [])) \<and>
     (\<forall>s d r hs rest out on_conn clk.
        conn_of obj s \<and> idle_conn s \<and> d \<noteq> [] \<and> length d \<le> iov_capacity (inputBuffer (conn s)) \<and>
        contents (inputBuffer (conn s)) @ d = request_text r hs @ rest \<and> request_ok r \<and> (\<forall>f \<in> set hs. header_ok f) \<and>
        (\<forall>q. same_request r hs q \<longrightarrow> write_honest out (length (response_text (answer (httpCallback h) q)))) \<and> \<not> failed_for_good out \<longrightarrow>
        (\<exists>s' q. obj_handleRead h obj on_conn clk out (ReadBytes d) s = Some (Inr s') \<and> same_request r hs q \<and>
           sent s' = sent s @ response_text (answer (httpCallback h) q) \<and> contents (inputBuffer (conn s')) = rest \<and>
           statusCode (answer (httpCallback h) q) = (if path r \<in> {''/'', ''/favicon.ico'', ''/hello''} then k200OK else k404NotFound) \<and>
           (conn_state (conn s') = kDisconnecting \<longleftrightarrow> asks_close q \<or> path r \<notin> {''/'', ''/favicon.ico'', ''/hello''})))"

lemma main_answers:
  assumes cb: "httpCallback h = main_onRequest now" "length now < 2 ^ 30"
    and obj: "messageCallback (obj_callbacks obj) = UserCallback onMessage_functor"
    and s: "idle_conn s" "d \<noteq> []" "length d \<le> iov_capacity (inputBuffer (conn s))"
    and input: "contents (inputBuffer (conn s)) @ d = request_text r hs @ rest" "request_ok r" "\<forall>f \<in> set hs. header_ok f"
    and out: "\<forall>q. same_request r hs q \<longrightarrow> write_honest out (length (response_text (answer (httpCallback h) q)))" "\<not> failed_for_good out"
  shows "\<exists>s' q. obj_handleRead h obj on_conn clk out (ReadBytes d) s = Some (Inr s') \<and> same_request r hs q \<and>
    sent s' = sent s @ response_text (answer (httpCallback h) q) \<and> contents (inputBuffer (conn s')) = rest \<and>
    statusCode (answer (httpCallback h) q) = (if path r \<in> {''/'', ''/favicon.ico'', ''/hello''} then k200OK else k404NotFound) \<and>
    (conn_state (conn s') = kDisconnecting \<longleftrightarrow> asks_close q \<or> path r \<notin> {''/'', ''/favicon.ico'', ''/hello''})"
proof -
  obtain u where u: "obj_handleRead h obj on_conn clk out (ReadBytes d) s = onMessage (httpCallback h) clk out u" "idle_conn u"
      "contents (inputBuffer (conn u)) = request_text r hs @ rest" "sent u = sent s"
    using obj_handleRead_bytes [OF s(1) obj s(2,3), of h on_conn clk out] input(1) by auto
  have "\<forall>q. same_request r hs q \<longrightarrow> length (response_text (answer (httpCallback h) q)) < 2 ^ 31 \<and>
      write_honest out (length (response_text (answer (httpCallback h) q)))"
    using out(1) main_response_short [OF cb(2)] cb(1) by simp
  from onMessage_answers [OF u(2,3) input(2,3) this out(2), of clk]
  obtain s' c' q where s': "onMessage (httpCallback h) clk out u = Some (Inr s')" "same_request r hs q"
      "sent s' = sent s @ response_text (answer (httpCallback h) q)" "contents (inputBuffer (conn s')) = rest"
      "conn_state (conn s') = kDisconnecting \<longleftrightarrow> closeConnection (answer (httpCallback h) q)" using u(4) by metis
  have "path q = path r" using s'(2) by (simp add: same_request_def)
  moreover note main_onRequest_status [of now q "new_HttpResponse (asks_close q)"]
  ultimately show ?thesis
    using s' u(1) by (intro exI [of _ s'] exI [of _ q]) (auto simp: cb(1) answer_def new_HttpResponse_def)
qed

lemma main_serves_obj:
  assumes "httpCallback h = main_onRequest now" "length now < 2 ^ 30" and "messageCallback (obj_callbacks obj) = UserCallback onMessage_functor"
  shows "serves h obj"
  unfolding serves_def using establish_idle main_answers [OF assms] by simp

lemma main_setup_started:
  assumes "main_setup E loop_at now arg a lp st = Inr (h, rest)"
  shows "httpCallback h = main_onRequest now"
    and "\<exists>n s0 cbs start. server_setThreadNum n ((new_TcpServer lp (new_InetAddress 80 False) ''tundra-http-server'')\<lparr>srv_callbacks := cbs\<rparr>) = Inr s0 \<and>
      server_start E loop_at False (s0, start) = Inr (server h, rest) \<and> messageCallback cbs = UserCallback onMessage_functor"
proof -
  let ?new = "new_TcpServer lp (new_InetAddress 80 False) ''tundra-http-server''"
  let ?cbs = "(srv_callbacks ?new)\<lparr>messageCallback := UserCallback onMessage_functor\<rparr>"
  let ?n = "case arg of Some n \<Rightarrow> n | None \<Rightarrow> 0"
  obtain s0 start where s0: "server_setThreadNum ?n (?new\<lparr>srv_callbacks := ?cbs\<rparr>) = Inr s0"
      "http_start E loop_at False (\<lparr>server = s0, httpCallback = main_onRequest now\<rparr>, start) = Inr (h, rest)"
    using assms by (auto simp: main_setup_def Let_def http_setThreadNum_def setHttpCallback_def new_HttpServer_def construct_TcpServer_def
        server_setMessageCallback_def result_simps split: prod.splits)
  then obtain s1 start' where s1: "server_start E loop_at False (s0, start') = Inr (s1, rest)"
      "h = \<lparr>server = s1, httpCallback = main_onRequest now\<rparr>"
    by (auto simp: http_start_def result_simps Let_def split: prod.splits)
  then show "httpCallback h = main_onRequest now" by simp
  from s0(1) s1 show "\<exists>n s0 cbs start. server_setThreadNum n (?new\<lparr>srv_callbacks := cbs\<rparr>) = Inr s0 \<and>
      server_start E loop_at False (s0, start) = Inr (server h, rest) \<and> messageCallback cbs = UserCallback onMessage_functor"
    by (intro exI [of _ ?n] exI [of _ s0] exI [of _ ?cbs] exI [of _ start']) simp
qed

lemma sample_main:
  "\<exists>h rest. main_setup (table_env 3) (\<lambda>i. 100 + i) ''noon'' (Some 2) 10 1 (table_world, new_Loop 1) = Inr (h, rest) \<and>
    conn_objs (server h) = Map.empty \<and> srv_loop (server h) = 1"
proof -
  obtain l2 where "enableReading 10 (put_chan 10 (setCallback ReadEv (new_Channel 1 3)) (new_Loop 1)) = Inr l2"
    using acceptor_registers(1) [OF table_posix sample_new_Acceptor sample_acceptor_simps(1) sample_new_loop] by blast
  then show ?thesis
    by (simp add: main_setup_def Let_def http_setThreadNum_def server_setThreadNum_def setHttpCallback_def new_HttpServer_def
        construct_TcpServer_def sample_new_Acceptor_logged [unfolded One_nat_def] server_setMessageCallback_def new_TcpServer_def http_start_def server_start_def
        pool_start_def setThreadNum_def new_EventLoopThreadPool_def acceptor_listen_def setNewConnectionCallback_def sample_acceptor_def)
qed

end
