(* ===== verification/Loop_Timers.thy ===== *)
theory Loop_Timers
  imports Timer_Queue
begin

text \<open>
  The timer interface of \<^verbatim>\<open>net/EventLoop.cpp\<close>, called in the loop's own thread: what \<^verbatim>\<open>runAt\<close>, \<^verbatim>\<open>runAfter\<close>, \<^verbatim>\<open>runEvery\<close> and
  \<^verbatim>\<open>cancel\<close> ask of the timer queue, and what becomes of a timer made through them. \<open>now\<close> is the clock reading of the
  function itself and \<open>clk\<close> the one of \<^verbatim>\<open>resetTimerfd\<close>.
\<close>

section \<open>The interface\<close>

definition no_interval :: seconds where
  "no_interval = \<lparr>positive = False, in_micros = 0\<rparr>"

definition runAt ::
    "(timer_heap \<Rightarrow> nat option) \<Rightarrow> TimeStamp \<Rightarrow> nat \<Rightarrow> TimeStamp \<Rightarrow> TimerQueue \<Rightarrow> ((nat \<times> int) \<times> TimerQueue) result" where
  "runAt malloc time cb clk q = addTimer malloc cb time no_interval clk q"

definition runAfter ::
    "(timer_heap \<Rightarrow> nat option) \<Rightarrow> seconds \<Rightarrow> nat \<Rightarrow> TimeStamp \<Rightarrow> TimeStamp \<Rightarrow> TimerQueue \<Rightarrow> ((nat \<times> int) \<times> TimerQueue) result" where
  "runAfter malloc delay cb now clk q = bind_r (addTime now delay) (\<lambda>time. runAt malloc time cb clk q)"

definition runEvery ::
    "(timer_heap \<Rightarrow> nat option) \<Rightarrow> seconds \<Rightarrow> nat \<Rightarrow> TimeStamp \<Rightarrow> TimeStamp \<Rightarrow> TimerQueue \<Rightarrow> ((nat \<times> int) \<times> TimerQueue) result" where
  "runEvery malloc itv cb now clk q = bind_r (addTime now itv) (\<lambda>time. addTimer malloc cb time itv clk q)"

definition loop_cancel :: "nat \<times> int \<Rightarrow> TimerQueue \<Rightarrow> TimerQueue result" where
  "loop_cancel timerId q = cancelInLoop timerId q"

section \<open>A timer that was added\<close>

lemma addTimer_adds:
  assumes "tq_inv D q" and "malloc_ok malloc" and "addTimer malloc cb w itv clk q = Inr (i, q1)"
  shows "tq_inv D q1" and "fst i \<notin> dom (heap q)" and "live q1 = insert (fst i) (live q)"
    and "\<exists>t. heap q1 = (heap q)(fst i \<mapsto> t) \<and> callback t = cb \<and> expiration t = w \<and> sequence t = snd i \<and> interval t = itv \<and>
      repeat t = positive itv"
  using safe_Inr [OF addTimer_ok [OF assms(1,2)] assms(3)] by auto

text \<open>Cancelling a new timer undoes its addition.\<close>

lemma cancel_undoes:
  assumes inv: "tq_inv D q" and ok: "malloc_ok malloc" and add: "addTimer malloc cb w itv clk q = Inr (i, q1)"
  shows "\<exists>q2. loop_cancel i q1 = Inr q2 \<and> tq_inv D q2 \<and> timers q2 = timers q \<and> activeTimers q2 = activeTimers q \<and> heap q2 = heap q"
proof -
  note a = addTimer_adds [OF assms]
  obtain t where t: "heap q1 = (heap q)(fst i \<mapsto> t)" "sequence t = snd i" using a(4) by blast
  have "(fst i, snd i) \<in> set (activeTimers q1)"
    using mem_active [OF a(1), of "fst i" t "snd i"] t a(3) by simp
  then obtain q2 where q2: "loop_cancel i q1 = Inr q2" "tq_inv D q2" "live q2 = live q1 - {fst i}" "heap q2 = (heap q1)(fst i := None)"
    using cancelInLoop_ok [OF a(1), of "fst i" "snd i"] by (auto simp: loop_cancel_def)
  have "fst i \<notin> live q" using a(2) tq_dom [OF inv] by blast
  then have same: "live q2 = live q" "heap q2 = heap q" using q2(3,4) a(2,3) t(1) by (auto simp: fun_eq_iff)
  have "timers q2 = timers q"
    using same tq_timers [OF inv] tq_timers [OF q2(2)] tq_sorted [OF inv] tq_sorted [OF q2(2)]
    by (intro strict_sorted_equal) auto
  moreover have "activeTimers q2 = activeTimers q"
    using same tq_active [OF inv] tq_active [OF q2(2)] tq_active_sorted [OF inv] tq_active_sorted [OF q2(2)]
    by (intro strict_sorted_equal) auto
  ultimately show ?thesis using q2 same by blast
qed

lemma added_entry:
  assumes "tq_inv D q" and "malloc_ok malloc" and "addTimer malloc cb w itv clk q = Inr (i, q1)"
  shows "(w, fst i) \<in> set (timers q1)" and "callback (the (heap q1 (fst i))) = cb"
    and "e \<in> set (timers q1) \<Longrightarrow> e = (w, fst i) \<or> e \<in> set (timers q) \<and> heap q1 (snd e) = heap q (snd e)"
proof -
  note a = addTimer_adds [OF assms]
  obtain t where t: "heap q1 = (heap q)(fst i \<mapsto> t)" "callback t = cb" "expiration t = w" using a(4) by blast
  show "(w, fst i) \<in> set (timers q1)" using mem_timers [OF a(1), of "fst i" t w] t a(3) by simp
  show "callback (the (heap q1 (fst i))) = cb" using t by simp
  show "e = (w, fst i) \<or> e \<in> set (timers q) \<and> heap q1 (snd e) = heap q (snd e)" if e: "e \<in> set (timers q1)"
  proof (cases "snd e = fst i")
    case True
    with e tq_timers [OF a(1)] t show ?thesis by (auto simp: entry_of_def)
  next
    case False
    then have "snd e \<in> live q" using e a(3) by (auto simp: live_def)
    with False e t(1) tq_timers [OF a(1)] tq_timers [OF assms(1)] show ?thesis by (auto simp: entry_of_def)
  qed
qed

lemma added_kept:
  assumes "tq_inv D q" and "malloc_ok malloc" and "addTimer malloc cb w itv clk q = Inr (i, q1)" and e: "(u, b) \<in> set (timers q)"
  shows "(u, b) \<in> set (timers q1)"
proof -
  note a = addTimer_adds [OF assms(1-3)]
  have b: "b \<in> live q" using e by (force simp: live_def)
  then obtain t where t: "heap q b = Some t" using tq_live_timer [OF assms(1)] by blast
  have "b \<noteq> fst i" using b a(2) tq_dom [OF assms(1)] by blast
  then have t1: "heap q1 b = Some t" using t a(4) by auto
  from e mem_timers [OF assms(1) t] mem_timers [OF a(1) t1] b a(3) show ?thesis by simp
qed

text \<open>Before it is due the new timer makes no difference to what \<^verbatim>\<open>handleRead\<close> calls; then its callback is called.\<close>

lemma not_due:
  assumes inv: "tq_inv D q" and ok: "malloc_ok malloc" and add: "addTimer malloc cb w itv clk q = Inr (i, q1)" and early: "\<not> w \<le> now1"
  shows "safe timer_faults (\<lambda>(called, q2). map fst called = map (\<lambda>e. callback (the (heap q (snd e)))) (expired_at now1 q))
    (handleRead malloc calls rd (Inr str) now1 clk1 q1)"
proof -
  note a = addTimer_adds [OF inv ok add] and e = added_entry [OF inv ok add]
  have "x \<in> set (expired_at now1 q1) \<longleftrightarrow> x \<in> set (expired_at now1 q)" for x
    using early e(3) [of x] added_kept [OF inv ok add, of "fst x" "snd x"] by (auto simp: expired_at_def)
  then have "expired_at now1 q1 = expired_at now1 q"
    using tq_sorted [OF inv] tq_sorted [OF a(1)] by (intro strict_sorted_equal) (auto simp: expired_at_def strict_sorted_filter)
  moreover have "heap q1 (snd x) = heap q (snd x)" if "x \<in> set (expired_at now1 q1)" for x
    using that e(3) [of x] early by (auto simp: expired_at_def)
  ultimately show ?thesis by (auto intro!: safe_weaken [OF handleRead_ok [OF a(1) ok]])
qed

lemma once_due:
  assumes inv: "tq_inv D q" and ok: "malloc_ok malloc" and add: "addTimer malloc cb w itv clk q = Inr (i, q1)" and due: "w \<le> now1"
  shows "safe timer_faults (\<lambda>(called, q2). cb \<in> fst ` set called \<and> (fst i \<in> live q2 \<longleftrightarrow> positive itv \<and> i \<notin> cancelled_by called))
    (handleRead malloc calls rd (Inr str) now1 clk1 q1)"
proof -
  note a = addTimer_adds [OF inv ok add] and e = added_entry [OF inv ok add]
  have mem: "(w, fst i) \<in> set (expired_at now1 q1)" using e(1) due by (simp add: expired_at_def)
  then have img: "cb \<in> (\<lambda>e. callback (the (heap q1 (snd e)))) ` set (expired_at now1 q1)" "fst i \<in> snd ` set (expired_at now1 q1)"
    using e(2) by force+
  have k: "kept c (fst i) (the (heap q1 (fst i))) \<longleftrightarrow> positive itv \<and> i \<notin> cancelled_by c" for c
    using a(4) by (auto simp: kept_def)
  have "cb \<in> fst ` set called" if "map fst called = map (\<lambda>e. callback (the (heap q1 (snd e)))) (expired_at now1 q1)" for called :: history
    using img(1) arg_cong [OF that, of set] by simp
  with img(2) show ?thesis
    by (intro safe_weaken [OF handleRead_ok [OF a(1) ok, of now1 calls rd str clk1]]) (auto simp: case_prod_beta k [symmetric])
qed

lemma runAfter_adds:
  assumes "runAfter malloc delay cb now clk q = Inr (i, q1)"
  shows "addTimer malloc cb (TimeStamp (microSecondsSinceUnixEpoch now + in_micros delay)) no_interval clk q = Inr (i, q1)"
  using assms by (auto simp: runAfter_def runAt_def result_simps addTime_Inr_iff)

lemma runEvery_adds:
  assumes "runEvery malloc itv cb now clk q = Inr (i, q1)"
  shows "addTimer malloc cb (TimeStamp (microSecondsSinceUnixEpoch now + in_micros itv)) itv clk q = Inr (i, q1)"
  using assms by (auto simp: runEvery_def result_simps addTime_Inr_iff)

text \<open>
  C19 (functional). Timers made by \<^verbatim>\<open>runAfter\<close> and \<^verbatim>\<open>runEvery\<close> with the delay or interval \<open>d\<close>, due when that time has passed. A call of
  \<^verbatim>\<open>handleRead\<close>, once its log line is written, before the timer is due calls what it would have called without it; one at or after that time
  calls its callback, and keeps the timer exactly if \<^verbatim>\<open>runEvery\<close> made it with an interval above \<open>0.0\<close> and none of the callbacks of this
  call, its own included, cancelled it. Cancelling the timer first leaves the queue as it was before the timer was made.
\<close>

theorem loop_timer_fires:
  assumes "tq_inv D q" and "malloc_ok malloc"
    and "(if every then runEvery malloc d cb now clk q else runAfter malloc d cb now clk q) = Inr (i, q1)"
  shows "(if TimeStamp (microSecondsSinceUnixEpoch now + in_micros d) \<le> now1
      then safe {SignedOverflow, OutOfMemory}
        (\<lambda>(called, q2). cb \<in> fst ` set called \<and>
          (fst i \<in> live q2 \<longleftrightarrow> every \<and> positive d \<and> (\<forall>(cb', acts) \<in> set called. Cancel i \<notin> set acts)))
        (handleRead malloc calls rd (Inr str) now1 clk1 q1)
      else safe {SignedOverflow, OutOfMemory} (\<lambda>(called, q2). map fst called = map (\<lambda>e. callback (the (heap q (snd e)))) (expired_at now1 q))
        (handleRead malloc calls rd (Inr str) now1 clk1 q1)) \<and>
    (\<exists>q2. loop_cancel i q1 = Inr q2 \<and> tq_inv D q2 \<and> timers q2 = timers q \<and> activeTimers q2 = activeTimers q \<and> heap q2 = heap q)"
proof -
  let ?due = "TimeStamp (microSecondsSinceUnixEpoch now + in_micros d)" and ?itv = "if every then d else no_interval"
  have add: "addTimer malloc cb ?due ?itv clk q = Inr (i, q1)"
    using assms(3) runAfter_adds [of malloc d cb now clk q i q1] runEvery_adds [of malloc d cb now clk q i q1] by (cases every) simp_all
  have pos: "positive ?itv \<longleftrightarrow> every \<and> positive d" by (simp add: no_interval_def)
  have hist: "i \<notin> cancelled_by called \<longleftrightarrow> (\<forall>(cb', acts) \<in> set called. Cancel i \<notin> set acts)" for called
    by (auto simp: cancelled_by_def)
  note due = once_due [OF assms(1,2) add, of now1 calls rd str clk1, unfolded pos conj_assoc hist]
  show ?thesis
    using due not_due [OF assms(1,2) add, of now1 calls rd str clk1] cancel_undoes [OF assms(1,2) add] by simp
qed

theorem loop_timer_fires_witness:
  "\<exists>i q1. runEvery sample_malloc \<lparr>positive = True, in_micros = 50\<rparr> 8 (TimeStamp 950) (TimeStamp 951) sample_queue = Inr (i, q1) \<and>
    safe {SignedOverflow, OutOfMemory} (\<lambda>(called, q2). 8 \<in> fst ` set called)
      (handleRead sample_malloc (\<lambda>_ _. [Cancel (16, 1)]) \<lparr>got = 8, howmany = 1\<rparr> (Inr ''0.001100'') (TimeStamp 1100) (TimeStamp 1101) q1)"
proof -
  let ?d = "\<lparr>positive = True, in_micros = 50\<rparr>" and ?rd = "\<lparr>got = 8, howmany = 1\<rparr>" and ?calls = "\<lambda>_ _. [Cancel (16, 1)]"
  have "\<not> isl (runEvery sample_malloc ?d 8 (TimeStamp 950) (TimeStamp 951) sample_queue)" by code_simp
  then obtain i q1 where r: "runEvery sample_malloc ?d 8 (TimeStamp 950) (TimeStamp 951) sample_queue = Inr (i, q1)"
    by (metis isl_def sum.exhaust surj_pair)
  have "safe {SignedOverflow, OutOfMemory} (\<lambda>(called, q2). 8 \<in> fst ` set called \<and>
        (fst i \<in> live q2 \<longleftrightarrow> True \<and> positive ?d \<and> (\<forall>(cb', acts) \<in> set called. Cancel i \<notin> set acts)))
      (handleRead sample_malloc ?calls ?rd (Inr ''0.001100'') (TimeStamp 1100) (TimeStamp 1101) q1)"
    using loop_timer_fires [OF sample_queue_inv sample_malloc_ok, of True ?d 8 "TimeStamp 950" "TimeStamp 951" i q1 "TimeStamp 1100" ?calls
      ?rd "''0.001100''" "TimeStamp 1101"] r by (simp add: less_eq_TimeStamp_micros)
  then have "safe {SignedOverflow, OutOfMemory} (\<lambda>(called, q2). 8 \<in> fst ` set called)
      (handleRead sample_malloc ?calls ?rd (Inr ''0.001100'') (TimeStamp 1100) (TimeStamp 1101) q1)"
    by (rule safe_weaken) auto
  with r show ?thesis by blast
qed

end
