(* ===== verification/Loop_World.thy ===== *)
theory Loop_World
  imports Event_Loop Sockets
begin

text \<open>
  The parts of \<^verbatim>\<open>net/EventLoop.cpp\<close> and \<^verbatim>\<open>net/EventLoop.h\<close> that meet the outside of a loop: the descriptors it opens, the one loop each
  thread knows as its own, the check that a call comes from the loop's thread, and the debugging output. How an address and a
  thread identity are printed is a parameter.
\<close>

section \<open>Construction\<close>

record printers =
  show_ptr :: "nat \<Rightarrow> string"
  show_tid :: "nat \<Rightarrow> string"

text \<open>\<open>loop_of\<close> is the thread-local pointer \<^verbatim>\<open>t_loopInThisThread\<close> of every thread.\<close>

type_synonym thread_loops = "nat \<Rightarrow> nat option"

definition getEventLoopOfCurrentThread :: "nat \<Rightarrow> thread_loops \<Rightarrow> nat option" where
  "getEventLoopOfCurrentThread tid loop_of = loop_of tid"

definition created_text :: "printers \<Rightarrow> nat \<Rightarrow> nat \<Rightarrow> string" where
  "created_text P this tid = ''EventLoop created '' @ show_ptr P this @ '' in thread '' @ show_tid P tid"

text \<open>
  The constructor in the thread \<open>tid\<close>. The stream of its messages is never emptied, since \<^verbatim>\<open>clear\<close> only resets its error state, so that the second
  message repeats the first. A second loop in a thread is reported and constructed nevertheless.
\<close>

definition construct_EventLoop ::
  "'k env \<Rightarrow> printers \<Rightarrow> nat \<Rightarrow> nat \<Rightarrow> nat \<Rightarrow> nat \<Rightarrow> 'k World \<times> thread_loops \<Rightarrow> (EventLoop \<times> int \<times> int \<times> 'k World \<times> thread_loops) result" where
  "construct_EventLoop E P this tid t wk st =
     (case st of (w, loop_of) \<Rightarrow>
      case createTimerfd E w of (timerfd, w1) \<Rightarrow>
      bind_r (createEventfd E w1) (\<lambda>(wakeupFd, w2).
        let w3 = log_msg E TRACE (created_text P this tid) w2;
            (w4, loop_of') =
              (case loop_of tid of
                 Some other \<Rightarrow>
                   (log_msg E FATAL (created_text P this tid @ '' Another EventLoop '' @ show_ptr P other @ '' exists in this thread '' @
                                     show_tid P tid) w3, loop_of)
               | None \<Rightarrow> (w3, loop_of(tid \<mapsto> this)))
        in bind_r (new_EventLoop this t timerfd wk wakeupFd) (\<lambda>s. Inr (s, timerfd, wakeupFd, w4, loop_of'))))"

section \<open>The loop's thread\<close>

definition isInLoopThread :: "nat \<Rightarrow> nat \<Rightarrow> bool" where
  "isInLoopThread threadId cur \<longleftrightarrow> threadId = cur"

text \<open>
  \<^verbatim>\<open>std::this_thread::get_id\<close> without a call is the address of a function, which a stream prints as the truth value 1. The function does not abort.
\<close>

definition abortNotInLoopThread :: "'k env \<Rightarrow> printers \<Rightarrow> nat \<Rightarrow> nat \<Rightarrow> 'k World \<Rightarrow> 'k World" where
  "abortNotInLoopThread E P this threadId w =
     log_msg E FATAL (''EventLoop::abortNotInLoopThread - EventLoop '' @ show_ptr P this @ '' was created in threadId_ = '' @
                      show_tid P threadId @ '', current thread id = 1'') w"

definition assertInLoopThread :: "'k env \<Rightarrow> printers \<Rightarrow> nat \<Rightarrow> nat \<Rightarrow> nat \<Rightarrow> 'k World \<Rightarrow> 'k World" where
  "assertInLoopThread E P this threadId cur w =
     (if isInLoopThread threadId cur then w else abortNotInLoopThread E P this threadId w)"

section \<open>Debugging output\<close>

definition reventsToString :: "Channel \<Rightarrow> string" where
  "reventsToString c = eventsToString (fd c) (revents c)"

definition channel_eventsToString :: "Channel \<Rightarrow> string" where
  "channel_eventsToString c = eventsToString (fd c) (events c)"

text \<open>The loop over the active channels with its stream.\<close>

definition channel_text :: "Channel \<Rightarrow> string" where
  "channel_text c = ''{'' @ reventsToString c @ ''} ''"

fun print_channels :: "'k env \<Rightarrow> string \<Rightarrow> Channel list \<Rightarrow> 'k World \<Rightarrow> 'k World" where
  "print_channels E logStream [] w = w"
| "print_channels E logStream (c # cs) w =
     (let s = logStream @ channel_text c in print_channels E s cs (log_msg E TRACE s w))"

definition printActiveChannels :: "'k env \<Rightarrow> Loop \<Rightarrow> 'k World \<Rightarrow> 'k World result" where
  "printActiveChannels E l w =
     (if \<forall>a \<in> set (activeChannels l). chans l a \<noteq> None
      then Inr (print_channels E [] (map (\<lambda>a. the (chans l a)) (activeChannels l)) w) else Inl UseAfterFree)"

section \<open>Properties\<close>

text \<open>
  Each active channel makes one message, and the message of a channel repeats those of all channels before it.
\<close>

lemma print_channels_lines:
  "log_lines (print_channels E s cs w) =
     log_lines w @ map (\<lambda>i. (TRACE, s @ concat (map channel_text (take (Suc i) cs)))) [0..<length cs]"
proof (induction cs arbitrary: s w)
  case (Cons c cs)
  have "[0..<length (c # cs)] = 0 # map Suc [0..<length cs]" by (simp add: upt_conv_Cons map_Suc_upt del: upt_Suc)
  then show ?case by (simp add: Cons.IH Let_def log_msg_def comp_def)
qed simp

lemma printActiveChannels_cumulative:
  assumes "\<forall>a \<in> set (activeChannels l). chans l a \<noteq> None"
  shows "\<exists>w'. printActiveChannels E l w = Inr w' \<and> kernel w' = kernel w \<and>
    log_lines w' = log_lines w @ map (\<lambda>i. (TRACE, concat (map (\<lambda>a. channel_text (the (chans l a))) (take (Suc i) (activeChannels l)))))
      [0..<length (activeChannels l)]"
proof -
  have "kernel (print_channels E s cs w) = kernel w" for s cs
    by (induction cs arbitrary: s w) (simp_all add: Let_def)
  with assms show ?thesis by (simp add: printActiveChannels_def print_channels_lines take_map comp_def)
qed

text \<open>
  A loop opens two descriptors and is the loop of its thread unless the thread has one already; then the thread keeps it and the message says so.
  A call from another thread changes nothing but the log.
\<close>

lemma construct_EventLoop_effect:
  assumes "posix_fds fds E" and "construct_EventLoop E P this tid t wk (w, loop_of) = Inr (s, tfd, wfd, w', loop_of')"
  shows "fds (kernel w') = fds (kernel w) \<union> {f \<in> {tfd}. 0 \<le> f} \<union> {wfd}" and "0 \<le> wfd" and "wfd \<notin> fds (kernel w)"
    and "getEventLoopOfCurrentThread tid loop_of' = (case loop_of tid of Some other \<Rightarrow> Some other | None \<Rightarrow> Some this)"
    and "new_EventLoop this t tfd wk wfd = Inr s"
proof -
  obtain a w1 b w2 where c: "syscall E SysTimerfd w = (a, w1)"
      "syscall E SysEventfd (if ret a < 0 then log_msg E FATAL ''Failed in timerfd_create.'' w1 else w1) = (b, w2)" by fastforce
  note f = syscall_fds [OF assms(1) c(1)] syscall_fds [OF assms(1) c(2)]
  have r: "tfd = ret a" "wfd = ret b" "\<not> ret b < 0" "kernel w' = kernel w2" "new_EventLoop this t tfd wk wfd = Inr s"
      "loop_of' tid = (case loop_of tid of Some other \<Rightarrow> Some other | None \<Rightarrow> Some this)"
    using assms(2) c by (auto simp: construct_EventLoop_def createTimerfd_def createEventfd_def Let_def result_simps
        split: option.splits if_splits)
  then show "fds (kernel w') = fds (kernel w) \<union> {f \<in> {tfd}. 0 \<le> f} \<union> {wfd}" "0 \<le> wfd" "wfd \<notin> fds (kernel w)"
    using f by (auto simp: fds_after_def split: if_splits)
  from r show "getEventLoopOfCurrentThread tid loop_of' = (case loop_of tid of Some other \<Rightarrow> Some other | None \<Rightarrow> Some this)"
    "new_EventLoop this t tfd wk wfd = Inr s" by (simp_all add: getEventLoopOfCurrentThread_def)
qed

lemma construct_aborts: "ret (fst (syscall E SysEventfd (snd (createTimerfd E w)))) < 0 \<Longrightarrow>
    construct_EventLoop E P this tid t wk (w, loop_of) = Inl Terminated"
  by (auto simp: construct_EventLoop_def createEventfd_def split: prod.splits)

lemma assertInLoopThread_goes_on: "kernel (assertInLoopThread E P this threadId cur w) = kernel w \<and>
    (log_lines (assertInLoopThread E P this threadId cur w) = log_lines w \<longleftrightarrow> isInLoopThread threadId cur)"
  by (simp add: assertInLoopThread_def abortNotInLoopThread_def log_msg_def)

end
