(* ===== verification/Log_Descriptors.thy ===== *)
theory Log_Descriptors
  imports Log_File Acceptor
begin

text \<open>
  The descriptors of log files, \<^verbatim>\<open>util/mmapManager.cpp\<close> and \<^verbatim>\<open>LogFile::rollFile\<close> once more: what they open and close beside the contents, which are the
  subject of \<open>Log_File\<close>. The log thread and the server share the table of descriptors of their process.
\<close>

section \<open>Operations\<close>

text \<open>
  The constructor closes the descriptor as soon as the file is mapped, and keeps the number in \<^verbatim>\<open>fd_\<close>. The destructor closes that number again.
\<close>

definition mmap_open_fd :: "'k env \<Rightarrow> string \<Rightarrow> 'k World \<Rightarrow> (int \<times> 'k World) result" where
  "mmap_open_fd E filename w =
     (if filename \<noteq> [] then
        case syscall E (SysOpenFile filename) w of (a, w1) \<Rightarrow>
          asserting (ret a \<ge> 0) (Inr (ret a, snd (syscall E (SysClose (ret a)) w1)))
      else Inr (-1, snd (syscall E (SysClose (-1)) w)))"

definition mmap_close_fd :: "'k env \<Rightarrow> int \<Rightarrow> 'k World \<Rightarrow> 'k World" where
  "mmap_close_fd E f w = snd (syscall E (SysClose f) w)"

text \<open>\<^verbatim>\<open>rollFile\<close> makes the new mapping and destroys the old one, whose number is \<open>f\<close>.\<close>

definition roll_fds :: "'k env \<Rightarrow> string \<Rightarrow> int \<Rightarrow> 'k World \<Rightarrow> (int \<times> 'k World) result" where
  "roll_fds E filename f w = bind_r (mmap_open_fd E filename w) (\<lambda>(g, w1). Inr (g, mmap_close_fd E f w1))"

section \<open>Properties\<close>

lemma mmap_open_fds:
  assumes "posix_fds fds E" and "mmap_open_fd E filename w = Inr (f, w')"
  shows "fds (kernel w') = fds (kernel w)" and "f \<notin> fds (kernel w)"
proof -
  have "fds (kernel w') = fds (kernel w) \<and> f \<notin> fds (kernel w)"
  proof (cases "filename = []")
    case True
    with assms(2) have "f = -1" "w' = snd (syscall E (SysClose (-1)) w)" by (auto simp: mmap_open_fd_def)
    then show ?thesis
      using posix_close_none [OF assms(1)] posix_nonneg [OF assms(1), of "-1" "kernel w"] by (auto simp: world_fds [OF assms(1)])
  next
    case False
    obtain a w1 where c: "syscall E (SysOpenFile filename) w = (a, w1)" by fastforce
    with False assms(2) have f: "f = ret a" "0 \<le> f" "w' = snd (syscall E (SysClose f) w1)"
      by (auto simp: mmap_open_fd_def asserting_Inr_iff)
    have "f \<notin> fds (kernel w)" "fds (kernel w1) = insert f (fds (kernel w))"
      using syscall_fds [OF assms(1) c] f(1,2) by (simp_all add: fds_after_def)
    then show ?thesis by (simp add: f(3) world_fds [OF assms(1)])
  qed
  then show "fds (kernel w') = fds (kernel w)" "f \<notin> fds (kernel w)" by simp_all
qed

lemma roll_fds_after:
  assumes "posix_fds fds E" and "roll_fds E filename f w = Inr (g, w')"
  shows "fds (kernel w') = fds (kernel w) - {f}"
  using assms(2) mmap_open_fds(1) [OF assms(1), of filename w]
  by (auto simp: roll_fds_def mmap_close_fd_def result_simps world_fds [OF assms(1)])

text \<open>
  C37 (error). Rolling a log file closes a descriptor that belongs to somebody else. The number a log file keeps is free again as soon as the file is
  mapped; when the operating system gives it to a connection that the server accepts, the next roll of the log, which closes the old file's number a second time, closes the
  socket of that connection and no descriptor of its own, while the server still counts it among its connections.
\<close>

theorem roll_closes_connection:
  assumes "posix_fds fds E" and "mmap_open_fd E filename w = Inr (f, w1)"
    and "fds_split F ac held (fds (kernel w1))" and "acceptor_handleRead E ac w1 = (Some (f, p), ac', w2)"
    and "roll_fds E filename' f w2 = Inr (g, w3)"
  shows "f \<notin> fds (kernel w1) \<and> fds_split F ac' (insert f held) (fds (kernel w2)) \<and> f \<notin> fds (kernel w3) \<and>
    fds (kernel w3) = F \<union> own_fds ac' \<union> (held - {f})"
proof -
  have free: "f \<notin> fds (kernel w1)" using mmap_open_fds [OF assms(1,2)] by simp
  have s: "fds_split F ac' (insert f held) (fds (kernel w2))" using handleRead_fds(1) [OF assms(1,3,4)] by simp
  moreover have "fds (kernel w3) = fds (kernel w2) - {f}" by (rule roll_fds_after [OF assms(1,5)])
  ultimately show ?thesis using free by (auto simp: fds_split_def)
qed

text \<open>A server with room for six descriptors: its log file and the connection it accepts next get the same number.\<close>

definition sample_server :: Acceptor where
  "sample_server = setNewConnectionCallback sample_acceptor\<lparr>listening := True\<rparr>"

theorem roll_closes_connection_witness:
  "\<exists>w1 ac' w2 g w3. mmap_open_fd (table_env 6) ''a.log'' (table_world\<lparr>kernel := [4, 3]\<rparr>) = Inr (5, w1) \<and>
    acceptor_handleRead (table_env 6) sample_server w1 = (Some (5, new_InetAddress 4000 True), ac', w2) \<and>
    5 \<in> int ` set (kernel w2) \<and> roll_fds (table_env 6) ''b.log'' 5 w2 = Inr (g, w3) \<and> 5 \<notin> int ` set (kernel w3)"
proof -
  let ?w = "\<lambda>k. table_world\<lparr>kernel := k\<rparr>"
  have o: "mmap_open_fd (table_env 6) ''a.log'' (?w [4, 3]) = Inr (5, ?w [4, 3])"
    by (simp add: mmap_open_fd_def syscall_def table_env_def table_sys_def table_world_def)
  have h: "acceptor_handleRead (table_env 6) sample_server (?w [4, 3]) = (Some (5, new_InetAddress 4000 True), sample_server, ?w [5, 4, 3])"
    by (simp add: acceptor_handleRead_def socket_accept_def syscall_def table_env_def table_sys_def table_world_def sample_server_def
        setNewConnectionCallback_def sample_acceptor_def Let_def)
  have r: "roll_fds (table_env 6) ''b.log'' 5 (?w [5, 4, 3]) = Inr (6, ?w [4, 3])"
    by (simp add: roll_fds_def mmap_open_fd_def mmap_close_fd_def syscall_def table_env_def table_sys_def table_world_def Let_def)
  have s: "fds_split {} sample_server {} (int ` set (kernel (?w [4, 3])))"
    by (auto simp: fds_split_def own_fds_def sample_server_def setNewConnectionCallback_def sample_acceptor_def)
  have "5 \<in> int ` set (kernel (?w [5, 4, 3]))" by simp
  moreover have "5 \<notin> int ` set (kernel (?w [4, 3]))" using roll_closes_connection [OF table_posix o s h r] by blast
  ultimately show ?thesis using o h r by blast
qed

end
