(* ===== verification/Server_Descriptors.thy ===== *)
theory Server_Descriptors
  imports Tcp_Server
begin

text \<open>
  The descriptors of a running server, through the acceptor, \<^verbatim>\<open>TcpServer::newConnection\<close>, \<^verbatim>\<open>TcpServer::removeConnection\<close> and the destructor of a
  connection's socket: every connection in the map of the server has a descriptor of its own, and no other descriptor stays open.
\<close>

section \<open>Events\<close>

text \<open>
  The listening socket is readable, and a connection made then would live at the address \<open>c\<close>; or the connection at \<open>c\<close> ends: it is removed from the server,
  and when the functor with the last pointer to it has run, its socket is destroyed. \<open>up\<close> are the connections that live. Removal and destruction are one step here; the
  time between them, while the functor waits in the loop, is left out.
\<close>

datatype server_event = Incoming nat | Ending nat

definition conn_fd :: "TcpServer \<Rightarrow> nat \<Rightarrow> int" where
  "conn_fd s c = (case conn_objs s c of Some obj \<Rightarrow> obj_fd obj | None \<Rightarrow> -1)"

fun serve :: "'k env \<Rightarrow> (int \<Rightarrow> InetAddress option) \<Rightarrow> server_event \<Rightarrow> TcpServer \<times> Acceptor \<times> 'k World \<times> nat set \<Rightarrow>
    (TcpServer \<times> Acceptor \<times> 'k World \<times> nat set) result" where
  "serve E gsn (Incoming c) (s, ac, w, up) =
     (if conn_objs s c \<noteq> None then Inr (s, ac, w, up)
      else bind_r (accept_connection E gsn c (s, ac, w)) (\<lambda>(s', ac', w').
        Inr (s', ac', w', if conn_objs s' c \<noteq> None then insert c up else up)))"
| "serve E gsn (Ending c) (s, ac, w, up) =
     (if c \<notin> up then Inr (s, ac, w, up)
      else bind_r (removeConnection c s) (\<lambda>s'. Inr (s', ac, destroy_Socket E (conn_fd s c) w, up - {c})))"

definition server_fds_inv :: "('k \<Rightarrow> int set) \<Rightarrow> int set \<Rightarrow> TcpServer \<times> Acceptor \<times> 'k World \<times> nat set \<Rightarrow> bool" where
  "server_fds_inv fds F = (\<lambda>(s, ac, w, up). srv_inv (s, up) \<and> up \<subseteq> dom (conn_objs s) \<and> inj_on (conn_fd s) up \<and>
     fds_split F ac (conn_fd s ` up) (fds (kernel w)))"

section \<open>The invariant\<close>

lemma newConnection_objs:
  assumes "newConnection gsn c f p s = Inr s'"
  shows "\<exists>obj. conn_objs s' = (conn_objs s)(c \<mapsto> obj) \<and> obj_fd obj = f"
  using assms by (auto simp: newConnection_def Let_def result_simps)

lemma removeConnection_objs: "removeConnectionInLoop c s = Inr s' \<Longrightarrow> conn_objs s' = conn_objs s"
  by (auto simp: removeConnectionInLoop_def result_simps split: option.splits prod.splits)

lemma server_fds_invD:
  assumes "server_fds_inv fds F (s, ac, w, up)"
  shows "srv_inv (s, up)" "up \<subseteq> dom (conn_objs s)" "inj_on (conn_fd s) up" "fds_split F ac (conn_fd s ` up) (fds (kernel w))"
  using assms by (simp_all add: server_fds_inv_def)

text \<open>A connection that the acceptor hands over.\<close>

lemma serve_accepted:
  assumes posix: "posix_fds fds E" and inv: "server_fds_inv fds F (s, ac, w, up)" and room: "nextConnId s < 2 ^ 31 - 1"
    and free: "conn_objs s c = None" and h: "acceptor_handleRead E ac w = (Some (f, p), ac', w1)"
  shows "\<exists>s' w'. serve E gsn (Incoming c) (s, ac, w, up) = Inr (s', ac', w', insert c up) \<and>
    server_fds_inv fds F (s', ac', w', insert c up) \<and> nextConnId s' = nextConnId s + 1"
proof -
  note srv = server_fds_invD [OF inv]
  have split: "fds_split F ac' (insert f (conn_fd s ` up)) (fds (kernel w1))" using handleRead_fds(1) [OF posix srv(4) h] by simp
  obtain s' where s': "newConnection gsn c f p s = Inr s'" "srv_inv (s', insert c up)" "nextConnId s' = nextConnId s + 1"
    using newConnection_ok [OF srv(1) free room] by blast
  obtain obj where obj: "conn_objs s' = (conn_objs s)(c \<mapsto> obj)" "obj_fd obj = f" using newConnection_objs [OF s'(1)] by blast
  have c: "c \<notin> up" using srv(2) free by auto
  then have fds: "conn_fd s' c = f" "\<And>d. d \<in> up \<Longrightarrow> conn_fd s' d = conn_fd s d" using obj by (auto simp: conn_fd_def)
  then have img: "conn_fd s' ` insert c up = insert f (conn_fd s ` up)" by auto
  have new: "f \<notin> conn_fd s ` up" using accept_fresh(2) [OF posix h] srv(4) by (auto simp: fds_split_def)
  have "inj_on (conn_fd s') up" using srv(3) fds(2) by (auto simp: inj_on_def)
  moreover have "conn_fd s' ` up = conn_fd s ` up" using fds(2) by auto
  ultimately have inj: "inj_on (conn_fd s') (insert c up)" using new fds(1) c by (simp add: inj_on_insert)
  have dom: "insert c up \<subseteq> dom (conn_objs s')" using srv(2) obj by auto
  let ?w = "setKeepAlive E f True (log_msg E INFO (''TcpServer::newConnection ['' @ srv_name s @ ''] - new connection ['' @
      connName s (nextConnId s) @ ''] from '' @ toIpPort p) w1)"
  have "serve E gsn (Incoming c) (s, ac, w, up) = Inr (s', ac', ?w, insert c up)"
    using free h s'(1) obj by (simp add: accept_connection_def Let_def)
  moreover have "server_fds_inv fds F (s', ac', ?w, insert c up)"
    unfolding server_fds_inv_def using s'(2) dom inj split img by (simp add: world_fds [OF posix])
  ultimately show ?thesis using s'(3) by blast
qed

lemma serve_incoming:
  assumes posix: "posix_fds fds E" and inv: "server_fds_inv fds F (s, ac, w, up)" and room: "nextConnId s < 2 ^ 31 - 1"
  shows "\<exists>s' ac' w' up'. serve E gsn (Incoming c) (s, ac, w, up) = Inr (s', ac', w', up') \<and>
    server_fds_inv fds F (s', ac', w', up') \<and> nextConnId s' \<le> nextConnId s + 1"
proof (cases "conn_objs s c")
  case (Some obj)
  with inv show ?thesis by simp
next
  case free: None
  obtain h ac' w1 where h: "acceptor_handleRead E ac w = (h, ac', w1)" by (metis prod_cases3)
  show ?thesis
  proof (cases h)
    case None
    then have "fds_split F ac' (conn_fd s ` up) (fds (kernel w1))"
      using handleRead_fds(1) [OF posix server_fds_invD(4) [OF inv] h] by simp
    with None free h server_fds_invD [OF inv] show ?thesis by (simp add: accept_connection_def server_fds_inv_def)
  next
    case (Some fp)
    then obtain f p where "acceptor_handleRead E ac w = (Some (f, p), ac', w1)" using h by (cases fp) simp
    from serve_accepted [OF posix inv room free this] show ?thesis by fastforce
  qed
qed

lemma serve_ending:
  assumes posix: "posix_fds fds E" and inv: "server_fds_inv fds F (s, ac, w, up)"
  shows "\<exists>s' ac' w' up'. serve E gsn (Ending c) (s, ac, w, up) = Inr (s', ac', w', up') \<and>
    server_fds_inv fds F (s', ac', w', up') \<and> nextConnId s' \<le> nextConnId s + 1"
proof (cases "c \<in> up")
  case False
  with inv show ?thesis by simp
next
  case True
  note srv = server_fds_invD [OF inv]
  obtain s' where s': "removeConnectionInLoop c s = Inr s'" "srv_inv (s', up - {c})" "nextConnId s' = nextConnId s"
    using removeConnection_ok [OF srv(1) True] by blast
  have same: "conn_fd s' = conn_fd s" "conn_objs s' = conn_objs s"
    using removeConnection_objs [OF s'(1)] by (simp_all add: conn_fd_def fun_eq_iff)
  have img: "conn_fd s ` (up - {c}) = conn_fd s ` up - {conn_fd s c}" using srv(3) True by (auto simp: inj_on_def)
  have "fds_split F ac (conn_fd s ` up - {conn_fd s c}) (fds (kernel w) - {conn_fd s c})"
    using srv(4) True by (auto simp: fds_split_def)
  then have "server_fds_inv fds F (s', ac, destroy_Socket E (conn_fd s c) w, up - {c})"
    unfolding server_fds_inv_def using s'(2) srv(2,3) same img by (auto simp: world_fds [OF posix] inj_on_diff)
  with True s'(1,3) show ?thesis by (simp add: removeConnection_def)
qed

lemma serve_all:
  assumes posix: "posix_fds fds E"
  shows "server_fds_inv fds F (s, ac, w, up) \<Longrightarrow> nextConnId s + int (length evs) < 2 ^ 31 \<Longrightarrow>
    \<exists>s' ac' w' up'. for_r evs (serve E gsn) (s, ac, w, up) = Inr (s', ac', w', up') \<and> server_fds_inv fds F (s', ac', w', up')"
proof (induction evs arbitrary: s ac w up)
  case (Cons ev evs)
  have "nextConnId s < 2 ^ 31 - 1" using Cons.prems(2) by simp
  then obtain s1 ac1 w1 up1 where st: "serve E gsn ev (s, ac, w, up) = Inr (s1, ac1, w1, up1)" "server_fds_inv fds F (s1, ac1, w1, up1)"
      "nextConnId s1 \<le> nextConnId s + 1"
    using serve_incoming [OF posix Cons.prems(1), of gsn] serve_ending [OF posix Cons.prems(1), of gsn] by (cases ev) blast+
  with Cons.IH [OF st(2)] Cons.prems(2) show ?case by auto
qed simp



end
