(* ===== verification/Copy_On_Write.thy ===== *)
theory Copy_On_Write
  imports Std_Containers
begin

text \<open>
  \<^verbatim>\<open>Exercises_program/copy_on_write_2_8.cpp\<close> and \<^verbatim>\<open>Exercises_program/prefer_mutex_rather_than_rwlock_2_8.cpp\<close>: readers that
  take a \<^verbatim>\<open>shared_ptr\<close> to the data under a mutex and read without it, and writers that copy the data when a reader still
  holds it. Both programs keep one global pointer and differ in the data and in how a write changes it, which is the
  parameter \<open>modify\<close>; the critical sections are the steps.
\<close>

section \<open>Shared data\<close>

text \<open>
  \<open>global_ptr\<close> is the object the global pointer refers to, None for a null pointer; \<open>objs\<close> the objects that exist and \<open>held\<close> the threads
  that hold a pointer, with the object. \<open>snaps\<close> and \<open>writes\<close> are history: the value each of these threads saw
  under the mutex, and the writes done.
\<close>

record ('v, 'w) shared =
  global_ptr :: "nat option"
  objs :: "nat \<rightharpoonup> 'v"
  held :: "(nat \<times> nat) list"
  snaps :: "(nat \<times> 'v) list"
  writes :: "'w list"

definition use_count :: "('v, 'w) shared \<Rightarrow> nat" where
  "use_count s = (case global_ptr s of None \<Rightarrow> 0 | Some a \<Rightarrow> Suc (length (filter (\<lambda>h. snd h = a) (held s))))"

definition unique :: "('v, 'w) shared \<Rightarrow> bool" where
  "unique s \<longleftrightarrow> use_count s = 1"

text \<open>Objects that nobody refers to are destroyed.\<close>

definition referenced :: "('v, 'w) shared \<Rightarrow> nat \<Rightarrow> bool" where
  "referenced s a \<longleftrightarrow> global_ptr s = Some a \<or> a \<in> snd ` set (held s)"

definition release :: "('v, 'w) shared \<Rightarrow> ('v, 'w) shared" where
  "release s = s\<lparr>objs := (\<lambda>a. if referenced s a then objs s a else None)\<rparr>"

definition deref :: "nat option \<Rightarrow> ('v, 'w) shared \<Rightarrow> 'v result" where
  "deref p s = (case p of None \<Rightarrow> Inl UseAfterFree | Some a \<Rightarrow> (case objs s a of None \<Rightarrow> Inl UseAfterFree | Some v \<Rightarrow> Inr v))"

text \<open>A thread takes the pointer; \<^verbatim>\<open>traverse\<close> also asserts that it is not the only one that has it.\<close>

definition take_ptr :: "nat \<Rightarrow> ('v, 'w) shared \<Rightarrow> ('v, 'w) shared" where
  "take_ptr t s =
     (case global_ptr s of
        None \<Rightarrow> s
      | Some a \<Rightarrow> s\<lparr>held := (t, a) # held s, snaps := (case objs s a of Some v \<Rightarrow> (t, v) # snaps s | None \<Rightarrow> snaps s)\<rparr>)"

definition drop_ptr :: "nat \<Rightarrow> ('v, 'w) shared \<Rightarrow> ('v, 'w) shared" where
  "drop_ptr t s =
     release (s\<lparr>held := filter (\<lambda>h. fst h \<noteq> t) (held s), snaps := filter (\<lambda>h. fst h \<noteq> t) (snaps s)\<rparr>)"

text \<open>A write, with the mutex held: \<open>a\<close> is the address of a copy, when one is made.\<close>

definition cow_write :: "('w \<Rightarrow> 'v \<Rightarrow> 'v) \<Rightarrow> nat \<Rightarrow> 'w \<Rightarrow> ('v, 'w) shared \<Rightarrow> ('v, 'w) shared result" where
  "cow_write modify a w s =
     bind_r (if \<not> unique s
             then bind_r (deref (global_ptr s) s) (\<lambda>v. Inr (release (s\<lparr>global_ptr := Some a, objs := (objs s)(a \<mapsto> v)\<rparr>)))
             else Inr s)
       (\<lambda>s1. asserting (unique s1)
          (bind_r (deref (global_ptr s1) s1) (\<lambda>v.
             Inr (s1\<lparr>objs := (objs s1)(the (global_ptr s1) \<mapsto> modify w v), writes := writes s1 @ [w]\<rparr>))))"

section \<open>The two programs\<close>

type_synonym ('f) foo_list = "('f list, 'f) shared"

definition traverse_lock :: "nat \<Rightarrow> 'f foo_list \<Rightarrow> 'f foo_list result" where
  "traverse_lock t s = (let s1 = take_ptr t s in asserting (\<not> unique s1) (Inr s1))"

definition traverse_walk :: "nat \<Rightarrow> 'f foo_list \<Rightarrow> 'f list result" where
  "traverse_walk t s = deref (map_of (held s) t) s"

definition post :: "nat \<Rightarrow> 'f \<Rightarrow> 'f foo_list \<Rightarrow> 'f foo_list result" where
  "post a f s = cow_write (\<lambda>f v. v @ [f]) a f s"

text \<open>\<^verbatim>\<open>g_foos\<close> is never given a list.\<close>

definition initial_foos :: "'f foo_list" where
  "initial_foos = \<lparr>global_ptr = None, objs = Map.empty, held = [], snaps = [], writes = []\<rparr>"

type_synonym entry_list = "(string \<times> int) list"
type_synonym customers = "((string \<times> entry_list) list, string \<times> entry_list) shared"

definition new_CustomerData :: "nat \<Rightarrow> customers" where
  "new_CustomerData a = \<lparr>global_ptr = Some a, objs = [a \<mapsto> []], held = [], snaps = [], writes = []\<rparr>"

definition getData :: "nat \<Rightarrow> customers \<Rightarrow> customers" where
  "getData t s = take_ptr t s"

text \<open>\<^verbatim>\<open>findEntry\<close> has no definition in the program.\<close>

definition query :: "(entry_list \<Rightarrow> string \<Rightarrow> int) \<Rightarrow> nat \<Rightarrow> string \<Rightarrow> string \<Rightarrow> customers \<Rightarrow> int result" where
  "query findEntry t customer stock s =
     bind_r (deref (map_of (held s) t) s) (\<lambda>data.
       Inr (case map_of data customer of Some entries \<Rightarrow> findEntry entries stock | None \<Rightarrow> -1))"

definition update_customer :: "nat \<Rightarrow> string \<Rightarrow> entry_list \<Rightarrow> customers \<Rightarrow> customers result" where
  "update_customer a customer entries s = cow_write (\<lambda>(c, es) m. map_set c es m) a (customer, entries) s"

section \<open>Snapshots\<close>

text \<open>
  Any interleaving of readers and writers: a thread takes the pointer when it has none, and gives it up when it has one; a copy is
  made at a free address.
\<close>

datatype 'w cow_op = Snap nat | Drop nat | Write nat 'w

fun cow_run :: "('w \<Rightarrow> 'v \<Rightarrow> 'v) \<Rightarrow> 'w cow_op \<Rightarrow> ('v, 'w) shared \<Rightarrow> ('v, 'w) shared result" where
  "cow_run modify (Snap t) s =
     (if map_of (held s) t = None then let s1 = take_ptr t s in asserting (\<not> unique s1) (Inr s1) else Inr s)"
| "cow_run modify (Drop t) s = Inr (drop_ptr t s)"
| "cow_run modify (Write a w) s = (if objs s a = None then cow_write modify a w s else Inr s)"

definition cow_inv :: "('w \<Rightarrow> 'v \<Rightarrow> 'v) \<Rightarrow> 'v \<Rightarrow> ('v, 'w) shared \<Rightarrow> bool" where
  "cow_inv modify v0 s \<longleftrightarrow>
     (\<exists>a. global_ptr s = Some a \<and> objs s a = Some (fold modify (writes s) v0)) \<and>
     (\<forall>a. objs s a = None \<longleftrightarrow> \<not> referenced s a) \<and> distinct (map fst (held s)) \<and>
     (\<forall>t. map_of (snaps s) t = (case map_of (held s) t of None \<Rightarrow> None | Some a \<Rightarrow> objs s a))"

lemma cow_inv_D:
  assumes "cow_inv modify v0 s"
  obtains a where "global_ptr s = Some a" and "objs s a = Some (fold modify (writes s) v0)"
  using assms by (auto simp: cow_inv_def)

lemma referenced_release [simp]: "referenced (release s) a = referenced s a"
  by (simp add: referenced_def release_def)

lemma release_fields [simp]:
  "global_ptr (release s) = global_ptr s" "held (release s) = held s" "snaps (release s) = snaps s" "writes (release s) = writes s"
  "unique (release s) = unique s"
  by (simp_all add: release_def unique_def use_count_def split: option.splits)

lemma objs_release: "objs (release s) a = (if referenced s a then objs s a else None)"
  by (simp add: release_def)

lemma map_of_held_referenced: "map_of (held s) t = Some a \<Longrightarrow> referenced s a"
  by (force simp: referenced_def dest: map_of_SomeD)

lemma map_of_filter_fst: "map_of (filter (\<lambda>h. fst h \<noteq> t) m) u = (if u = t then None else map_of m u)"
  by (induction m) auto

lemma snap_ok:
  assumes inv: "cow_inv modify v0 s" and new: "map_of (held s) t = None"
  shows "\<not> unique (take_ptr t s)" and "cow_inv modify v0 (take_ptr t s)"
proof -
  obtain a where a: "global_ptr s = Some a" "objs s a = Some (fold modify (writes s) v0)" using inv by (rule cow_inv_D)
  let ?s = "take_ptr t s"
  have s: "?s = s\<lparr>held := (t, a) # held s, snaps := (t, fold modify (writes s) v0) # snaps s\<rparr>" using a by (simp add: take_ptr_def)
  show "\<not> unique ?s" using a by (simp add: s unique_def use_count_def)
  have "referenced ?s b \<longleftrightarrow> referenced s b" for b using a(1) by (auto simp: s referenced_def)
  moreover have "t \<notin> fst ` set (held s)" using new by (simp add: map_of_eq_None_iff)
  moreover have "map_of (snaps ?s) u = (case map_of (held ?s) u of None \<Rightarrow> None | Some b \<Rightarrow> objs ?s b)" for u
    using inv a(2) by (simp add: cow_inv_def s split: option.splits)
  ultimately show "cow_inv modify v0 ?s" using inv a unfolding cow_inv_def by (simp add: s)
qed

lemma drop_ok:
  assumes inv: "cow_inv modify v0 s"
  shows "cow_inv modify v0 (drop_ptr t s)"
proof -
  let ?s = "s\<lparr>held := filter (\<lambda>h. fst h \<noteq> t) (held s), snaps := filter (\<lambda>h. fst h \<noteq> t) (snaps s)\<rparr>"
  obtain a where a: "global_ptr s = Some a" "objs s a = Some (fold modify (writes s) v0)" using inv by (rule cow_inv_D)
  have dom: "\<And>a. objs s a = None \<longleftrightarrow> \<not> referenced s a" and dist: "distinct (map fst (held s))"
    and snap: "\<And>u. map_of (snaps s) u = (case map_of (held s) u of None \<Rightarrow> None | Some a \<Rightarrow> objs s a)"
    using inv by (auto simp: cow_inv_def)
  have less: "referenced ?s b \<Longrightarrow> referenced s b" for b by (auto simp: referenced_def)
  have "objs (release ?s) b = None \<longleftrightarrow> \<not> referenced ?s b" for b using dom [of b] less [of b] by (auto simp: objs_release)
  moreover have "map_of (snaps ?s) u = (case map_of (held ?s) u of None \<Rightarrow> None | Some a \<Rightarrow> objs (release ?s) a)" for u
    using snap [of u] map_of_held_referenced [of ?s u] by (auto simp: map_of_filter_fst objs_release split: option.splits)
  moreover have "referenced ?s a" using a(1) by (simp add: referenced_def)
  ultimately show ?thesis using a dist unfolding cow_inv_def drop_ptr_def by (simp add: objs_release distinct_map_filter)
qed

lemma write_unique:
  assumes inv: "cow_inv modify v0 s" and uniq: "unique s"
  shows "\<exists>s'. cow_write modify a w s = Inr s' \<and> cow_inv modify v0 s' \<and> writes s' = writes s @ [w] \<and> held s' = held s \<and> snaps s' = snaps s"
proof -
  obtain g where g: "global_ptr s = Some g" "objs s g = Some (fold modify (writes s) v0)" using inv by (rule cow_inv_D)
  let ?s = "s\<lparr>objs := (objs s)(g \<mapsto> modify w (fold modify (writes s) v0)), writes := writes s @ [w]\<rparr>"
  have run: "cow_write modify a w s = Inr ?s" using uniq g by (simp add: cow_write_def deref_def)
  have "g \<notin> snd ` set (held s)" using uniq g(1) by (auto simp: unique_def use_count_def filter_empty_conv)
  then have other: "map_of (held s) u \<noteq> Some g" for u by (force dest: map_of_SomeD)
  have "referenced ?s b \<longleftrightarrow> referenced s b" for b by (simp add: referenced_def)
  moreover have "objs ?s b = None \<longleftrightarrow> objs s b = None" for b using g(2) by simp
  moreover have "map_of (snaps s) u = (case map_of (held s) u of None \<Rightarrow> None | Some b \<Rightarrow> objs ?s b)" for u
    using inv other [of u] unfolding cow_inv_def by (auto split: option.splits)
  ultimately have "cow_inv modify v0 ?s" using inv g unfolding cow_inv_def by simp
  with run show ?thesis by simp
qed

lemma copy_ok:
  assumes inv: "cow_inv modify v0 s" and shared: "\<not> unique s" and new: "objs s a = None"
  shows "\<exists>s1. deref (global_ptr s) s = Inr (fold modify (writes s) v0) \<and>
    s1 = release (s\<lparr>global_ptr := Some a, objs := (objs s)(a \<mapsto> fold modify (writes s) v0)\<rparr>) \<and> unique s1 \<and> cow_inv modify v0 s1 \<and>
    writes s1 = writes s \<and> held s1 = held s \<and> snaps s1 = snaps s"
proof -
  obtain g where g: "global_ptr s = Some g" "objs s g = Some (fold modify (writes s) v0)" using inv by (rule cow_inv_D)
  let ?s0 = "s\<lparr>global_ptr := Some a, objs := (objs s)(a \<mapsto> fold modify (writes s) v0)\<rparr>"
  have dom: "\<And>a. objs s a = None \<longleftrightarrow> \<not> referenced s a"
    and snap: "\<And>u. map_of (snaps s) u = (case map_of (held s) u of None \<Rightarrow> None | Some a \<Rightarrow> objs s a)"
    using inv by (auto simp: cow_inv_def)
  have free: "\<not> referenced s a" using new dom by blast
  then have "a \<notin> snd ` set (held s)" by (simp add: referenced_def)
  then have uniq: "unique ?s0" by (auto simp: unique_def use_count_def filter_empty_conv)
  have ref: "referenced ?s0 b \<longleftrightarrow> b = a \<or> b \<in> snd ` set (held s)" for b by (auto simp: referenced_def)
  have "objs (release ?s0) b = None \<longleftrightarrow> \<not> referenced ?s0 b" for b
    using dom [of b] by (auto simp: objs_release ref referenced_def)
  moreover have "map_of (snaps s) u = (case map_of (held s) u of None \<Rightarrow> None | Some b \<Rightarrow> objs (release ?s0) b)" for u
    using snap [of u] free map_of_held_referenced [of s u] map_of_held_referenced [of ?s0 u]
    by (auto simp: objs_release split: option.splits)
  moreover have "referenced ?s0 a" by (simp add: ref)
  ultimately have "cow_inv modify v0 (release ?s0)" using inv unfolding cow_inv_def by (simp add: objs_release)
  with g uniq show ?thesis by (simp add: deref_def)
qed

lemma write_ok:
  assumes inv: "cow_inv modify v0 s" and new: "objs s a = None"
  shows "\<exists>s'. cow_write modify a w s = Inr s' \<and> cow_inv modify v0 s' \<and> writes s' = writes s @ [w] \<and> held s' = held s \<and> snaps s' = snaps s"
proof (cases "unique s")
  case True
  with write_unique [OF inv] show ?thesis by blast
next
  case False
  obtain s1 where s1: "deref (global_ptr s) s = Inr (fold modify (writes s) v0)"
      "s1 = release (s\<lparr>global_ptr := Some a, objs := (objs s)(a \<mapsto> fold modify (writes s) v0)\<rparr>)" "unique s1" "cow_inv modify v0 s1"
      "writes s1 = writes s" "held s1 = held s" "snaps s1 = snaps s"
    using copy_ok [OF inv False new] by blast
  have "cow_write modify a w s = cow_write modify a w s1"
    using False s1(1,3) by (simp add: cow_write_def s1(2) [symmetric])
  with write_unique [OF s1(4,3), of a w] s1(5-7) show ?thesis by simp
qed

lemma cow_run_ok:
  assumes "cow_inv modify v0 s"
  shows "\<exists>s'. cow_run modify ev s = Inr s' \<and> cow_inv modify v0 s'"
proof (cases ev)
  case (Snap t)
  with assms snap_ok [OF assms, of t] show ?thesis by (simp add: Let_def)
next
  case (Drop t)
  with drop_ok [OF assms] show ?thesis by simp
next
  case (Write a w)
  with assms write_ok [OF assms, of a w] show ?thesis by auto
qed

lemma cow_runs_ok: "cow_inv modify v0 s \<Longrightarrow> \<exists>s'. for_r ops (cow_run modify) s = Inr s' \<and> cow_inv modify v0 s'"
  by (rule for_r_invariant) (auto intro: cow_run_ok)

section \<open>Properties\<close>

text \<open>Threads that query and update the customer data, and threads that traverse and extend the list.\<close>

fun customer_run :: "(string \<times> entry_list) cow_op \<Rightarrow> customers \<Rightarrow> customers result" where
  "customer_run (Snap t) s = (if map_of (held s) t = None then Inr (getData t s) else Inr s)"
| "customer_run (Drop t) s = Inr (drop_ptr t s)"
| "customer_run (Write a (c, es)) s = (if objs s a = None then update_customer a c es s else Inr s)"

fun foo_run :: "'f cow_op \<Rightarrow> 'f foo_list \<Rightarrow> 'f foo_list result" where
  "foo_run (Snap t) s = (if map_of (held s) t = None then traverse_lock t s else Inr s)"
| "foo_run (Drop t) s = Inr (drop_ptr t s)"
| "foo_run (Write a f) s = (if objs s a = None then post a f s else Inr s)"

lemma customer_run_ok:
  assumes "cow_inv (\<lambda>(c, es) m. map_set c es m) v0 s"
  shows "\<exists>s'. customer_run ev s = Inr s' \<and> cow_inv (\<lambda>(c, es) m. map_set c es m) v0 s'"
proof (cases ev)
  case (Snap t)
  with assms snap_ok(2) [OF assms, of t] show ?thesis by (simp add: getData_def)
next
  case (Drop t)
  with drop_ok [OF assms] show ?thesis by simp
next
  case (Write a w)
  obtain c es where "w = (c, es)" by fastforce
  with Write assms write_ok [OF assms, of a w] show ?thesis by (auto simp: update_customer_def)
qed

lemma foo_run_cow: "foo_run ev s = cow_run (\<lambda>f v. v @ [f]) ev s"
  by (cases ev) (simp_all add: traverse_lock_def post_def)

lemma foo_run_ok: "cow_inv (\<lambda>f v. v @ [f]) v0 s \<Longrightarrow> \<exists>s'. foo_run ev s = Inr s' \<and> cow_inv (\<lambda>f v. v @ [f]) v0 s'"
  using cow_run_ok [of "\<lambda>f v. v @ [f]" v0 s ev] by (simp only: foo_run_cow)

lemma snapshot_value:
  assumes "cow_inv modify v0 s" and "map_of (snaps s) t = Some v"
  shows "deref (map_of (held s) t) s = Inr v"
proof -
  have "map_of (snaps s) t = (case map_of (held s) t of None \<Rightarrow> None | Some a \<Rightarrow> objs s a)"
    using assms(1) by (simp add: cow_inv_def)
  with assms(2) show ?thesis by (auto simp: deref_def split: option.splits)
qed

lemma current_value:
  assumes "cow_inv modify v0 s"
  shows "deref (global_ptr s) s = Inr (fold modify (writes s) v0)"
  using assms by (auto simp: cow_inv_def deref_def)

text \<open>The list of the first program does not exist at the start: the first \<^verbatim>\<open>post\<close> and the first \<^verbatim>\<open>traverse\<close> follow a null pointer.\<close>

lemma foos_uninitialised:
  "post a f initial_foos = Inl UseAfterFree"
  "bind_r (traverse_lock t initial_foos) (traverse_walk t) = Inl UseAfterFree"
  by (simp_all add: post_def cow_write_def unique_def use_count_def initial_foos_def deref_def traverse_lock_def traverse_walk_def
      take_ptr_def Let_def)




end
