(* ===== verification/Lock_Exercises.thy ===== *)
theory Lock_Exercises
  imports Sync Std_Containers
begin

text \<open>
  \<^verbatim>\<open>Exercises_program/Inventory_2_1_2.cpp\<close>, two threads that take two locks in opposite orders, and
  \<^verbatim>\<open>Exercises_program/stockFactory_1_.cpp\<close>, a pool of objects that keeps weak pointers to them.
\<close>

section \<open>Inventory\<close>

text \<open>
  The worker runs \<^verbatim>\<open>threadFunc\<close>: \<^verbatim>\<open>process\<close> adds the request to the inventory and \<^verbatim>\<open>~Request\<close> removes it, each with the lock of the request held while it
  takes that of the inventory. The main thread runs \<^verbatim>\<open>printAll\<close>, which holds the lock of the inventory while \<^verbatim>\<open>print\<close> takes that of
  the request. \<open>Iterating True\<close> is the loop before the request is printed. Positions are those where a thread waits for a lock or
  sleeps; \<open>inventory\<close> says whether the request is in the set.
\<close>

datatype worker_pc = Fresh | Processing | Processed | Deleting | Deleted
datatype printer_pc = NotStarted | Iterating bool | Printed
datatype lock_owner = Free | ByWorker | ByPrinter

record inventory_state =
  worker :: worker_pc
  printer :: printer_pc
  request_lock :: lock_owner
  inventory_lock :: lock_owner
  inventory :: bool

definition inventory_init :: inventory_state where
  "inventory_init = \<lparr>worker = Fresh, printer = NotStarted, request_lock = Free, inventory_lock = Free, inventory = False\<rparr>"

inductive inventory_step :: "inventory_state \<Rightarrow> inventory_state \<Rightarrow> bool" where
  process_lock: "worker s = Fresh \<Longrightarrow> request_lock s = Free \<Longrightarrow>
    inventory_step s (s\<lparr>worker := Processing, request_lock := ByWorker\<rparr>)"
| process_add: "worker s = Processing \<Longrightarrow> inventory_lock s = Free \<Longrightarrow>
    inventory_step s (s\<lparr>worker := Processed, inventory := True, request_lock := Free\<rparr>)"
| delete_lock: "worker s = Processed \<Longrightarrow> request_lock s = Free \<Longrightarrow>
    inventory_step s (s\<lparr>worker := Deleting, request_lock := ByWorker\<rparr>)"
| delete_remove: "worker s = Deleting \<Longrightarrow> inventory_lock s = Free \<Longrightarrow>
    inventory_step s (s\<lparr>worker := Deleted, inventory := False, request_lock := Free\<rparr>)"
| print_lock: "printer s = NotStarted \<Longrightarrow> inventory_lock s = Free \<Longrightarrow>
    inventory_step s (s\<lparr>printer := Iterating (inventory s), inventory_lock := ByPrinter\<rparr>)"
| print_one: "printer s = Iterating True \<Longrightarrow> request_lock s = Free \<Longrightarrow> inventory_step s (s\<lparr>printer := Iterating False\<rparr>)"
| print_end: "printer s = Iterating False \<Longrightarrow> inventory_step s (s\<lparr>printer := Printed, inventory_lock := Free\<rparr>)"

inductive_cases inventory_stepE: "inventory_step s t"

definition inventory_inv :: "inventory_state \<Rightarrow> bool" where
  "inventory_inv s \<longleftrightarrow>
     request_lock s = (if worker s = Processing \<or> worker s = Deleting then ByWorker else Free) \<and>
     inventory_lock s = (case printer s of Iterating b \<Rightarrow> ByPrinter | _ \<Rightarrow> Free) \<and>
     (inventory s \<longleftrightarrow> worker s = Processed \<or> worker s = Deleting) \<and> (printer s = Iterating True \<longrightarrow> inventory s)"

definition inventory_stuck :: "inventory_state \<Rightarrow> bool" where
  "inventory_stuck s \<longleftrightarrow> (\<forall>t. \<not> inventory_step s t)"

definition inventory_deadlocked :: inventory_state where
  "inventory_deadlocked = \<lparr>worker = Deleting, printer = Iterating True, request_lock = ByWorker, inventory_lock = ByPrinter, inventory = True\<rparr>"

interpretation inv_sys: invariant_system inventory_step inventory_inv
  by unfold_locales (auto simp: inventory_inv_def elim!: inventory_stepE)

lemma inventory_stuck_iff:
  assumes "inventory_inv s"
  shows "inventory_stuck s \<longleftrightarrow> worker s = Deleted \<and> printer s = Printed \<or> s = inventory_deadlocked"
proof
  assume st: "inventory_stuck s"
  have no: "\<not> inventory_step s t" for t using st by (simp add: inventory_stuck_def)
  have w: "worker s = Fresh \<Longrightarrow> request_lock s \<noteq> Free" "worker s = Processing \<Longrightarrow> inventory_lock s \<noteq> Free"
      "worker s = Processed \<Longrightarrow> request_lock s \<noteq> Free" "worker s = Deleting \<Longrightarrow> inventory_lock s \<noteq> Free"
      "printer s = NotStarted \<Longrightarrow> inventory_lock s \<noteq> Free" "printer s = Iterating True \<Longrightarrow> request_lock s \<noteq> Free"
      "printer s \<noteq> Iterating False"
    using no inventory_step.intros by blast+
  show "worker s = Deleted \<and> printer s = Printed \<or> s = inventory_deadlocked"
    using assms w unfolding inventory_inv_def inventory_deadlocked_def
    by (cases s; cases "worker s"; cases "printer s") (auto split: if_splits)
next
  assume "worker s = Deleted \<and> printer s = Printed \<or> s = inventory_deadlocked"
  then show "inventory_stuck s" by (auto simp: inventory_stuck_def inventory_deadlocked_def elim!: inventory_stepE)
qed

lemma inventory_init_inv: "inventory_inv inventory_init"
  by (simp add: inventory_inv_def inventory_init_def)

text \<open>
  The two threads can stop for ever: the state in which the destructor of the request waits for the inventory and the
  printing thread waits for the request is reachable, and it is the only one besides the end of both threads in which no thread can go on.
\<close>

theorem inventory_deadlock:
  "inventory_step\<^sup>*\<^sup>* inventory_init inventory_deadlocked \<and>
   (\<forall>s. inventory_step\<^sup>*\<^sup>* inventory_init s \<longrightarrow>
     (inventory_stuck s \<longleftrightarrow> worker s = Deleted \<and> printer s = Printed \<or> s = inventory_deadlocked))"
proof
  let ?s1 = "inventory_init\<lparr>worker := Processing, request_lock := ByWorker\<rparr>"
  let ?s2 = "?s1\<lparr>worker := Processed, inventory := True, request_lock := Free\<rparr>"
  let ?s3 = "?s2\<lparr>printer := Iterating (inventory ?s2), inventory_lock := ByPrinter\<rparr>"
  let ?s4 = "?s3\<lparr>worker := Deleting, request_lock := ByWorker\<rparr>"
  have "inventory_step inventory_init ?s1" by (rule process_lock) (simp_all add: inventory_init_def)
  moreover have "inventory_step ?s1 ?s2" by (rule process_add) (simp_all add: inventory_init_def)
  moreover have "inventory_step ?s2 ?s3" by (rule print_lock) (simp_all add: inventory_init_def)
  moreover have "inventory_step ?s3 ?s4" by (rule delete_lock) (simp_all add: inventory_init_def)
  moreover have "?s4 = inventory_deadlocked" by (simp add: inventory_init_def inventory_deadlocked_def)
  ultimately show "inventory_step\<^sup>*\<^sup>* inventory_init inventory_deadlocked"
    by (metis rtranclp.rtrancl_refl rtranclp.rtrancl_into_rtrancl)
next
  show "\<forall>s. inventory_step\<^sup>*\<^sup>* inventory_init s \<longrightarrow>
     (inventory_stuck s \<longleftrightarrow> worker s = Deleted \<and> printer s = Printed \<or> s = inventory_deadlocked)"
    using inv_sys.run_keeps inventory_init_inv inventory_stuck_iff by blast
qed

theorem inventory_deadlock_witness:
  "inventory_step\<^sup>*\<^sup>* inventory_init inventory_deadlocked \<and> inventory_stuck inventory_deadlocked"
  using inventory_deadlock by blast

section \<open>StockFactory\<close>

text \<open>
  \<open>stocks\<close> maps a key to the object its weak pointer refers to; \<open>refs\<close> counts the strong pointers of each object, \<open>key_of\<close> is the key of an
  object. An object whose last strong pointer is gone is in \<open>dying\<close> until its deleter has run. \<open>ok_self\<close> says whether
  \<^verbatim>\<open>shared_from_this\<close> finds the factory; it throws when it does not.
\<close>

record StockFactory =
  stocks :: "(string \<times> nat) list"
  refs :: "nat \<Rightarrow> nat"
  key_of :: "nat \<Rightarrow> string"
  dying :: "nat list"

definition new_StockFactory :: StockFactory where
  "new_StockFactory = \<lparr>stocks = [], refs = (\<lambda>_. 0), key_of = (\<lambda>_. []), dying = []\<rparr>"

definition weak_lock :: "nat option \<Rightarrow> StockFactory \<Rightarrow> nat option" where
  "weak_lock p f = (case p of None \<Rightarrow> None | Some x \<Rightarrow> if refs f x = 0 then None else Some x)"

definition get_stock :: "bool \<Rightarrow> nat \<Rightarrow> string \<Rightarrow> StockFactory \<Rightarrow> (nat \<times> StockFactory) result" where
  "get_stock ok_self new key f =
     (case weak_lock (map_of (stocks f) key) f of
        Some x \<Rightarrow> Inr (x, f\<lparr>refs := (refs f)(x := Suc (refs f x))\<rparr>)
      | None \<Rightarrow>
          if ok_self then
            Inr (new, f\<lparr>stocks := map_set key new (stocks f), refs := (refs f)(new := 1), key_of := (key_of f)(new := key)\<rparr>)
          else Inl Terminated)"

text \<open>Giving up a strong pointer, and the deleter that runs after the last one is gone.\<close>

definition drop_stock :: "nat \<Rightarrow> StockFactory \<Rightarrow> StockFactory" where
  "drop_stock x f =
     (let f1 = f\<lparr>refs := (refs f)(x := refs f x - 1)\<rparr> in if refs f1 x = 0 then f1\<lparr>dying := dying f1 @ [x]\<rparr> else f1)"

definition removeStock :: "nat \<Rightarrow> StockFactory \<Rightarrow> StockFactory" where
  "removeStock x f = f\<lparr>stocks := fst (map_erase (key_of f x) (stocks f))\<rparr>"

definition weakDeleteCallback :: "bool \<Rightarrow> nat \<Rightarrow> StockFactory \<Rightarrow> StockFactory" where
  "weakDeleteCallback factory_alive x f =
     (let f1 = (if factory_alive then removeStock x f else f) in f1\<lparr>dying := filter (\<lambda>y. y \<noteq> x) (dying f1)\<rparr>)"

text \<open>
  The pool can hold two objects of one key: the deleter of an object removes the entry of its key even when
  that entry has been given to a newer object in the meantime, so that a third request makes another one.
\<close>

lemma stock_duplicated:
  assumes "a \<noteq> b" "b \<noteq> c" "a \<noteq> c"
  shows "\<exists>f1 f2 f3. get_stock True a k new_StockFactory = Inr (a, f1) \<and> get_stock True b k (drop_stock a f1) = Inr (b, f2) \<and>
    get_stock True c k (weakDeleteCallback True a f2) = Inr (c, f3) \<and> 0 < refs f3 b \<and> 0 < refs f3 c \<and> key_of f3 b = key_of f3 c"
  using assms
  by (simp add: get_stock_def weak_lock_def new_StockFactory_def drop_stock_def weakDeleteCallback_def removeStock_def map_erase_def)

lemma get_stock_no_self: "get_stock False a k new_StockFactory = Inl Terminated"
  by (simp add: get_stock_def weak_lock_def new_StockFactory_def)

text \<open>Without such a race a request for a key that is alive gets the same object.\<close>

lemma get_stock_shares:
  assumes "map_invar (stocks f)" and "get_stock True a k f = Inr (x, f1)"
  shows "\<exists>f2. get_stock True b k f1 = Inr (x, f2) \<and> refs f2 x = Suc (refs f1 x)"
  using assms by (auto simp: get_stock_def weak_lock_def om.lookup_assign split: option.splits if_splits)

end
