(* ===== verification/First_Attempts.thy ===== *)
theory First_Attempts
  imports Sync
begin

text \<open>
  \<^verbatim>\<open>Exercises_program/CountDownLatch_2_2.cpp\<close> and \<^verbatim>\<open>Exercises_program/ThreadPool_3_3_2.cpp\<close>: a latch and a queue whose constructors lock
  their mutex, by a member \<^verbatim>\<open>unique_lock\<close>, and so keep it for the thread that constructs them. The latch and the queue that the server uses are those of
  \<open>Sync\<close>.
\<close>

section \<open>The latch\<close>

text \<open>
  Only the thread that constructed the latch holds the lock that \<^verbatim>\<open>wait\<close> passes to the condition variable, so it alone may call \<^verbatim>\<open>wait\<close>; and
  \<^verbatim>\<open>countDown\<close>, which locks the mutex, is for other threads. \<open>att_pos\<close> is the position of the constructing thread: outside, about to test the
  predicate, asleep, or awake again and waiting for the mutex. \<open>att_returns\<close> counts the calls of \<^verbatim>\<open>wait\<close> that returned.
\<close>

datatype att_position = Away | Testing | Asleep | Waking

record latch_attempt =
  att_locked :: bool
  att_count :: int
  att_pos :: att_position
  att_downs :: nat
  att_returns :: nat

definition new_latch_attempt :: "int \<Rightarrow> latch_attempt" where
  "new_latch_attempt n = \<lparr>att_locked = True, att_count = n, att_pos = Away, att_downs = 0, att_returns = 0\<rparr>"

definition attempt_wait :: "latch_attempt \<Rightarrow> latch_attempt" where
  "attempt_wait s =
     (if att_count s \<le> 0 then s\<lparr>att_pos := Away, att_returns := Suc (att_returns s)\<rparr>
      else s\<lparr>att_pos := Asleep, att_locked := False\<rparr>)"

definition attempt_countDown :: "latch_attempt \<Rightarrow> latch_attempt result" where
  "attempt_countDown s =
     bind_r (int32 (att_count s - 1)) (\<lambda>n.
       Inr (s\<lparr>att_count := n, att_downs := Suc (att_downs s),
              att_pos := (if n = 0 \<and> att_pos s = Asleep then Waking else att_pos s)\<rparr>))"

inductive attempt_step :: "latch_attempt \<Rightarrow> latch_attempt \<Rightarrow> bool" where
  attempt_call: "att_pos s = Away \<Longrightarrow> attempt_step s (s\<lparr>att_pos := Testing\<rparr>)"
| attempt_test: "att_pos s = Testing \<Longrightarrow> attempt_step s (attempt_wait s)"
| attempt_down: "\<not> att_locked s \<Longrightarrow> attempt_countDown s = Inr s' \<Longrightarrow> attempt_step s s'"
| attempt_spurious: "att_pos s = Asleep \<Longrightarrow> attempt_step s (s\<lparr>att_pos := Waking\<rparr>)"
| attempt_relock: "att_pos s = Waking \<Longrightarrow> \<not> att_locked s \<Longrightarrow> attempt_step s (s\<lparr>att_pos := Testing, att_locked := True\<rparr>)"

inductive_cases attempt_stepE: "attempt_step s t"

definition attempt_inv :: "int \<Rightarrow> latch_attempt \<Rightarrow> bool" where
  "attempt_inv n s \<longleftrightarrow> (att_locked s \<longleftrightarrow> att_pos s = Away \<or> att_pos s = Testing) \<and> att_count s = n - int (att_downs s) \<and>
     (att_returns s = 0 \<or> att_count s \<le> 0) \<and> (att_pos s = Asleep \<longrightarrow> 0 < att_count s)"

text \<open>Once a call of \<^verbatim>\<open>wait\<close> has returned, the mutex is held for good.\<close>

definition attempt_over :: "nat \<Rightarrow> latch_attempt \<Rightarrow> bool" where
  "attempt_over d s \<longleftrightarrow> att_locked s \<and> (att_pos s = Away \<or> att_pos s = Testing) \<and> att_count s \<le> 0 \<and> att_downs s = d"

interpretation att: invariant_system attempt_step "attempt_inv n" for n
  by unfold_locales
    (auto simp: attempt_inv_def attempt_wait_def attempt_countDown_def int32_def split: if_splits elim!: attempt_stepE)

interpretation att_over: invariant_system attempt_step "attempt_over d" for d
  by unfold_locales (auto simp: attempt_over_def attempt_wait_def elim!: attempt_stepE)

text \<open>
  On every run of this latch a \<^verbatim>\<open>wait\<close> returns only after the given number of countdowns and nobody sleeps once they were made; but a countdown can happen
  only while the constructing thread is inside \<^verbatim>\<open>wait\<close>, and after its return every other call of \<^verbatim>\<open>countDown\<close> blocks for ever.
\<close>

lemma latch_attempt_runs:
  assumes "attempt_step\<^sup>*\<^sup>* (new_latch_attempt n) s"
  shows "(0 < att_returns s \<longrightarrow> n \<le> int (att_downs s)) \<and> (n \<le> int (att_downs s) \<longrightarrow> att_pos s \<noteq> Asleep) \<and>
    (\<forall>t. attempt_step s t \<and> att_downs t \<noteq> att_downs s \<longrightarrow> att_pos s = Asleep \<or> att_pos s = Waking) \<and>
    (\<forall>t. 0 < att_returns s \<and> att_pos s = Away \<and> attempt_step\<^sup>*\<^sup>* s t \<longrightarrow> att_downs t = att_downs s)"
proof -
  have "attempt_inv n (new_latch_attempt n)" by (simp add: attempt_inv_def new_latch_attempt_def)
  then have inv: "attempt_inv n s" by (rule att.run_keeps [OF assms])
  then have "(0 < att_returns s \<longrightarrow> n \<le> int (att_downs s)) \<and> (n \<le> int (att_downs s) \<longrightarrow> att_pos s \<noteq> Asleep)"
    by (auto simp: attempt_inv_def)
  moreover have "att_pos s = Asleep \<or> att_pos s = Waking" if "attempt_step s t" "att_downs t \<noteq> att_downs s" for t
    using that inv by (cases "att_pos s") (auto simp: attempt_inv_def attempt_wait_def split: if_splits elim!: attempt_stepE)
  moreover have "att_downs t = att_downs s" if "0 < att_returns s" "att_pos s = Away" "attempt_step\<^sup>*\<^sup>* s t" for t
    using att_over.run_keeps [OF that(3), of "att_downs s"] that(1,2) inv by (auto simp: attempt_over_def attempt_inv_def)
  ultimately show ?thesis by blast
qed

text \<open>The intended use works: with the countdowns made while the constructor waits, \<^verbatim>\<open>wait\<close> returns.\<close>

lemma latch_attempt_returns: "\<exists>s. attempt_step\<^sup>*\<^sup>* (new_latch_attempt 1) s \<and> att_returns s = 1 \<and> att_downs s = 1"
proof -
  let ?s = "\<lambda>locked n p d r. \<lparr>att_locked = locked, att_count = n, att_pos = p, att_downs = d, att_returns = r\<rparr>"
  have "attempt_step (new_latch_attempt 1) (?s True 1 Testing 0 0)"
    using attempt_call [of "new_latch_attempt 1"] by (simp add: new_latch_attempt_def)
  moreover have "attempt_step (?s True 1 Testing 0 0) (?s False 1 Asleep 0 0)"
    using attempt_test [of "?s True 1 Testing 0 0"] by (simp add: attempt_wait_def)
  moreover have "attempt_step (?s False 1 Asleep 0 0) (?s False 0 Waking 1 0)"
    by (rule attempt_down) (simp_all add: attempt_countDown_def int32_def)
  moreover have "attempt_step (?s False 0 Waking 1 0) (?s True 0 Testing 1 0)"
    using attempt_relock [of "?s False 0 Waking 1 0"] by simp
  moreover have "attempt_step (?s True 0 Testing 1 0) (?s True 0 Away 1 1)"
    using attempt_test [of "?s True 0 Testing 1 0"] by (simp add: attempt_wait_def)
  ultimately have "attempt_step\<^sup>*\<^sup>* (new_latch_attempt 1) (?s True 0 Away 1 1)"
    by (meson converse_rtranclp_into_rtranclp rtranclp.rtrancl_refl)
  then show ?thesis by (intro exI [of _ "?s True 0 Away 1 1"]) simp
qed

section \<open>The queue\<close>

text \<open>
  Calls by the constructing thread, the only one that holds the lock. \<^verbatim>\<open>capacity\<close> is never given a value: it is whatever the memory holds, and
  is converted to \<^verbatim>\<open>size_t\<close> for the comparison. None is a call that never returns, since no other thread can change the queue.
\<close>

record 'a queue_attempt =
  att_data :: "'a list"
  att_capacity :: int

definition size_t_of :: "int \<Rightarrow> nat" where
  "size_t_of c = nat (c mod 2 ^ 64)"

definition new_queue_attempt :: "int \<Rightarrow> 'a queue_attempt" where
  "new_queue_attempt garbage = \<lparr>att_data = [], att_capacity = garbage\<rparr>"

definition Enqueue :: "'a \<Rightarrow> 'a queue_attempt \<Rightarrow> 'a queue_attempt option" where
  "Enqueue x q = (if length (att_data q) < size_t_of (att_capacity q) then Some (q\<lparr>att_data := att_data q @ [x]\<rparr>) else None)"

text \<open>\<^verbatim>\<open>Dequeue\<close> waits for room instead of for an element, and ends without returning the element it has taken.\<close>

definition Dequeue :: "'a queue_attempt \<Rightarrow> ('a \<times> 'a queue_attempt) result option" where
  "Dequeue q =
     (if length (att_data q) < size_t_of (att_capacity q)
      then Some (if att_data q = [] then Inl OutOfBounds else Inl MissingReturn) else None)"

text \<open>Whatever the indeterminate capacity is: after any number of insertions no call of \<^verbatim>\<open>Dequeue\<close> ends with an element, and a full queue is never read.\<close>

lemma Dequeue_delivers_nothing: "Dequeue q \<noteq> Some (Inr r)"
  by (simp add: Dequeue_def)

lemma Enqueue_all:
  "fold (\<lambda>x q. Option.bind q (Enqueue x)) xs (Some q) =
     (if xs = [] \<or> length (att_data q) + length xs \<le> size_t_of (att_capacity q) then Some (q\<lparr>att_data := att_data q @ xs\<rparr>) else None)"
proof (induction xs arbitrary: q)
  case (Cons x xs)
  have stuck: "fold (\<lambda>x q. Option.bind q (Enqueue x)) xs None = None" by (induction xs) simp_all
  show ?case
  proof (cases "length (att_data q) < size_t_of (att_capacity q)")
    case True
    then have "Enqueue x q = Some (q\<lparr>att_data := att_data q @ [x]\<rparr>)" by (simp add: Enqueue_def)
    with Cons.IH [of "q\<lparr>att_data := att_data q @ [x]\<rparr>"] True show ?thesis by auto
  next
    case False
    then have "Enqueue x q = None" by (simp add: Enqueue_def)
    with False stuck show ?thesis by simp
  qed
qed simp

lemma queue_attempt_fills:
  assumes "xs \<noteq> []" and "fold (\<lambda>x q. Option.bind q (Enqueue x)) xs (Some (new_queue_attempt garbage)) = Some q"
  shows "Dequeue q = (if length xs = size_t_of garbage then None else Some (Inl MissingReturn))"
  using assms by (auto simp: Enqueue_all new_queue_attempt_def Dequeue_def split: if_splits)

end
