(* ===== verification/Muduo_Programs.thy ===== *)
theory Muduo_Programs
  imports Text_Format
begin

text \<open>
  \<^verbatim>\<open>simple_five_tcp_program\<close>: callbacks of an echo, a discard and a daytime server over the library muduo, which is not among the sources. What the
  callbacks use of it, connections, buffers and the text of times, is a parameter; what they rely on is stated where it is used.
\<close>

section \<open>The library\<close>

text \<open>The operations on connections \<open>'c\<close>, buffers \<open>'b\<close> and time stamps \<open>'t\<close> that the programs call.\<close>

record ('c, 'b, 't) muduo =
  m_send :: "bytes \<Rightarrow> 'c \<Rightarrow> 'c"
  m_shutdown :: "'c \<Rightarrow> 'c"
  m_connected :: "'c \<Rightarrow> bool"
  m_name :: "'c \<Rightarrow> string"
  m_peer :: "'c \<Rightarrow> string"
  m_local :: "'c \<Rightarrow> string"
  m_retrieveAllAsString :: "'b \<Rightarrow> bytes \<times> 'b"
  m_toString :: "'t \<Rightarrow> string"
  m_toFormattedString :: "'t \<Rightarrow> string"

text \<open>A server of the library, as far as the programs set it up; the callbacks are named.\<close>

datatype muduo_callback = EchoConnection | EchoMessage | DaytimeConnection

record muduo_server =
  ms_port :: nat
  ms_name :: string
  ms_connection :: "muduo_callback option"
  ms_message :: "muduo_callback option"
  ms_started :: bool

section \<open>The callbacks\<close>

text \<open>Each returns the connection, the buffer if it has one, and the messages it has logged.\<close>

definition up_down :: "('c, 'b, 't) muduo \<Rightarrow> 'c \<Rightarrow> string" where
  "up_down M conn = (if m_connected M conn then ''UP'' else ''DOWN'')"

definition echo_onConnection :: "('c, 'b, 't) muduo \<Rightarrow> 'c \<Rightarrow> string list" where
  "echo_onConnection M conn = [''EchoServer -'' @ m_peer M conn @ '' - > '' @ m_local M conn @ '' is '' @ up_down M conn]"

definition echo_onMessage :: "('c, 'b, 't) muduo \<Rightarrow> 'c \<Rightarrow> 'b \<Rightarrow> 't \<Rightarrow> 'c \<times> 'b \<times> string list" where
  "echo_onMessage M conn buf time =
     (case m_retrieveAllAsString M buf of (msg, buf') \<Rightarrow>
        (m_send M msg conn, buf',
         [m_name M conn @ ''simple_five_tcp_program'' @ digits (length msg) @ ''bytes, '' @ ''data received at '' @ m_toString M time]))"

definition disacrd_onMessage :: "('c, 'b, 't) muduo \<Rightarrow> 'c \<Rightarrow> 'b \<Rightarrow> 't \<Rightarrow> 'b \<times> string list" where
  "disacrd_onMessage M conn buf time =
     (case m_retrieveAllAsString M buf of (msg, buf') \<Rightarrow>
        (buf', [m_name M conn @ '' discards '' @ digits (length msg) @ '' bytes received at '' @ m_toString M time]))"

text \<open>\<open>now\<close> is the current time.\<close>

definition daytime_onMessage :: "('c, 'b, 't) muduo \<Rightarrow> 't \<Rightarrow> 'c \<Rightarrow> 'c \<times> string list" where
  "daytime_onMessage M now conn =
     (if m_connected M conn then m_shutdown M (m_send M (m_toFormattedString M now @ [CHR 0x0A]) conn) else conn,
      [''Daytime Server - '' @ m_peer M conn @ '' -> '' @ m_local M conn @ '' is '' @ up_down M conn])"

section \<open>The programs\<close>

definition new_muduo_server :: "nat \<Rightarrow> string \<Rightarrow> muduo_server" where
  "new_muduo_server p name = \<lparr>ms_port = p, ms_name = name, ms_connection = None, ms_message = None, ms_started = False\<rparr>"

definition new_EchoServer :: "nat \<Rightarrow> muduo_server" where
  "new_EchoServer p = (new_muduo_server p ''EchoServer'')\<lparr>ms_connection := Some EchoConnection, ms_message := Some EchoMessage\<rparr>"

definition echo_start :: "muduo_server \<Rightarrow> muduo_server" where
  "echo_start s = s\<lparr>ms_started := True\<rparr>"

text \<open>Up to the call of the library's \<^verbatim>\<open>loop\<close>. \<open>pid\<close> is the number of the process.\<close>

definition runEchoServer :: "nat \<Rightarrow> string list \<times> muduo_server" where
  "runEchoServer pid = ([''pid = '' @ digits pid], echo_start (new_EchoServer 2007))"

definition daytime_main :: "nat \<Rightarrow> string list \<times> muduo_server" where
  "daytime_main pid =
     ([''pid : '' @ digits pid],
      (new_muduo_server 9000 ''complex server'')\<lparr>ms_connection := Some DaytimeConnection, ms_started := True\<rparr>)"

section \<open>Properties\<close>

text \<open>
  What muduo documents: \<^verbatim>\<open>retrieveAllAsString\<close> returns the readable bytes and leaves none, and \<^verbatim>\<open>send\<close> adds its bytes behind what was sent
  before. \<open>sent\<close> and \<open>readable\<close> are the observations of a connection and of a buffer.
\<close>

definition muduo_ok :: "('c \<Rightarrow> bytes) \<Rightarrow> ('b \<Rightarrow> bytes) \<Rightarrow> ('c, 'b, 't) muduo \<Rightarrow> bool" where
  "muduo_ok sent readable M \<longleftrightarrow>
     (\<forall>b. case m_retrieveAllAsString M b of (msg, b') \<Rightarrow> msg = readable b \<and> readable b' = []) \<and>
     (\<forall>msg c. sent (m_send M msg c) = sent c @ msg) \<and> (\<forall>c. sent (m_shutdown M c) = sent c)"

text \<open>The echo server gives back what it gets: over any sequence of messages, what it sends is what arrived, in order, and nothing stays behind.\<close>

fun echo_all :: "('c, 'b, 't) muduo \<Rightarrow> ('b \<times> 't) list \<Rightarrow> 'c \<Rightarrow> 'c \<times> 'b list" where
  "echo_all M [] c = (c, [])"
| "echo_all M ((b, t) # ms) c =
     (case echo_onMessage M c b t of (c1, b', lines) \<Rightarrow> case echo_all M ms c1 of (c2, bs) \<Rightarrow> (c2, b' # bs))"

lemma echo_once:
  assumes "muduo_ok sent readable M" and "echo_onMessage M c b t = (c1, b', lines)"
  shows "sent c1 = sent c @ readable b" and "readable b' = []"
proof -
  obtain msg b1 where r: "m_retrieveAllAsString M b = (msg, b1)" by fastforce
  then have "msg = readable b" "readable b1 = []" using assms(1) unfolding muduo_ok_def by (auto dest!: spec [of _ b])
  moreover have "c1 = m_send M msg c" "b' = b1" using assms(2) unfolding echo_onMessage_def r by simp_all
  ultimately show "sent c1 = sent c @ readable b" "readable b' = []" using assms(1) by (simp_all add: muduo_ok_def)
qed

lemma echo_returns:
  assumes ok: "muduo_ok sent readable M"
  shows "echo_all M ms c = (c', bs) \<Longrightarrow>
    sent c' = sent c @ concat (map (readable \<circ> fst) ms) \<and> (\<forall>b \<in> set bs. readable b = [])"
proof (induction ms arbitrary: c c' bs)
  case (Cons m ms)
  obtain b t where m: "m = (b, t)" by fastforce
  obtain c1 b' lines where one: "echo_onMessage M c b t = (c1, b', lines)" by (metis prod_cases3)
  obtain c2 bs2 where rest: "echo_all M ms c1 = (c2, bs2)" by fastforce
  have "c' = c2" "bs = b' # bs2" using Cons.prems m one rest by auto
  with echo_once [OF ok one] Cons.IH [OF rest] m show ?case by simp
qed simp

lemma discard_drops: "muduo_ok sent readable M \<Longrightarrow> readable (fst (disacrd_onMessage M c b t)) = []"
  by (auto simp: muduo_ok_def disacrd_onMessage_def split: prod.splits)

lemma daytime_sends:
  assumes "muduo_ok sent readable M"
  shows "sent (fst (daytime_onMessage M now c)) = sent c @ (if m_connected M c then m_toFormattedString M now @ [CHR 0x0A] else [])"
  using assms by (auto simp: muduo_ok_def daytime_onMessage_def)

text \<open>The contract can be met: connections and buffers as byte lists.\<close>

definition list_muduo :: "(bytes, bytes, nat) muduo" where
  "list_muduo = \<lparr>m_send = (\<lambda>msg c. c @ msg), m_shutdown = (\<lambda>c. c), m_connected = (\<lambda>c. True), m_name = (\<lambda>c. ''c''),
     m_peer = (\<lambda>c. ''p''), m_local = (\<lambda>c. ''l''), m_retrieveAllAsString = (\<lambda>b. (b, [])), m_toString = digits, m_toFormattedString = digits\<rparr>"

lemma list_muduo_ok: "muduo_ok (\<lambda>c. c) (\<lambda>b. b) list_muduo"
  by (simp add: muduo_ok_def list_muduo_def)

end
