(* ===== verification/Spec2Isabelle.thy ===== *)
theory Spec2Isabelle
  imports Async_Logger Http_Server Loop_Timers Loop_World Log_Descriptors Server_Descriptors Copy_On_Write Lock_Exercises First_Attempts Muduo_Programs
begin

text \<open>
  \<^bold>\<open>Verification of the tundra server.\<close>

  The program is a single-machine HTTP server in C++ on top of a reactor library: an event loop per thread waits in \<^verbatim>\<open>poll\<close>, dispatches events to channels, runs
  timers and functors handed over by other threads; a TCP server accepts connections and hands them to loops; a connection buffers input and output; the
  HTTP server parses requests out of the input and writes responses; a logger thread writes log lines to memory-mapped files. This library models
  these parts definition by definition from the sources under \<^verbatim>\<open>src/\<close> and proves what makes them correct.

  \<^bold>\<open>How programs are modelled.\<close> A class is a record of its members, an enumeration a datatype, a member function a function from the object (and what it can reach)
  to the object afterwards. Every failed \<^verbatim>\<open>assert\<close>, access outside an object, access to a destroyed object, signed overflow, missing return value, failed
  allocation and call of \<^verbatim>\<open>std::terminate\<close> or \<^verbatim>\<open>abort\<close> is a value of the type \<open>fault\<close>, and an operation that can end that way returns a \<open>result\<close>. Integers are unbounded
  where the code's range cannot matter, and otherwise words or integers with the check for the range written out (\<open>int32\<close>, \<open>int64\<close>). Loops are \<open>for_r\<close>,
  structural recursion, or a function with its termination proof; the parser's loop, which need not end, is a partial function
  whose value None is that it does not return. Threads are interleaved at their critical sections: the step relations \<open>el_step\<close>, \<open>elt_step\<close>,
  \<open>al_step\<close>, \<open>latch_step\<close>, \<open>bq_step\<close>, \<open>inventory_step\<close> and \<open>attempt_step\<close> have one rule per such section, and spurious wakeups of condition variables are among them.
  The answers of the operating system (\<^verbatim>\<open>read\<close>, \<^verbatim>\<open>write\<close>, \<^verbatim>\<open>poll\<close>, \<^verbatim>\<open>accept\<close>, the clock, the allocator) are arguments, constrained only by what they document
  (\<open>posix_fds\<close>, \<open>write_honest\<close>, \<open>malloc_ok\<close>, the hypotheses of \<open>poller_poll_active\<close> and \<open>readFd_appends\<close>), and callbacks are arbitrary lists of calls of the interface.

  \<^bold>\<open>Theories.\<close>
  \<^item> \<open>Tundra_Prelude\<close>: results, their sequencing and the \<open>safe\<close> calculus; memory blocks and searches. \<open>Text_Format\<close>: decimal text and \<^verbatim>\<open>snprintf\<close>.
    \<open>Std_Containers\<close>: \<^verbatim>\<open>std::set\<close> and \<^verbatim>\<open>std::map\<close> with their contracts, the locales \<open>ordered_set\<close> and \<open>ordered_map\<close>.
  \<^item> \<open>Buffer\<close> (\<^verbatim>\<open>util/Buffer\<close>): the storage with its two indices refines a byte queue (locale \<open>byte_queue\<close>); growth, moving, \<^verbatim>\<open>readFd\<close>, the integer
    accessors. \<open>Tundra_String\<close> (\<^verbatim>\<open>util/String\<close>): the non-owning view and its order. \<open>Time_Stamp\<close> (\<^verbatim>\<open>util/TimeStamp\<close>).
  \<^item> \<open>Sync\<close> (\<^verbatim>\<open>util/CountDownLatch\<close>, \<^verbatim>\<open>util/BlockingQueue.h\<close>): no lost wakeup, first-in first-out order; the locale \<open>invariant_system\<close> of induction
    over runs, which every step relation interprets.
  \<^item> \<open>Log_File\<close> (\<^verbatim>\<open>util/mmapManager\<close>, \<^verbatim>\<open>base/LogFile\<close>) and \<open>Async_Logger\<close> (\<^verbatim>\<open>base/AsyncLogger\<close>, \<^verbatim>\<open>base/Logging\<close>): log lines are neither lost nor
    reordered between the front buffers, the buffers the background thread holds and the files, under every interleaving; the background thread makes progress. \<open>Log_Level\<close>: the levels. \<open>Log_Descriptors\<close>: the descriptors of log files, among those of
    the server.
  \<^item> \<open>Channel_Poller\<close> (\<^verbatim>\<open>net/Channel\<close>, \<^verbatim>\<open>net/Poller\<close>): the poller's array and map refine a map from descriptors to interests; what \<^verbatim>\<open>poll\<close> reports
    is dispatched to the right callbacks in the right order. \<open>Channel_Registry\<close>: the contract of registered channels for their owners, the locale
    \<open>channel_registry\<close>.
  \<^item> \<open>Timer_Queue\<close> (\<^verbatim>\<open>net/Timer\<close>, \<^verbatim>\<open>net/TimerId.h\<close>, \<^verbatim>\<open>net/TimerQueue\<close>): ownership of timers on the heap, expiration, cancellation also from callbacks, and
    that the descriptor is always armed in time. \<open>Loop_Timers\<close>: the timer interface of \<^verbatim>\<open>net/EventLoop\<close>.
  \<^item> \<open>Event_Loop\<close> (\<^verbatim>\<open>net/EventLoop\<close>): functors run once, in order, without lost wakeups; \<^verbatim>\<open>quit\<close>, construction and destruction.
    \<open>Loop_World\<close>: its descriptors, the loop a thread knows as its own, and its debugging output.
    \<open>Loop_Threads\<close> (\<^verbatim>\<open>net/EventLoopThread\<close>, \<^verbatim>\<open>net/EventLoopThreadPool\<close>): the hand-over of a loop from its thread, and round robin.
  \<^item> \<open>Inet_Address\<close> (\<^verbatim>\<open>net/InetAddress\<close>). \<open>Tcp_Connection\<close> (\<^verbatim>\<open>net/TcpConnection\<close>, \<^verbatim>\<open>base/WeakCallback.h\<close>): the life cycle of a connection and the conservation of its output.
    \<open>Sockets\<close> (\<^verbatim>\<open>net/Socket\<close>): system calls, what POSIX promises of descriptors (\<open>posix_fds\<close>), and a small table of descriptors as an example of a kernel.
    \<open>Acceptor\<close> (\<^verbatim>\<open>net/Acceptor\<close>): who owns which descriptor while a server accepts connections and runs out of descriptors.
    \<open>Tcp_Server\<close> (\<^verbatim>\<open>net/TcpServer\<close>): the map of connections. \<open>Server_Descriptors\<close>: the descriptors of the connections in it.
  \<^item> \<open>Http_Message\<close> (\<^verbatim>\<open>http/HttpRequest.h\<close>, \<^verbatim>\<open>http/HttpResponse\<close>), \<open>Http_Context\<close> (\<^verbatim>\<open>http/HttpContext\<close>): the parser on pointers into a buffer equals a
    reference parser on byte lists, reads back what a printer of requests writes, does not depend on how the bytes arrive, and yields well-formed requests only.
    \<open>Http_Server\<close> (\<^verbatim>\<open>http/HttpServer\<close>, \<^verbatim>\<open>main.cpp\<close>): from the bytes of a request to the bytes of its response. \<open>Favicon\<close> (\<^verbatim>\<open>main.cpp\<close>): the
    program's picture, and that it is a sound PNG file.
  \<^item> \<open>Copy_On_Write\<close>, \<open>Lock_Exercises\<close>, \<open>First_Attempts\<close> (\<^verbatim>\<open>Exercises_program\<close>): snapshots by shared pointers, a deadlock of two locks, an object pool, a
    latch and a queue that keep their own lock. \<open>Muduo_Programs\<close> (\<^verbatim>\<open>simple_five_tcp_program\<close>): servers over a library that is a parameter.
  \<^item> This theory: the server program as a whole.

  \<^bold>\<open>How the theories meet.\<close> \<open>Tcp_Connection\<close> stores its output and input in \<open>Buffer\<close> and registers its channel through \<open>channel_registry\<close>; \<open>Acceptor\<close> registers the listening socket of \<open>Sockets\<close> in the same way;
  \<open>Tcp_Server\<close> takes descriptors from \<open>Acceptor\<close>, loops from \<open>Loop_Threads\<close> and names from \<open>Inet_Address\<close>; \<open>Http_Server\<close> runs \<open>Http_Context\<close> on the input buffer of a connection and sends through \<open>Tcp_Connection\<close>;
  \<open>Event_Loop\<close> contains the channels and the timer queue; \<open>Async_Logger\<close> writes through \<open>Log_File\<close>. The theorem below follows a request through all of them.

  \<^bold>\<open>Bounds.\<close> Bodies of responses have fewer than \<open>10 ^ 13\<close> bytes, so that the \<^verbatim>\<open>Content-Length\<close> line fits its buffer of 32 bytes; a server accepts fewer than
  \<open>2 ^ 31 - 1\<close> connections, the range of its counter. Neither is a fuel: no model has one.

  \<^bold>\<open>What the models say about faults of the program.\<close> Where the code does not do what it means to, the model follows the code and a theorem states the behaviour:
  a \<^verbatim>\<open>send\<close> while output is pending reads past its message (\<open>sendInLoop_effect\<close>), the one fault that \<open>connection_safe\<close> leaves possible;
  a request that arrives in two parts is rejected (\<open>split_request_rejected\<close>); a parser that is called again after a complete request never returns
  (\<open>parseRequest_diverges\<close>); a connection that is going down when its server is destroyed fails an assert (\<open>connectDestroyed_disconnecting\<close>); the destructor of an event loop fails one
  (\<open>destroy_EventLoop_asserts\<close>); a \<^verbatim>\<open>quit\<close> before \<^verbatim>\<open>loop\<close> is lost (\<open>quit_before_loop_lost\<close>); rolling a log file can close the socket of a connection (\<open>roll_closes_connection\<close>).

  \<^bold>\<open>Not modelled.\<close> The log messages of the operations outside \<open>Sockets\<close>, \<open>Acceptor\<close>, \<open>Tcp_Server\<close>, \<open>Http_Server\<close> and \<open>Loop_World\<close>, and what is printed to the terminal; memory orders and data races inside a
  critical section; the calls of \<^verbatim>\<open>main\<close> that start and stop the logger;
  a commented-out loop and a greeting under \<^verbatim>\<open>Exercises_program\<close>; type aliases; the tests.
\<close>

section \<open>The server program as a whole\<close>

text \<open>
  C5 (functional). The server that \<^verbatim>\<open>main\<close> sets up, from acceptance to answer: whatever connections it accepts and removes (fewer than
  \<open>2 ^ 31 - 1\<close> operations), every connection it holds has an object with the message callback that calls \<^verbatim>\<open>HttpServer::onMessage\<close> of this server, can
  be established on a free channel and descriptor of its loop, and is served (\<open>serves\<close>): when it is up with no output pending, a readable
  event whose bytes complete a well-formed request in the input buffer returns and sends the serialised answer of the
  program's handler, status 200 for the three paths it knows and status 404 for any other path, leaves the
  bytes behind the request in the buffer, and starts to close the connection exactly when the request asks for it or the path is unknown. The \<^verbatim>\<open>write\<close> takes no more than it is given
  and does not fail for good, and the text of the time is shorter than \<open>2 ^ 30\<close> bytes, so that the length of the answer is an \<^verbatim>\<open>int\<close>.
\<close>

theorem main_serves:
  assumes started: "main_setup E loop_at now arg a lp st = Inr (h, rest_of)" and ops: "int (length ops) < 2 ^ 31 - 1"
    and small: "length now < 2 ^ 30"
  shows "\<exists>srv up. for_r ops (srv_run gsn) (server h, {}) = Inr (srv, up) \<and> snd ` set (connections srv) = up \<and>
    (\<forall>(nm, c) \<in> set (connections srv). \<exists>obj. conn_objs srv c = Some obj \<and> obj_name obj = nm \<and>
       call_messageCallback h obj = (\<lambda>clk out s. onMessage (httpCallback h) clk out (s\<lparr>calls := calls s @ [Message]\<rparr>)) \<and> serves h obj)"
proof -
  obtain n s0 cbs begun where st: "server_setThreadNum n ((new_TcpServer lp (new_InetAddress 80 False) ''tundra-http-server'')\<lparr>srv_callbacks := cbs\<rparr>) = Inr s0"
      "server_start E loop_at False (s0, begun) = Inr (server h, rest_of)" "messageCallback cbs = UserCallback onMessage_functor"
    using main_setup_started(2) [OF started] by blast
  obtain srv up where srv: "for_r ops (srv_run gsn) (server h, {}) = Inr (srv, up)" "snd ` set (connections srv) = up"
      "\<forall>(nm, c) \<in> set (connections srv). \<exists>obj. conn_objs srv c = Some obj \<and> obj_name obj = nm \<and> obj_callbacks obj = cbs"
    using server_runs [OF st(1,2) ops, of gsn] by fastforce
  have "serves h obj \<and> call_messageCallback h obj = (\<lambda>clk out s. onMessage (httpCallback h) clk out (s\<lparr>calls := calls s @ [Message]\<rparr>))"
    if "obj_callbacks obj = cbs" for obj
    using main_serves_obj [OF main_setup_started(1) [OF started] small] that st(3)
    by (simp add: call_messageCallback_def [abs_def] functors_def)
  with srv show ?thesis by fastforce
qed

text \<open>
  One connection is accepted and established; the loop, handling the event of its channel, delivers a request in one piece.
\<close>

theorem main_serves_witness:
  "\<exists>h rest_of srv up obj s s' q. main_setup (table_env 3) (\<lambda>i. 100 + i) ''noon'' (Some 2) 10 1 (table_world, new_Loop 1) = Inr (h, rest_of) \<and>
    for_r [Accept 7 5 (new_InetAddress 5000 True)] (srv_run (\<lambda>f. None)) (server h, {}) = Inr (srv, up) \<and>
    connections srv \<noteq> [] \<and> conn_objs srv 7 = Some obj \<and> establish obj 10 (new_Loop 1) = Inr s \<and>
    obj_handleRead h obj defaultConnectionCallback (TimeStamp 5) (Wrote 0) (ReadBytes (request_text get_root [] @ ''x''))
      (mark_handling (Some 10) True s) = Some (Inr s') \<and>
    sent s' = response_text (answer (httpCallback h) q) \<and> statusCode (answer (httpCallback h) q) = k200OK \<and>
    contents (inputBuffer (conn s')) = ''x''"
proof -
  let ?ops = "[Accept 7 5 (new_InetAddress 5000 True)]"
  obtain h rest_of where h: "main_setup (table_env 3) (\<lambda>i. 100 + i) ''noon'' (Some 2) 10 1 (table_world, new_Loop 1) = Inr (h, rest_of)"
      "conn_objs (server h) = Map.empty" "srv_loop (server h) = 1" using sample_main by blast
  have hyps: "int (length ?ops) < 2 ^ 31 - 1" "length ''noon'' < 2 ^ 30" by simp_all
  obtain srv up where srv: "for_r ?ops (srv_run (\<lambda>f. None)) (server h, {}) = Inr (srv, up)" "snd ` set (connections srv) = up"
      "\<forall>(nm, c) \<in> set (connections srv). \<exists>obj. conn_objs srv c = Some obj \<and> serves h obj"
    using main_serves [OF h(1) hyps, of "\<lambda>f. None"] by fastforce
  have up: "up = {7}" "\<exists>obj. conn_objs srv 7 = Some obj \<and> obj_fd obj = 5 \<and> obj_loop obj = 1"
    using srv(1) h(2,3) by (auto simp: newConnection_def result_simps Let_def split: prod.splits)
  then obtain nm where nm: "(nm, 7) \<in> set (connections srv)" using srv(2) by fastforce
  then obtain obj where obj: "conn_objs srv 7 = Some obj" "serves h obj" "obj_fd obj = 5" "obj_loop obj = 1"
    using srv(3) up(2) by fastforce
  have "can_connect 10 (obj_fd obj) (new_Loop 1)" "self (new_Loop 1) = obj_loop obj"
    using sample_can_connect obj(3,4) by (simp_all add: new_Loop_def)
  with obj(2) obtain s where s: "establish obj 10 (new_Loop 1) = Inr s" "conn_of obj s" "idle_conn s" "sent s = []"
      "contents (inputBuffer (conn s)) = []" unfolding serves_def by blast
  let ?d = "request_text get_root [] @ ''x''"
  have "length ?d \<le> 65536"
    by (simp add: request_text_def line_text_def get_root_def methodString_def kCRLF_def new_HttpRequest_def)
  then have cap: "?d \<noteq> []" "length ?d \<le> iov_capacity (inputBuffer (conn s))"
    using readable_capacity [of "inputBuffer (conn s)"] by simp_all
  have p: "path get_root = ''/''" by (simp add: get_root_def)
  have "\<exists>s' q. obj_handleRead h obj defaultConnectionCallback (TimeStamp 5) (Wrote 0) (ReadBytes ?d) (mark_handling (Some 10) True s) =
      Some (Inr s') \<and> sent s' = sent s @ response_text (answer (httpCallback h) q) \<and> contents (inputBuffer (conn s')) = ''x'' \<and>
      statusCode (answer (httpCallback h) q) = k200OK"
    using obj(2) [unfolded serves_def, THEN conjunct2, rule_format, of "mark_handling (Some 10) True s" ?d get_root "[]" "''x''" "Wrote 0"
        defaultConnectionCallback "TimeStamp 5"] s cap get_root_ok p
    by (auto simp: write_honest_def failed_for_good_def)
  then obtain s' q where "obj_handleRead h obj defaultConnectionCallback (TimeStamp 5) (Wrote 0) (ReadBytes ?d) (mark_handling (Some 10) True s) =
      Some (Inr s')" "sent s' = response_text (answer (httpCallback h) q)" "contents (inputBuffer (conn s')) = ''x''"
      "statusCode (answer (httpCallback h) q) = k200OK" using s(4) by auto
  moreover have "connections srv \<noteq> []" using nm by auto
  ultimately show ?thesis using h(1) srv(1) obj(1) s(1) by blast
qed

end
